(* ===== verification/Prelude.thy ===== *)
theory Prelude
  imports Main "HOL-Library.Word"
begin

unbundle bit_operations_syntax

text \<open>
  Shared vocabulary of the development: the C integer types of \<^verbatim>\<open>libv/src/include/type.h\<close> as
  machine words, memory blocks as byte lists with the two primitives that model
  \<^verbatim>\<open>memcpy\<close>/\<^verbatim>\<open>memset\<close> (\<open>mem_read\<close>, \<open>mem_write\<close>), the little-endian object
  representation of integers, and the part of the C allocator contract the sources rely on.
  The lemma collections \<open>mem_simps\<close> (reading and writing memory blocks) and
  \<open>word_nat\<close> (from unsigned machine arithmetic to arithmetic on \<^typ>\<open>nat\<close>) carry the
  component proofs.
\<close>

section \<open>Types and collections\<close>

type_synonym u8 = "8 word"
type_synonym u16 = "16 word"
type_synonym u32 = "32 word"
type_synonym u64 = "64 word"
type_synonym usize = u64
type_synonym block_id_t = u64
type_synonym bytes = "u8 list"

named_theorems mem_simps \<open>reading and writing memory blocks\<close>
named_theorems word_nat \<open>unsigned machine arithmetic as arithmetic on natural numbers\<close>

section \<open>Unsigned 64-bit arithmetic\<close>

lemma unat_lt_2p64 [simp]: "unat (x :: u64) < 18446744073709551616"
  by (rule order_less_le_trans [OF unsigned_less]) simp

lemma unat_add_u64 [word_nat]:
  "unat (a :: u64) + unat b < 18446744073709551616 \<Longrightarrow> unat (a + b) = unat a + unat b"
  by (simp add: unat_word_ariths)

lemma unat_mult_u64 [word_nat]:
  "unat (a :: u64) * unat b < 18446744073709551616 \<Longrightarrow> unat (a * b) = unat a * unat b"
  by (simp add: unat_word_ariths)

lemma unat_ucast_mod: "unat (ucast (w :: 'a::len word) :: 'b::len word) = unat w mod 2 ^ LENGTH('b)"
  by (simp only: unat_eq_nat_uint unsigned_ucast_eq take_bit_eq_mod) (simp add: nat_mod_distrib nat_power_eq)

lemma unat_sub_u64 [word_nat]:
  "(b :: u64) \<le> a \<Longrightarrow> unat (a - b) = unat a - unat b"
  by (simp add: unat_sub)

lemma unat_of_nat_u64 [word_nat]:
  "n < 18446744073709551616 \<Longrightarrow> unat (of_nat n :: u64) = n"
  by (simp add: unat_of_nat)

lemma unat_inc_u64 [word_nat]:
  "unat (a :: u64) < 18446744073709551615 \<Longrightarrow> unat (a + 1) = Suc (unat a)"
  by (subst unat_add_u64) simp_all

lemma unat_inc_less: "(a :: u64) < b \<Longrightarrow> unat (a + 1) = Suc (unat a)"
  by (rule unat_inc_u64, unfold word_less_nat_alt, use unat_lt_2p64 [of b] in linarith)

lemma u64_less_nat: "((a :: u64) < b) = (unat a < unat b)"
  by (simp add: word_less_nat_alt)

lemma u64_le_nat: "((a :: u64) \<le> b) = (unat a \<le> unat b)"
  by (simp add: word_le_nat_alt)

lemmas u64_ord = u64_less_nat u64_le_nat

section \<open>Memory blocks\<close>

text \<open>
  \<open>mem_read off n xs\<close> are the \<open>n\<close> cells at offset \<open>off\<close>; \<open>mem_write off ys xs\<close> stores
  \<open>ys\<close> there. In C both are only defined inside the block; the component theorems establish
  that side condition.
\<close>

definition mem_read :: "nat \<Rightarrow> nat \<Rightarrow> 'a list \<Rightarrow> 'a list" where
  "mem_read off n xs = take n (drop off xs)"

definition mem_write :: "nat \<Rightarrow> 'a list \<Rightarrow> 'a list \<Rightarrow> 'a list" where
  "mem_write off ys xs = take off xs @ ys @ drop (off + length ys) xs"

lemma length_mem_read [mem_simps]:
  "off + n \<le> length xs \<Longrightarrow> length (mem_read off n xs) = n"
  by (simp add: mem_read_def)

lemma length_mem_write [mem_simps]:
  "off + length ys \<le> length xs \<Longrightarrow> length (mem_write off ys xs) = length xs"
  by (simp add: mem_write_def)

lemma mem_write_nil [simp]: "mem_write off [] xs = xs"
  by (simp add: mem_write_def)

lemma mem_read_zero [simp]: "mem_read off 0 xs = []"
  by (simp add: mem_read_def)

lemma nth_mem_write:
  "off + length ys \<le> length xs \<Longrightarrow> i < length xs \<Longrightarrow>
   mem_write off ys xs ! i = (if off \<le> i \<and> i < off + length ys then ys ! (i - off) else xs ! i)"
  by (auto simp: mem_write_def nth_append)

lemma nth_mem_read:
  "off + n \<le> length xs \<Longrightarrow> i < n \<Longrightarrow> mem_read off n xs ! i = xs ! (off + i)"
  by (simp add: mem_read_def)

lemma mem_read_write_same [mem_simps]:
  "off + length ys \<le> length xs \<Longrightarrow> n = length ys \<Longrightarrow> mem_read off n (mem_write off ys xs) = ys"
  by (simp add: mem_read_def mem_write_def)

lemma mem_read_write_inside:
  assumes "off + length ys \<le> length xs" and "off \<le> p" and "p + n \<le> off + length ys"
  shows "mem_read p n (mem_write off ys xs) = mem_read (p - off) n ys"
proof (rule nth_equalityI)
  show "length (mem_read p n (mem_write off ys xs)) = length (mem_read (p - off) n ys)"
    using assms by (simp add: mem_simps)
next
  fix i assume "i < length (mem_read p n (mem_write off ys xs))"
  then have "i < n" by (simp add: mem_read_def)
  then show "mem_read p n (mem_write off ys xs) ! i = mem_read (p - off) n ys ! i"
    using assms by (simp add: nth_mem_read nth_mem_write mem_simps)
qed

lemma mem_read_write_disjoint [mem_simps]:
  assumes "off + length ys \<le> length xs" and "p + n \<le> off \<or> off + length ys \<le> p"
    and "p + n \<le> length xs"
  shows "mem_read p n (mem_write off ys xs) = mem_read p n xs"
proof (rule nth_equalityI)
  show "length (mem_read p n (mem_write off ys xs)) = length (mem_read p n xs)"
    using assms by (simp add: mem_simps)
next
  fix i assume "i < length (mem_read p n (mem_write off ys xs))"
  then have "i < n" by (simp add: mem_read_def)
  then show "mem_read p n (mem_write off ys xs) ! i = mem_read p n xs ! i"
    using assms by (auto simp: nth_mem_read nth_mem_write mem_simps)
qed

lemma take_mem_write [mem_simps]:
  "n \<le> off \<Longrightarrow> off \<le> length xs \<Longrightarrow> take n (mem_write off ys xs) = take n xs"
  by (simp add: mem_write_def)

lemma mem_write_append:
  "off + length ys + length zs \<le> length xs \<Longrightarrow>
   mem_write (off + length ys) zs (mem_write off ys xs) = mem_write off (ys @ zs) xs"
  by (simp add: mem_write_def ac_simps)

lemma mem_read_append:
  "mem_read off (n + m) xs = mem_read off n xs @ mem_read (off + n) m xs"
  by (simp add: mem_read_def take_add) (simp add: add.commute)

lemma mem_read_split: "n \<le> m \<Longrightarrow> take n (mem_read off m xs) = mem_read off n xs"
  by (simp add: mem_read_def min_def)

lemma drop_mem_read: "drop n (mem_read off m xs) = mem_read (off + n) (m - n) xs"
  by (simp add: mem_read_def drop_take add.commute)

lemma mem_read_mem_read [mem_simps]:
  "p + m \<le> n \<Longrightarrow> mem_read p m (mem_read off n xs) = mem_read (off + p) m xs"
  by (simp add: mem_read_def drop_take min_def add.commute)

lemma mem_read_drop [mem_simps]: "mem_read off n (drop k xs) = mem_read (k + off) n xs"
  by (simp add: mem_read_def add.commute)

lemma mem_read_take: "off + n \<le> m \<Longrightarrow> mem_read off n (take m xs) = mem_read off n xs"
  by (simp add: mem_read_def drop_take min_def)

lemma mem_read_append_left [mem_simps]:
  "off + n \<le> length xs \<Longrightarrow> mem_read off n (xs @ ys) = mem_read off n xs"
  by (simp add: mem_read_def)

lemma mem_read_all [simp]: "mem_read 0 (length xs) xs = xs"
  by (simp add: mem_read_def)

lemma take_eq_imp_mem_read_eq:
  "take m xs = take m ys \<Longrightarrow> off + n \<le> m \<Longrightarrow> mem_read off n xs = mem_read off n ys"
  by (metis mem_read_take)

lemma append_eq_split:
  assumes "a @ b = xs @ ys" "length xs \<le> length a"
  shows "xs = take (length xs) a" "ys = drop (length xs) a @ b"
  using arg_cong [OF assms(1), of "take (length xs)"] arg_cong [OF assms(1), of "drop (length xs)"] assms(2)
  by simp_all

section \<open>Object representation of integers\<close>

text \<open>
  Little-endian byte representation of a word, as the casts \<^verbatim>\<open>*((u64*)p)\<close> of the sources
  read and write it on the supported targets (x86-64, AArch64).
\<close>

definition word_bytes :: "'a::len word \<Rightarrow> bytes" where
  "word_bytes w = map (\<lambda>i. ucast (drop_bit (8 * i) w)) [0..<LENGTH('a) div 8]"

fun bytes_word :: "bytes \<Rightarrow> 'a::len word" where
  "bytes_word [] = 0"
| "bytes_word (b # bs) = ucast b OR push_bit 8 (bytes_word bs)"

lemma length_word_bytes [simp]: "length (word_bytes (w :: 'a::len word)) = LENGTH('a) div 8"
  by (simp add: word_bytes_def)

lemma bit_bytes_word:
  "bit (bytes_word bs :: 'a::len word) n \<longleftrightarrow>
     n < LENGTH('a) \<and> n div 8 < length bs \<and> bit (bs ! (n div 8)) (n mod 8)"
proof (induction bs arbitrary: n)
  case Nil
  then show ?case by simp
next
  case (Cons b bs)
  show ?case
  proof (cases "n < 8")
    case True
    then show ?thesis
      by (auto simp: bit_simps)
  next
    case False
    then have "\<not> bit (ucast b :: 'a word) n"
      by (auto simp: bit_simps dest: bit_imp_le_length)
    moreover have "(n - 8) div 8 = n div 8 - 1" and "(n - 8) mod 8 = n mod 8"
      using False by (simp_all add: le_div_geq le_mod_geq)
    moreover have "0 < n div 8" using False by (simp add: div_greater_zero_iff)
    ultimately show ?thesis
      using False Cons.IH [of "n - 8"] by (cases "n div 8") (auto simp: bit_simps)
  qed
qed

lemma bytes_word_word_bytes [simp]:
  assumes "8 dvd LENGTH('a)"
  shows "bytes_word (word_bytes w) = (w :: 'a::len word)"
proof (rule bit_word_eqI)
  fix n assume n: "n < LENGTH('a)"
  have "n div 8 < LENGTH('a) div 8"
    using n assms by (auto simp: dvd_def)
  moreover have "8 * (n div 8) + n mod 8 = n" by simp
  ultimately show "bit (bytes_word (word_bytes w) :: 'a word) n = bit w n"
    using n by (simp add: bit_bytes_word word_bytes_def bit_simps del: mult_div_mod_eq)
qed

lemma word_bytes_bytes_word:
  assumes "8 * length bs = LENGTH('a)"
  shows "word_bytes (bytes_word bs :: 'a::len word) = bs"
proof (rule nth_equalityI)
  show len: "length (word_bytes (bytes_word bs :: 'a word)) = length bs"
    using assms by simp
  fix i assume "i < length (word_bytes (bytes_word bs :: 'a word))"
  then have i: "i < length bs" using len by simp
  show "word_bytes (bytes_word bs :: 'a word) ! i = bs ! i"
  proof (rule bit_word_eqI)
    fix n assume n: "n < LENGTH(8)"
    then have "(8 * i + n) div 8 = i" and "(8 * i + n) mod 8 = n" and "8 * i + n < LENGTH('a)"
      using i assms by simp_all
    then show "bit (word_bytes (bytes_word bs :: 'a word) ! i) n = bit (bs ! i) n"
      using i n assms len by (simp add: word_bytes_def bit_simps bit_bytes_word)
  qed
qed

section \<open>The C allocator\<close>

text \<open>
  The outcome of an allocator call is decided by the environment: whether the request is
  served, the contents of the fresh bytes and their address. The contract the sources rely on: a request
  above \<^verbatim>\<open>PTRDIFF_MAX\<close> is refused, \<^verbatim>\<open>realloc\<close> keeps the old contents, and
  \<^verbatim>\<open>realloc(p, 0)\<close> returns NULL.
\<close>

record allocator =
  alloc_ok :: bool
  alloc_junk :: "nat \<Rightarrow> u8"
  alloc_addr :: u64

definition PTRDIFF_LIMIT :: nat where
  "PTRDIFF_LIMIT = 9223372036854775808"

definition c_malloc :: "allocator \<Rightarrow> u64 \<Rightarrow> bytes option" where
  "c_malloc M n =
     (if alloc_ok M \<and> unat n < PTRDIFF_LIMIT then Some (map (alloc_junk M) [0..<unat n]) else None)"

definition c_realloc :: "allocator \<Rightarrow> bytes option \<Rightarrow> u64 \<Rightarrow> bytes option" where
  "c_realloc M p n =
     (case p of
        None \<Rightarrow> c_malloc M n
      | Some old \<Rightarrow>
          (if n \<noteq> 0 \<and> alloc_ok M \<and> unat n < PTRDIFF_LIMIT
           then Some (take (unat n) old @ map (alloc_junk M) [length old..<unat n]) else None))"

lemma length_c_malloc: "c_malloc M n = Some d \<Longrightarrow> length d = unat n"
  by (auto simp: c_malloc_def split: if_splits)

lemma c_realloc_Some:
  "c_realloc M (Some old) n = Some d \<Longrightarrow>
     length d = unat n \<and> take (length old) d = take (unat n) old \<and> unat n < PTRDIFF_LIMIT"
  by (cases "unat n \<le> length old") (auto simp: c_realloc_def split: if_splits)

end
