(* ===== verification/Interfaces.thy ===== *)
theory Interfaces
  imports Prelude
begin

text \<open>
  The contracts one component of mustdb offers another, as locales. Each is interpreted on the
  model's own operations in the theory of the component that provides it:
  \<^item> \<open>dyn_array\<close>: the growable array of \<^verbatim>\<open>libv/src/slice.c\<close>, and \<open>bounded_array\<close>, the same
    with a known amount of room (both interpreted in Slice);
  \<^item> \<open>map_store\<close>: the keyed store of \<^verbatim>\<open>libv/src/hash.c\<close> (interpreted in Hmap).

  Two more contracts stand beside the types they are about: \<open>extent_store\<close> in MetaBlock (interpreted in
  SingleFile) and \<open>net_handlers\<close> in NetRound (interpreted there on the callbacks of the server).
\<close>

section \<open>Growable arrays\<close>

text \<open>
  \<open>push\<close> returns \<^term>\<open>None\<close> when memory is exhausted, \<open>pop\<close> when the array is empty.
  \<open>fits\<close> says that an element has the width of the array's elements.
\<close>

fun push_all :: "('s \<Rightarrow> 'e \<Rightarrow> 's option) \<Rightarrow> 's \<Rightarrow> 'e list \<Rightarrow> 's option" where
  "push_all push s [] = Some s"
| "push_all push s (e # es) = (case push s e of None \<Rightarrow> None | Some s' \<Rightarrow> push_all push s' es)"

fun pop_n :: "('s \<Rightarrow> ('e \<times> 's) option) \<Rightarrow> nat \<Rightarrow> 's \<Rightarrow> ('e list \<times> 's) option" where
  "pop_n pop 0 s = Some ([], s)"
| "pop_n pop (Suc n) s =
     (case pop s of None \<Rightarrow> None
      | Some (e, s') \<Rightarrow>
          (case pop_n pop n s' of None \<Rightarrow> None | Some (es, s'') \<Rightarrow> Some (e # es, s'')))"

locale dyn_array =
  fixes inv :: "'s \<Rightarrow> bool"
    and elems :: "'s \<Rightarrow> 'e list"
    and fits :: "'s \<Rightarrow> 'e \<Rightarrow> bool"
    and push :: "'s \<Rightarrow> 'e \<Rightarrow> 's option"
    and pop :: "'s \<Rightarrow> ('e \<times> 's) option"
  assumes push_inv: "inv s \<Longrightarrow> fits s e \<Longrightarrow> push s e = Some s' \<Longrightarrow> inv s'"
    and push_elems: "inv s \<Longrightarrow> fits s e \<Longrightarrow> push s e = Some s' \<Longrightarrow> elems s' = elems s @ [e]"
    and push_fits: "inv s \<Longrightarrow> fits s e \<Longrightarrow> push s e = Some s' \<Longrightarrow> fits s' x = fits s x"
    and pop_empty: "inv s \<Longrightarrow> elems s = [] \<Longrightarrow> pop s = None"
    and pop_ok: "inv s \<Longrightarrow> elems s \<noteq> [] \<Longrightarrow>
      \<exists>s'. pop s = Some (last (elems s), s') \<and> inv s' \<and> elems s' = butlast (elems s) \<and> fits s' = fits s"
begin

lemma push_all_ok:
  "inv s \<Longrightarrow> \<forall>e \<in> set es. fits s e \<Longrightarrow> push_all push s es = Some s' \<Longrightarrow> inv s' \<and> elems s' = elems s @ es"
proof (induction es arbitrary: s)
  case Nil
  then show ?case by simp
next
  case (Cons e es)
  then obtain t where t: "push s e = Some t" "push_all push t es = Some s'"
    by (auto split: option.splits)
  have e: "fits s e" using Cons.prems by simp
  have "inv t" by (rule push_inv [OF Cons.prems(1) e t(1)])
  moreover have "elems t = elems s @ [e]" by (rule push_elems [OF Cons.prems(1) e t(1)])
  moreover have "\<forall>x \<in> set es. fits t x"
    using push_fits [OF Cons.prems(1) e t(1)] Cons.prems(2) by simp
  ultimately show ?case using Cons.IH [of t] t(2) by simp
qed

lemma pop_n_ok:
  "inv s \<Longrightarrow> n \<le> length (elems s) \<Longrightarrow>
   \<exists>s'. pop_n pop n s = Some (take n (rev (elems s)), s') \<and> inv s' \<and>
        elems s' = take (length (elems s) - n) (elems s)"
proof (induction n arbitrary: s)
  case 0
  then show ?case by simp
next
  case (Suc n)
  then have ne: "elems s \<noteq> []" by auto
  then obtain xs x where xs: "elems s = xs @ [x]" by (cases "elems s" rule: rev_cases) auto
  obtain s1 where s1: "pop s = Some (x, s1)" "inv s1" "elems s1 = xs"
    using pop_ok [OF Suc.prems(1) ne] xs by auto
  have "n \<le> length (elems s1)" using Suc.prems s1(3) xs by simp
  then obtain s2 where "pop_n pop n s1 = Some (take n (rev xs), s2)" "inv s2"
      "elems s2 = take (length xs - n) xs"
    using Suc.IH [OF s1(2)] s1(3) by blast
  then show ?case using s1 xs by simp
qed

text \<open>Used as a stack, a growable array returns what was pushed, last element first.\<close>

lemma push_all_pop_n:
  assumes "inv s" "\<forall>e \<in> set es. fits s e" "push_all push s es = Some s'"
  shows "\<exists>s''. pop_n pop (length es) s' = Some (rev es, s'') \<and> inv s'' \<and> elems s'' = elems s"
  using push_all_ok [OF assms] pop_n_ok [of s' "length es"] by auto

end

text \<open>
  An array with a known amount of room: \<open>room n s\<close> says that \<open>n\<close> more elements
  can be pushed without exhausting memory.
\<close>

locale bounded_array = dyn_array +
  fixes room :: "nat \<Rightarrow> 's \<Rightarrow> bool"
  assumes room_push: "inv s \<Longrightarrow> fits s e \<Longrightarrow> room (Suc n) s \<Longrightarrow> \<exists>s'. push s e = Some s' \<and> room n s'"
begin

lemma push_all_total:
  assumes "inv s" "\<forall>e \<in> set es. fits s e" "room (length es) s"
  shows "\<exists>s'. push_all push s es = Some s'"
  using assms
proof (induction es arbitrary: s)
  case Nil
  then show ?case by simp
next
  case (Cons e es)
  then obtain s1 where s1: "push s e = Some s1" "room (length es) s1"
    using room_push [of s e "length es"] by auto
  then have "inv s1" "\<forall>x \<in> set es. fits s1 x"
    using push_inv [of s e s1] push_fits [of s e s1] Cons.prems by auto
  with Cons.IH s1 show ?case by simp
qed

lemma stack_total:
  assumes "inv s" "\<forall>e \<in> set es. fits s e" "room (length es) s"
  shows "\<exists>s' s''. push_all push s es = Some s' \<and> elems s' = elems s @ es \<and>
           pop_n pop (length es) s' = Some (rev es, s'') \<and> inv s'' \<and> elems s'' = elems s"
proof -
  from push_all_total [OF assms] obtain s' where s': "push_all push s es = Some s'" ..
  show ?thesis using push_all_ok [OF assms(1,2) s'] push_all_pop_n [OF assms(1,2) s'] s' by blast
qed

end

section \<open>Keyed stores\<close>

text \<open>
  A store with a bounded number of entries. \<open>put\<close> takes the outcome of an optional
  reorganisation of the store, which must not be visible.
\<close>

datatype ('k, 'v) map_op = Put bool 'k 'v | Del 'k

fun map_op_apply :: "('k \<rightharpoonup> 'v) \<Rightarrow> ('k, 'v) map_op \<Rightarrow> 'k \<rightharpoonup> 'v" where
  "map_op_apply m (Put g k v) = m(k \<mapsto> v)"
| "map_op_apply m (Del k) = m(k := None)"

fun store_op :: "(bool \<Rightarrow> 's \<Rightarrow> 'k \<Rightarrow> 'v \<Rightarrow> 's) \<Rightarrow> ('s \<Rightarrow> 'k \<Rightarrow> 's) \<Rightarrow> 's \<Rightarrow> ('k, 'v) map_op \<Rightarrow> 's" where
  "store_op put del s (Put g k v) = put g s k v"
| "store_op put del s (Del k) = del s k"

locale map_store =
  fixes inv :: "'s \<Rightarrow> bool"
    and abs :: "'s \<Rightarrow> 'k \<rightharpoonup> 'v"
    and len :: "'s \<Rightarrow> nat"
    and limit :: nat
    and put :: "bool \<Rightarrow> 's \<Rightarrow> 'k \<Rightarrow> 'v \<Rightarrow> 's"
    and del :: "'s \<Rightarrow> 'k \<Rightarrow> 's"
    and get :: "'s \<Rightarrow> 'k \<Rightarrow> 'v option"
  assumes put_inv: "inv s \<Longrightarrow> len s < limit \<Longrightarrow> inv (put g s k v)"
    and put_abs: "inv s \<Longrightarrow> len s < limit \<Longrightarrow> abs (put g s k v) = (abs s)(k \<mapsto> v)"
    and del_inv: "inv s \<Longrightarrow> inv (del s k)"
    and del_abs: "inv s \<Longrightarrow> abs (del s k) = (abs s)(k := None)"
    and get_abs: "inv s \<Longrightarrow> get s k = abs s k"
    and len_card: "inv s \<Longrightarrow> finite (dom (abs s)) \<and> card (dom (abs s)) = len s"
begin

lemma len_put:
  assumes "inv s" "len s < limit"
  shows "len (put g s k v) \<le> Suc (len s)"
  using len_card [OF put_inv [OF assms, of g k v]] len_card [OF assms(1)]
  by (simp add: put_abs [OF assms] card_insert_if split: if_splits)

lemma len_del: "inv s \<Longrightarrow> len (del s k) \<le> len s"
  using len_card [OF del_inv, of s k] len_card [of s] card_Diff1_le [of "dom (abs s)" k]
  by (simp add: del_abs)

lemma store_op_ok:
  assumes "inv s" "len s < limit"
  shows "inv (store_op put del s c) \<and> abs (store_op put del s c) = map_op_apply (abs s) c \<and>
         len (store_op put del s c) \<le> Suc (len s)"
proof (cases c)
  case (Put g k v)
  then show ?thesis using put_inv [OF assms] put_abs [OF assms] len_put [OF assms] by simp
next
  case (Del k)
  then show ?thesis using del_inv del_abs len_del [of s k] assms(1) by (simp add: le_SucI)
qed

lemma run_ok:
  assumes "inv s" "len s + length ops \<le> limit"
  shows "inv (foldl (store_op put del) s ops) \<and>
         abs (foldl (store_op put del) s ops) = foldl map_op_apply (abs s) ops"
  using assms
proof (induction ops arbitrary: s)
  case Nil
  then show ?case by simp
next
  case (Cons c ops)
  then have "len s < limit" by simp
  note st = store_op_ok [OF Cons.prems(1) this, of c]
  then have "len (store_op put del s c) + length ops \<le> limit" using Cons.prems(2) by simp
  from Cons.IH [OF _ this] st show ?case by simp
qed

text \<open>Whatever puts and deletions are made, lookups answer as the finite map they describe.\<close>

lemma run_get:
  assumes "inv s" "len s + length ops \<le> limit"
  shows "get (foldl (store_op put del) s ops) k = foldl map_op_apply (abs s) ops k"
  using run_ok [OF assms] get_abs by simp

lemma run_len:
  assumes "inv s" "len s + length ops \<le> limit"
  shows "len (foldl (store_op put del) s ops) = card (dom (foldl map_op_apply (abs s) ops))"
  using run_ok [OF assms] len_card by metis

end

end
