(* ===== verification/Slice.thy ===== *)
theory Slice
  imports Interfaces
begin

text \<open>
  The growable array of \<^verbatim>\<open>libv/src/slice.c\<close>, at the level of its byte buffer: elements of
  \<open>sl_element_size\<close> bytes live at offset \<open>index * element_size\<close> of one heap block. A NULL
  \<^verbatim>\<open>Slice*\<close> or element pointer is \<^term>\<open>None\<close>; an \<^verbatim>\<open>int\<close> status is an \<^typ>\<open>int\<close>; an
  element pointer returned to the caller is the byte offset of the element in the buffer.
  \<open>slice_inv\<close> is the representation invariant and \<open>slice_elems\<close> the abstraction to the
  list of elements; every operation is proved to act on that list.
\<close>

section \<open>Data and operations\<close>

record Slice =
  sl_data :: "bytes option"
  sl_size :: usize
  sl_capacity :: usize
  sl_element_size :: usize

definition SLICE_DEFAULT_CAPACITY :: usize where
  "SLICE_DEFAULT_CAPACITY = 16"

definition SLICE_GROWTH_FACTOR :: usize where
  "SLICE_GROWTH_FACTOR = 2"

definition slice_zero :: Slice where
  "slice_zero = \<lparr>sl_data = None, sl_size = 0, sl_capacity = 0, sl_element_size = 0\<rparr>"

definition slice_get_ptr :: "Slice \<Rightarrow> usize \<Rightarrow> nat" where
  "slice_get_ptr s index = unat (index * sl_element_size s)"

text \<open>The stores and loads through an element pointer (\<^verbatim>\<open>memcpy\<close>, \<^verbatim>\<open>memmove\<close>, \<^verbatim>\<open>memset\<close>).\<close>

definition slice_store :: "nat \<Rightarrow> bytes \<Rightarrow> Slice \<Rightarrow> Slice" where
  "slice_store dest bs s = s\<lparr>sl_data := map_option (mem_write dest bs) (sl_data s)\<rparr>"

definition slice_load :: "nat \<Rightarrow> nat \<Rightarrow> Slice \<Rightarrow> bytes" where
  "slice_load src n s = (case sl_data s of None \<Rightarrow> [] | Some d \<Rightarrow> mem_read src n d)"

definition slice_copy_in :: "nat \<Rightarrow> bytes \<Rightarrow> Slice \<Rightarrow> Slice" where
  "slice_copy_in dest element s = slice_store dest (take (unat (sl_element_size s)) element) s"

definition slice_copy_out :: "nat \<Rightarrow> Slice \<Rightarrow> bytes" where
  "slice_copy_out src s = slice_load src (unat (sl_element_size s)) s"

definition slice_init :: "allocator \<Rightarrow> Slice \<Rightarrow> usize \<Rightarrow> usize \<Rightarrow> int \<times> Slice" where
  "slice_init M s element_size initial_capacity =
     (let cap = (if initial_capacity = 0 then SLICE_DEFAULT_CAPACITY else initial_capacity)
      in case c_malloc M (element_size * cap) of
           None \<Rightarrow> (-1, s\<lparr>sl_data := None\<rparr>)
         | Some d \<Rightarrow>
             (0, s\<lparr>sl_data := Some d, sl_size := 0, sl_capacity := cap, sl_element_size := element_size\<rparr>))"

definition SLICE :: "allocator \<Rightarrow> usize \<Rightarrow> usize \<Rightarrow> Slice" where
  "SLICE M element_size cap = snd (slice_init M slice_zero element_size cap)"

definition slice_create :: "allocator \<Rightarrow> allocator \<Rightarrow> usize \<Rightarrow> usize \<Rightarrow> Slice option" where
  "slice_create Ms M element_size initial_capacity =
     (if element_size = 0 then None
      else if \<not> alloc_ok Ms then None
      else (case slice_init M slice_zero element_size initial_capacity of
              (rc, s) \<Rightarrow> if rc \<noteq> 0 then None else Some s))"

definition slice_deinit :: "Slice option \<Rightarrow> Slice option" where
  "slice_deinit so = map_option (\<lambda>s. slice_zero) so"

definition slice_destroy :: "Slice option \<Rightarrow> Slice option" where
  "slice_destroy so = None"

definition slice_grow :: "allocator \<Rightarrow> Slice \<Rightarrow> int \<times> Slice" where
  "slice_grow M s =
     (let new_capacity = (if 0 < sl_capacity s then sl_capacity s * SLICE_GROWTH_FACTOR
                          else SLICE_DEFAULT_CAPACITY)
      in case c_realloc M (sl_data s) (sl_element_size s * new_capacity) of
           None \<Rightarrow> (-1, s)
         | Some d \<Rightarrow> (0, s\<lparr>sl_data := Some d, sl_capacity := new_capacity\<rparr>))"

definition slice_ensure :: "allocator \<Rightarrow> Slice \<Rightarrow> int \<times> Slice" where
  "slice_ensure M s = (if sl_capacity s \<le> sl_size s then slice_grow M s else (0, s))"

definition slice_push_back :: "allocator \<Rightarrow> Slice option \<Rightarrow> bytes option \<Rightarrow> int \<times> Slice option" where
  "slice_push_back M so element =
     (case (so, element) of
        (Some s, Some e) \<Rightarrow>
          (case slice_ensure M s of
             (rc, s') \<Rightarrow>
               if rc \<noteq> 0 then (-1, Some s')
               else (0, Some ((slice_copy_in (slice_get_ptr s' (sl_size s')) e s')
                                \<lparr>sl_size := sl_size s' + 1\<rparr>)))
      | _ \<Rightarrow> (-1, so))"

definition slice_pop_back :: "Slice option \<Rightarrow> int \<times> bytes \<times> Slice option" where
  "slice_pop_back so =
     (case so of
        None \<Rightarrow> (-1, [], None)
      | Some s \<Rightarrow>
          if sl_size s = 0 then (-1, [], Some s)
          else let s' = s\<lparr>sl_size := sl_size s - 1\<rparr>
               in (0, slice_copy_out (slice_get_ptr s' (sl_size s')) s', Some s'))"

definition slice_get :: "Slice option \<Rightarrow> usize \<Rightarrow> nat option" where
  "slice_get so index =
     (case so of
        None \<Rightarrow> None
      | Some s \<Rightarrow> if sl_size s \<le> index then None else Some (slice_get_ptr s index))"

text \<open>\<open>out\<close> is the caller's buffer of one element, None the null pointer.\<close>

definition slice_get_copy :: "Slice option \<Rightarrow> usize \<Rightarrow> bytes option \<Rightarrow> int \<times> bytes option" where
  "slice_get_copy so index out =
     (case (so, out) of
        (Some s, Some buf) \<Rightarrow>
          if sl_size s \<le> index then (-1, Some buf)
          else (0, Some (slice_copy_out (slice_get_ptr s index) s))
      | _ \<Rightarrow> (-1, out))"

definition slice_set :: "Slice option \<Rightarrow> usize \<Rightarrow> bytes option \<Rightarrow> int \<times> Slice option" where
  "slice_set so index element =
     (case (so, element) of
        (Some s, Some e) \<Rightarrow>
          if sl_size s \<le> index then (-1, Some s)
          else (0, Some (slice_copy_in (slice_get_ptr s index) e s))
      | _ \<Rightarrow> (-1, so))"

definition slice_size :: "Slice option \<Rightarrow> usize" where
  "slice_size so = (case so of None \<Rightarrow> 0 | Some s \<Rightarrow> sl_size s)"

definition slice_capacity :: "Slice option \<Rightarrow> usize" where
  "slice_capacity so = (case so of None \<Rightarrow> 0 | Some s \<Rightarrow> sl_capacity s)"

definition slice_element_size :: "Slice option \<Rightarrow> usize" where
  "slice_element_size so = (case so of None \<Rightarrow> 0 | Some s \<Rightarrow> sl_element_size s)"

definition slice_empty :: "Slice option \<Rightarrow> bool" where
  "slice_empty so = (case so of None \<Rightarrow> True | Some s \<Rightarrow> sl_size s = 0)"

definition slice_clear :: "Slice option \<Rightarrow> Slice option" where
  "slice_clear so = map_option (\<lambda>s. s\<lparr>sl_size := 0\<rparr>) so"

definition slice_reserve :: "allocator \<Rightarrow> Slice option \<Rightarrow> usize \<Rightarrow> int \<times> Slice option" where
  "slice_reserve M so new_capacity =
     (case so of
        None \<Rightarrow> (-1, None)
      | Some s \<Rightarrow>
          if new_capacity \<le> sl_capacity s then (0, Some s)
          else (case c_realloc M (sl_data s) (sl_element_size s * new_capacity) of
                  None \<Rightarrow> (-1, Some s)
                | Some d \<Rightarrow> (0, Some (s\<lparr>sl_data := Some d, sl_capacity := new_capacity\<rparr>))))"

definition slice_fill :: "bytes option \<Rightarrow> nat list \<Rightarrow> Slice \<Rightarrow> Slice" where
  "slice_fill default_value idx s =
     fold (\<lambda>i s'. slice_store (slice_get_ptr s' (of_nat i))
             (case default_value of
                Some v \<Rightarrow> take (unat (sl_element_size s')) v
              | None \<Rightarrow> replicate (unat (sl_element_size s')) 0) s') idx s"

definition slice_resize :: "allocator \<Rightarrow> Slice option \<Rightarrow> usize \<Rightarrow> bytes option \<Rightarrow> int \<times> Slice option" where
  "slice_resize M so new_size default_value =
     (case so of
        None \<Rightarrow> (-1, None)
      | Some s \<Rightarrow>
          (case (if sl_capacity s < new_size then slice_reserve M (Some s) new_size else (0, Some s)) of
             (rc, Some s') \<Rightarrow>
               if rc \<noteq> 0 then (-1, Some s')
               else (0, Some ((if sl_size s' < new_size
                               then slice_fill default_value [unat (sl_size s')..<unat new_size] s'
                               else s')\<lparr>sl_size := new_size\<rparr>))
           | (rc, None) \<Rightarrow> (-1, None)))"

definition slice_insert :: "allocator \<Rightarrow> Slice option \<Rightarrow> usize \<Rightarrow> bytes option \<Rightarrow> int \<times> Slice option" where
  "slice_insert M so index element =
     (case (so, element) of
        (Some s, Some e) \<Rightarrow>
          if sl_size s < index then (-1, Some s)
          else (case slice_ensure M s of
                  (rc, s') \<Rightarrow>
                    if rc \<noteq> 0 then (-1, Some s')
                    else let moved =
                               (if index < sl_size s'
                                then slice_store (slice_get_ptr s' (index + 1))
                                       (slice_load (slice_get_ptr s' index)
                                          (unat ((sl_size s' - index) * sl_element_size s')) s') s'
                                else s')
                         in (0, Some ((slice_copy_in (slice_get_ptr moved index) e moved)
                                        \<lparr>sl_size := sl_size moved + 1\<rparr>)))
      | _ \<Rightarrow> (-1, so))"

definition slice_erase :: "Slice option \<Rightarrow> usize \<Rightarrow> int \<times> bytes \<times> Slice option" where
  "slice_erase so index =
     (case so of
        None \<Rightarrow> (-1, [], None)
      | Some s \<Rightarrow>
          if sl_size s \<le> index then (-1, [], Some s)
          else let moved =
                     (if index < sl_size s - 1
                      then slice_store (slice_get_ptr s index)
                             (slice_load (slice_get_ptr s (index + 1))
                                (unat ((sl_size s - index - 1) * sl_element_size s)) s) s
                      else s)
               in (0, slice_copy_out (slice_get_ptr s index) s,
                   Some (moved\<lparr>sl_size := sl_size moved - 1\<rparr>)))"

fun slice_find_from :: "(bytes \<Rightarrow> bytes \<Rightarrow> int) \<Rightarrow> Slice \<Rightarrow> bytes \<Rightarrow> nat list \<Rightarrow> int" where
  "slice_find_from compare s e [] = -1"
| "slice_find_from compare s e (i # is) =
     (if compare (slice_copy_out (slice_get_ptr s (of_nat i)) s) e = 0 then int i
      else slice_find_from compare s e is)"

definition slice_find ::
  "Slice option \<Rightarrow> bytes option \<Rightarrow> (bytes \<Rightarrow> bytes \<Rightarrow> int) option \<Rightarrow> int" where
  "slice_find so element compare =
     (case (so, element, compare) of
        (Some s, Some e, Some cmp) \<Rightarrow> slice_find_from cmp s e [0..<unat (sl_size s)]
      | _ \<Rightarrow> -1)"

definition slice_front :: "Slice option \<Rightarrow> nat option" where
  "slice_front so =
     (case so of None \<Rightarrow> None | Some s \<Rightarrow> if sl_size s = 0 then None else Some 0)"

definition slice_back :: "Slice option \<Rightarrow> nat option" where
  "slice_back so =
     (case so of None \<Rightarrow> None
      | Some s \<Rightarrow> if sl_size s = 0 then None else Some (slice_get_ptr s (sl_size s - 1)))"

definition slice_data :: "Slice option \<Rightarrow> bytes option" where
  "slice_data so = (case so of None \<Rightarrow> None | Some s \<Rightarrow> sl_data s)"

record SliceIterator =
  iter_slice :: "Slice option"
  iter_index :: usize

definition slice_iter_init :: "Slice \<Rightarrow> SliceIterator" where
  "slice_iter_init s = \<lparr>iter_slice = Some s, iter_index = -1\<rparr>"

definition slice_iter_next :: "SliceIterator \<Rightarrow> bool \<times> SliceIterator" where
  "slice_iter_next it =
     (case iter_slice it of
        None \<Rightarrow> (False, it)
      | Some s \<Rightarrow> let it' = it\<lparr>iter_index := iter_index it + 1\<rparr>
                   in (iter_index it' < sl_size s, it'))"

definition slice_iter_get :: "SliceIterator \<Rightarrow> nat option" where
  "slice_iter_get it =
     (case iter_slice it of
        None \<Rightarrow> None
      | Some s \<Rightarrow> if sl_size s \<le> iter_index it then None
                   else Some (slice_get_ptr s (iter_index it)))"

definition slice_iter_left :: "SliceIterator \<Rightarrow> nat" where
  "slice_iter_left it =
     (case iter_slice it of None \<Rightarrow> 0 | Some s \<Rightarrow> unat (sl_size s) - unat (iter_index it + 1))"

lemma slice_iter_next_left:
  assumes "slice_iter_next it = (True, it')"
  shows "slice_iter_left it' < slice_iter_left it"
proof -
  from assms obtain s where s: "iter_slice it = Some s" "iter_slice it' = Some s"
      "iter_index it' = iter_index it + 1" "iter_index it + 1 < sl_size s"
    by (auto simp: slice_iter_next_def Let_def split: option.splits)
  have "unat (iter_index it + 1) < unat (sl_size s)" using s by (simp add: u64_ord)
  moreover from this have "unat (iter_index it + 1 + 1) = Suc (unat (iter_index it + 1))"
    using unat_lt_2p64 [of "sl_size s"] by (intro unat_inc_u64) linarith
  ultimately show ?thesis
    using s by (simp add: slice_iter_left_def)
qed

text \<open>The loop of the macro \<^verbatim>\<open>SLICE_FOREACH\<close>: the element pointers its body sees, in order.\<close>

function slice_foreach :: "SliceIterator \<Rightarrow> nat option list" where
  "slice_foreach it =
     (case slice_iter_next it of
        (go, it') \<Rightarrow> if go then slice_iter_get it' # slice_foreach it' else [])"
  by pat_completeness auto
termination
  by (relation "measure slice_iter_left") (auto dest!: sym [of "(_, _)"] slice_iter_next_left)

declare slice_foreach.simps [simp del]

section \<open>Representation invariant and abstraction\<close>

definition slice_inv :: "Slice \<Rightarrow> bool" where
  "slice_inv s \<longleftrightarrow>
     (case sl_data s of None \<Rightarrow> False
      | Some d \<Rightarrow> length d = unat (sl_capacity s) * unat (sl_element_size s) \<and> length d < PTRDIFF_LIMIT)
     \<and> sl_size s \<le> sl_capacity s \<and> 0 < sl_capacity s \<and> 0 < sl_element_size s"

definition slice_elem :: "Slice \<Rightarrow> nat \<Rightarrow> bytes" where
  "slice_elem s i = slice_load (i * unat (sl_element_size s)) (unat (sl_element_size s)) s"

definition slice_elems :: "Slice \<Rightarrow> bytes list" where
  "slice_elems s = map (slice_elem s) [0..<unat (sl_size s)]"

lemma length_slice_elems [simp]: "length (slice_elems s) = unat (sl_size s)"
  by (simp add: slice_elems_def)

lemma nth_slice_elems [simp]: "i < unat (sl_size s) \<Longrightarrow> slice_elems s ! i = slice_elem s i"
  by (simp add: slice_elems_def)

lemma slice_invE:
  assumes "slice_inv s"
  obtains d where "sl_data s = Some d" "length d = unat (sl_capacity s) * unat (sl_element_size s)"
    "length d < PTRDIFF_LIMIT" "unat (sl_size s) \<le> unat (sl_capacity s)"
    "0 < unat (sl_capacity s)" "0 < unat (sl_element_size s)"
  using assms by (cases "sl_data s") (auto simp: slice_inv_def u64_ord)

lemma slice_inv_cong:
  assumes "slice_inv s" "sl_data s' = Some d'" "length d' = unat (sl_capacity s) * unat (sl_element_size s)"
    "sl_capacity s' = sl_capacity s" "sl_element_size s' = sl_element_size s" "sl_size s' \<le> sl_capacity s"
  shows "slice_inv s'"
  using assms by (auto simp: slice_inv_def split: option.splits)

lemma slice_inv_size: "slice_inv s \<Longrightarrow> n \<le> sl_capacity s \<Longrightarrow> slice_inv (s\<lparr>sl_size := n\<rparr>)"
  by (auto simp: slice_inv_def split: option.splits)

text \<open>An element pointer is exact: no wrap-around, and the element lies inside the buffer.\<close>

lemma elem_in_block: "i < c \<Longrightarrow> i * e + e \<le> c * (e :: nat)"
  using mult_le_mono1 [of "Suc i" c e] by simp

lemma slice_get_ptr_nat:
  assumes "slice_inv s" "unat index \<le> unat (sl_capacity s)"
  shows "slice_get_ptr s index = unat index * unat (sl_element_size s)"
proof -
  from assms(1) obtain d where "sl_data s = Some d"
    and d: "length d = unat (sl_capacity s) * unat (sl_element_size s)" "length d < PTRDIFF_LIMIT"
    by (rule slice_invE)
  have "unat index * unat (sl_element_size s) \<le> length d"
    unfolding d(1) using assms(2) by (rule mult_le_mono1)
  then have "unat index * unat (sl_element_size s) < 18446744073709551616"
    using d(2) unfolding PTRDIFF_LIMIT_def by linarith
  then show ?thesis
    unfolding slice_get_ptr_def by (rule unat_mult_u64)
qed

lemma slice_get_ptr_of_nat:
  assumes "slice_inv s" "i \<le> unat (sl_capacity s)"
  shows "slice_get_ptr s (of_nat i) = i * unat (sl_element_size s)"
proof -
  have "unat (of_nat i :: u64) = i"
    using assms(2) unat_lt_2p64 [of "sl_capacity s"] by (intro unat_of_nat_u64) linarith
  then show ?thesis using slice_get_ptr_nat [OF assms(1), of "of_nat i"] assms(2) by simp
qed

lemma length_slice_elem:
  assumes "slice_inv s" "i < unat (sl_capacity s)"
  shows "length (slice_elem s i) = unat (sl_element_size s)"
proof -
  from assms(1) obtain d where d: "sl_data s = Some d" "length d = unat (sl_capacity s) * unat (sl_element_size s)"
    by (rule slice_invE)
  have "Suc i * unat (sl_element_size s) \<le> length d" unfolding d(2) using assms(2) by (intro mult_le_mono1) simp
  then show ?thesis using d(1) by (simp add: slice_elem_def slice_load_def length_mem_read add.commute)
qed

lemma slice_copy_out_elem:
  "slice_inv s \<Longrightarrow> unat index \<le> unat (sl_capacity s) \<Longrightarrow>
   slice_copy_out (slice_get_ptr s index) s = slice_elem s (unat index)"
  by (simp add: slice_copy_out_def slice_elem_def slice_get_ptr_nat)

text \<open>
  The one frame lemma: storing \<open>n\<close> element widths at element \<open>a\<close> replaces the elements
  \<open>a..<a + n\<close> and no other.
\<close>

lemma slice_elem_store:
  assumes "slice_inv s" and len: "length ys = n * unat (sl_element_size s)"
    and a: "a + n \<le> unat (sl_capacity s)" and k: "k < unat (sl_capacity s)"
  shows "slice_elem (slice_store (a * unat (sl_element_size s)) ys s) k =
           (if a \<le> k \<and> k < a + n
            then mem_read ((k - a) * unat (sl_element_size s)) (unat (sl_element_size s)) ys
            else slice_elem s k)"
proof -
  let ?e = "unat (sl_element_size s)"
  from assms(1) obtain d where d: "sl_data s = Some d" "length d = unat (sl_capacity s) * ?e"
    by (rule slice_invE)
  have fit: "a * ?e + length ys \<le> length d"
    using mult_le_mono1 [OF a, of ?e] by (simp add: len d add_mult_distrib)
  have kfit: "k * ?e + ?e \<le> length d"
    using elem_in_block [OF k, of ?e] d by simp
  show ?thesis
  proof (cases "a \<le> k \<and> k < a + n")
    case True
    have "k * ?e + ?e \<le> a * ?e + length ys"
      using True elem_in_block [of k "a + n" ?e] by (simp add: len add_mult_distrib)
    then show ?thesis
      using True d fit
      by (simp add: slice_elem_def slice_store_def slice_load_def mem_read_write_inside diff_mult_distrib)
  next
    case False
    have "k * ?e + ?e \<le> a * ?e \<or> a * ?e + length ys \<le> k * ?e"
      using False elem_in_block [of k a ?e] mult_le_mono1 [of "a + n" k ?e]
      by (auto simp: len add_mult_distrib not_le not_less)
    then show ?thesis
      unfolding if_not_P [OF False] using d(1) fit kfit
      by (simp add: slice_elem_def slice_store_def slice_load_def mem_read_write_disjoint)
  qed
qed

lemma slice_store_frame [simp]:
  "sl_size (slice_store p ys s) = sl_size s"
  "sl_capacity (slice_store p ys s) = sl_capacity s"
  "sl_element_size (slice_store p ys s) = sl_element_size s"
  by (simp_all add: slice_store_def)

lemma slice_copy_in_frame [simp]:
  "sl_size (slice_copy_in p ys s) = sl_size s"
  "sl_capacity (slice_copy_in p ys s) = sl_capacity s"
  "sl_element_size (slice_copy_in p ys s) = sl_element_size s"
  by (simp_all add: slice_copy_in_def)

lemma slice_inv_store:
  assumes "slice_inv s" "length ys = n * unat (sl_element_size s)" "a + n \<le> unat (sl_capacity s)"
  shows "slice_inv (slice_store (a * unat (sl_element_size s)) ys s)"
proof -
  from assms(1) obtain d where d: "sl_data s = Some d"
    "length d = unat (sl_capacity s) * unat (sl_element_size s)" by (rule slice_invE)
  have "a * unat (sl_element_size s) + length ys \<le> length d"
    using mult_le_mono1 [OF assms(3), of "unat (sl_element_size s)"]
    by (simp add: assms(2) d add_mult_distrib)
  moreover have "sl_size s \<le> sl_capacity s" using assms(1) by (simp add: slice_inv_def)
  ultimately show ?thesis
    using d
    by (intro slice_inv_cong [OF assms(1), where d' = "mem_write (a * unat (sl_element_size s)) ys d"])
      (simp_all add: slice_store_def mem_simps)
qed

lemma slice_elem_load:
  assumes "slice_inv s" "b + n \<le> unat (sl_capacity s)" "j < n"
  shows "mem_read (j * unat (sl_element_size s)) (unat (sl_element_size s))
           (slice_load (b * unat (sl_element_size s)) (n * unat (sl_element_size s)) s)
         = slice_elem s (b + j)"
proof -
  from assms(1) obtain d where d: "sl_data s = Some d" by (rule slice_invE)
  have "j * unat (sl_element_size s) + unat (sl_element_size s) \<le> n * unat (sl_element_size s)"
    using assms(3) by (rule elem_in_block)
  then show ?thesis
    using d by (simp add: slice_load_def slice_elem_def mem_simps add_mult_distrib)
qed

lemma length_slice_load:
  assumes "slice_inv s" "b + n \<le> unat (sl_capacity s)"
  shows "length (slice_load (b * unat (sl_element_size s)) (n * unat (sl_element_size s)) s)
           = n * unat (sl_element_size s)"
proof -
  from assms(1) obtain d where d: "sl_data s = Some d"
    "length d = unat (sl_capacity s) * unat (sl_element_size s)" by (rule slice_invE)
  show ?thesis
    using mult_le_mono1 [OF assms(2), of "unat (sl_element_size s)"] d
    by (simp add: slice_load_def mem_simps add_mult_distrib)
qed

lemma slice_elem_size [simp]: "slice_elem (s\<lparr>sl_size := n\<rparr>) = slice_elem s"
  by (simp add: slice_elem_def slice_load_def fun_eq_iff)

section \<open>Operations act on the element list\<close>

lemma slice_grow_ok:
  assumes inv: "slice_inv s" and ok: "slice_grow M s = (0, s')"
  shows "slice_inv s' \<and> sl_size s' = sl_size s \<and> sl_element_size s' = sl_element_size s \<and>
         unat (sl_capacity s') = 2 * unat (sl_capacity s) \<and> slice_elems s' = slice_elems s"
proof -
  let ?e = "unat (sl_element_size s)" and ?c = "unat (sl_capacity s)"
  from inv obtain d where d: "sl_data s = Some d" "length d = ?c * ?e" "length d < PTRDIFF_LIMIT"
      "unat (sl_size s) \<le> ?c" "0 < ?c" "0 < ?e" by (rule slice_invE)
  have "?c \<le> length d" using d(2,6) by simp
  then have c2: "unat (sl_capacity s * 2) = 2 * ?c"
    using d(3) by (subst unat_mult_u64) (simp_all add: PTRDIFF_LIMIT_def)
  have ec: "unat (sl_element_size s * (sl_capacity s * 2)) = 2 * length d"
    using d(2,3) by (subst unat_mult_u64) (simp_all add: PTRDIFF_LIMIT_def c2)
  have pos: "0 < sl_capacity s" using d(5) by (simp add: u64_ord)
  from ok obtain d' where r: "c_realloc M (Some d) (sl_element_size s * (sl_capacity s * 2)) = Some d'"
      and s': "s' = s\<lparr>sl_data := Some d', sl_capacity := sl_capacity s * 2\<rparr>"
    using pos d(1) by (auto simp: slice_grow_def SLICE_GROWTH_FACTOR_def Let_def split: option.splits)
  have d': "length d' = 2 * length d" "take (length d) d' = take (length d) d" "length d' < PTRDIFF_LIMIT"
    using c_realloc_Some [OF r] by (simp_all add: ec)
  have "slice_inv s'"
    using d d' by (simp add: s' slice_inv_def u64_ord c2)
  moreover have "slice_elem s' i = slice_elem s i" if "i < unat (sl_size s)" for i
    using take_eq_imp_mem_read_eq [OF d'(2), of "i * ?e" ?e] elem_in_block [of i ?c ?e] that d
    by (simp add: s' slice_elem_def slice_load_def)
  ultimately show ?thesis
    by (simp add: s' c2 slice_elems_def)
qed

lemma slice_grow_fail: "slice_grow M s = (rc, s') \<Longrightarrow> rc \<noteq> 0 \<Longrightarrow> rc = -1 \<and> s' = s"
  by (auto simp: slice_grow_def Let_def split: option.splits)

lemma slice_ensure_ok:
  assumes "slice_inv s" "slice_ensure M s = (0, s')"
  shows "slice_inv s' \<and> sl_size s' = sl_size s \<and> sl_element_size s' = sl_element_size s \<and>
         slice_elems s' = slice_elems s \<and> unat (sl_size s') < unat (sl_capacity s')"
proof (cases "sl_capacity s \<le> sl_size s")
  case True
  then have g: "slice_grow M s = (0, s')" using assms(2) by (simp add: slice_ensure_def)
  from assms(1) obtain d where "sl_data s = Some d" "unat (sl_size s) \<le> unat (sl_capacity s)"
      "0 < unat (sl_capacity s)" by (rule slice_invE)
  then show ?thesis using slice_grow_ok [OF assms(1) g] by simp
next
  case False
  then show ?thesis using assms by (simp add: slice_ensure_def u64_ord)
qed

lemma slice_ensure_fail: "slice_ensure M s = (rc, s') \<Longrightarrow> rc \<noteq> 0 \<Longrightarrow> rc = -1 \<and> s' = s"
  by (auto simp: slice_ensure_def dest: slice_grow_fail split: if_splits)

lemma slice_elems_eqI:
  assumes "unat (sl_size s) = length xs" "\<And>i. i < length xs \<Longrightarrow> slice_elem s i = xs ! i"
  shows "slice_elems s = xs"
  using assms by (intro nth_equalityI) simp_all

lemma slice_inc_size:
  assumes "unat (sl_size s) < unat (sl_capacity s)"
  shows "unat (sl_size s + 1) = Suc (unat (sl_size s))"
  using assms unat_lt_2p64 [of "sl_capacity s"] by (intro unat_inc_u64) linarith

lemma slice_copy_in_elem:
  assumes "slice_inv s" "length e = unat (sl_element_size s)" "unat i < unat (sl_capacity s)"
  shows "slice_inv (slice_copy_in (slice_get_ptr s i) e s)"
    and "k < unat (sl_capacity s) \<Longrightarrow>
         slice_elem (slice_copy_in (slice_get_ptr s i) e s) k = (if k = unat i then e else slice_elem s k)"
proof -
  have p: "slice_copy_in (slice_get_ptr s i) e s = slice_store (unat i * unat (sl_element_size s)) e s"
    using assms by (simp add: slice_copy_in_def slice_get_ptr_nat)
  show "slice_inv (slice_copy_in (slice_get_ptr s i) e s)"
    unfolding p using assms by (intro slice_inv_store [where n = 1]) simp_all
  show "slice_elem (slice_copy_in (slice_get_ptr s i) e s) k = (if k = unat i then e else slice_elem s k)"
    if "k < unat (sl_capacity s)"
    unfolding p using assms that
    by (subst slice_elem_store [where n = 1]) (auto simp: mem_read_def)
qed

lemma slice_push_back_ok:
  assumes inv: "slice_inv s" and len: "length e = unat (sl_element_size s)"
    and push: "slice_push_back M (Some s) (Some e) = (0, so')"
  shows "\<exists>s'. so' = Some s' \<and> slice_inv s' \<and> sl_element_size s' = sl_element_size s \<and>
              slice_elems s' = slice_elems s @ [e]"
proof -
  obtain rc t where en: "slice_ensure M s = (rc, t)" by fastforce
  have rc: "rc = 0" using push en by (auto simp: slice_push_back_def split: if_splits)
  note t = slice_ensure_ok [OF inv en [unfolded rc]]
  let ?u = "slice_copy_in (slice_get_ptr t (sl_size t)) e t"
  have so': "so' = Some (?u\<lparr>sl_size := sl_size t + 1\<rparr>)"
    using push en rc by (simp add: slice_push_back_def)
  have lt: "length e = unat (sl_element_size t)" and cap: "unat (sl_size t) < unat (sl_capacity t)"
    and tinv: "slice_inv t" using t len by auto
  note u = slice_copy_in_elem [OF tinv lt cap]
  have inc: "unat (sl_size t + 1) = Suc (unat (sl_size t))" by (rule slice_inc_size [OF cap])
  have "slice_inv (?u\<lparr>sl_size := sl_size t + 1\<rparr>)"
    using u(1) inc cap by (intro slice_inv_size) (simp_all add: u64_ord)
  moreover have "slice_elems (?u\<lparr>sl_size := sl_size t + 1\<rparr>) = slice_elems t @ [e]"
    using u(2) cap inc by (intro slice_elems_eqI) (auto simp: nth_append less_Suc_eq)
  ultimately show ?thesis using t so' by simp
qed

lemma slice_push_back_fail:
  "slice_push_back M (Some s) (Some e) = (rc, so') \<Longrightarrow> rc \<noteq> 0 \<Longrightarrow> rc = -1 \<and> so' = Some s"
  by (auto simp: slice_push_back_def dest: slice_ensure_fail split: if_splits prod.splits)

lemma slice_pop_back_ok:
  assumes inv: "slice_inv s" and ne: "slice_elems s \<noteq> []"
  shows "\<exists>s'. slice_pop_back (Some s) = (0, last (slice_elems s), Some s') \<and> slice_inv s' \<and>
              sl_element_size s' = sl_element_size s \<and> slice_elems s' = butlast (slice_elems s)"
proof -
  from inv obtain d where "sl_data s = Some d" and c: "unat (sl_size s) \<le> unat (sl_capacity s)"
    by (rule slice_invE)
  have pos: "0 < unat (sl_size s)" using ne by (metis length_greater_0_conv length_slice_elems)
  then have dec: "unat (sl_size s - 1) = unat (sl_size s) - 1"
    by (subst unat_sub_u64) (simp_all add: u64_ord)
  let ?t = "s\<lparr>sl_size := sl_size s - 1\<rparr>"
  have t: "slice_inv ?t" using inv c dec by (intro slice_inv_size) (simp_all add: u64_ord)
  have "slice_copy_out (slice_get_ptr ?t (sl_size s - 1)) ?t = slice_elem s (unat (sl_size s) - 1)"
    using slice_copy_out_elem [OF t, of "sl_size s - 1"] c dec by simp
  also have "\<dots> = last (slice_elems s)" using ne pos by (simp add: last_conv_nth)
  finally have "slice_pop_back (Some s) = (0, last (slice_elems s), Some ?t)"
    using pos by (auto simp: slice_pop_back_def Let_def)
  moreover have "slice_elems ?t = butlast (slice_elems s)"
    using pos dec by (intro slice_elems_eqI) (simp_all add: nth_butlast)
  ultimately show ?thesis using t by simp
qed

lemma slice_set_ok:
  assumes inv: "slice_inv s" and len: "length e = unat (sl_element_size s)"
    and i: "unat i < unat (sl_size s)"
  shows "\<exists>s'. slice_set (Some s) i (Some e) = (0, Some s') \<and> slice_inv s' \<and>
              slice_elems s' = (slice_elems s)[unat i := e]"
proof -
  from inv obtain d where "sl_data s = Some d" and c: "unat (sl_size s) \<le> unat (sl_capacity s)"
    by (rule slice_invE)
  have ic: "unat i < unat (sl_capacity s)" using i c by simp
  note u = slice_copy_in_elem [OF inv len ic]
  have "slice_elems (slice_copy_in (slice_get_ptr s i) e s) = (slice_elems s)[unat i := e]"
    using u(2) c by (intro slice_elems_eqI) (auto simp: nth_list_update)
  then show ?thesis using u(1) i by (auto simp: slice_set_def u64_ord)
qed

lemma slice_get_copy_ok:
  assumes "slice_inv s" "unat i < unat (sl_size s)"
  shows "slice_get_copy (Some s) i (Some buf) = (0, Some (slice_elems s ! unat i))"
proof -
  from assms(1) obtain d where "sl_data s = Some d" and "unat (sl_size s) \<le> unat (sl_capacity s)"
    by (rule slice_invE)
  then show ?thesis
    using assms slice_copy_out_elem [OF assms(1), of i] by (auto simp: slice_get_copy_def u64_ord)
qed

text \<open>The block moves of insertion and deletion: \<open>memmove\<close> of \<open>n\<close> whole elements.\<close>

lemma slice_move_elem:
  assumes inv: "slice_inv s" and ab: "a + n \<le> unat (sl_capacity s)" "b + n \<le> unat (sl_capacity s)"
  defines "t \<equiv> slice_store (a * unat (sl_element_size s))
               (slice_load (b * unat (sl_element_size s)) (n * unat (sl_element_size s)) s) s"
  shows "slice_inv t"
    and "k < unat (sl_capacity s) \<Longrightarrow>
         slice_elem t k = (if a \<le> k \<and> k < a + n then slice_elem s (b + (k - a)) else slice_elem s k)"
proof -
  have len: "length (slice_load (b * unat (sl_element_size s)) (n * unat (sl_element_size s)) s)
               = n * unat (sl_element_size s)"
    by (rule length_slice_load [OF inv ab(2)])
  show "slice_inv t" unfolding t_def by (rule slice_inv_store [OF inv len ab(1)])
  show "slice_elem t k = (if a \<le> k \<and> k < a + n then slice_elem s (b + (k - a)) else slice_elem s k)"
    if "k < unat (sl_capacity s)"
    unfolding t_def
    using slice_elem_store [OF inv len ab(1) that] slice_elem_load [OF inv ab(2), of "k - a"]
    by (auto simp: less_diff_conv2)
qed

lemma slice_span_nat:
  assumes "slice_inv s" "unat n \<le> unat (sl_capacity s)"
  shows "unat (n * sl_element_size s) = unat n * unat (sl_element_size s)"
  using slice_get_ptr_nat [OF assms] by (simp add: slice_get_ptr_def)

lemma slice_insert_ok:
  assumes inv: "slice_inv s" and len: "length e = unat (sl_element_size s)"
    and i: "unat i \<le> unat (sl_size s)" and ok: "slice_insert M (Some s) i (Some e) = (0, so')"
  shows "\<exists>s'. so' = Some s' \<and> slice_inv s' \<and>
              slice_elems s' = take (unat i) (slice_elems s) @ e # drop (unat i) (slice_elems s)"
proof -
  obtain rc t where en: "slice_ensure M s = (rc, t)" by fastforce
  have rc: "rc = 0" using ok en i by (auto simp: slice_insert_def u64_ord Let_def split: if_splits)
  note t = slice_ensure_ok [OF inv en [unfolded rc]]
  then have tinv: "slice_inv t" and sz: "sl_size t = sl_size s" and es: "sl_element_size t = sl_element_size s"
    and el: "slice_elems t = slice_elems s" and cap: "unat (sl_size s) < unat (sl_capacity t)" by auto
  let ?i = "unat i" and ?n = "unat (sl_size s)" and ?c = "unat (sl_capacity t)"
  define u where "u = (if i < sl_size t
      then slice_store (slice_get_ptr t (i + 1))
             (slice_load (slice_get_ptr t i) (unat ((sl_size t - i) * sl_element_size t)) t) t
      else t)"
  have inc: "unat (sl_size s + 1) = Suc ?n" using slice_inc_size [of t] cap by (simp add: sz)
  have i1: "unat (i + 1) = Suc ?i"
    using i unat_lt_2p64 [of "sl_capacity t"] cap by (intro unat_inc_u64) linarith
  have sub: "unat (sl_size t - i) = ?n - ?i" using i by (simp add: sz unat_sub_u64 u64_ord)
  have u: "slice_inv u \<and> sl_size u = sl_size s \<and> sl_capacity u = sl_capacity t \<and>
      sl_element_size u = sl_element_size s \<and>
      (\<forall>k < ?c. slice_elem u k = (if ?i < k \<and> k \<le> ?n then slice_elem t (k - 1) else slice_elem t k))"
  proof (cases "i < sl_size t")
    case True
    then have iu: "?i < ?n" by (simp add: u64_ord sz)
    have ueq: "u = slice_store (Suc ?i * unat (sl_element_size t))
        (slice_load (?i * unat (sl_element_size t)) ((?n - ?i) * unat (sl_element_size t)) t) t"
      using True iu cap i1 sub
      by (simp add: u_def slice_get_ptr_nat [OF tinv] slice_span_nat [OF tinv])
    note mv = slice_move_elem [OF tinv, of "Suc ?i" "?n - ?i" ?i, folded ueq]
    show ?thesis using mv iu cap sz es by (auto simp: ueq intro!: arg_cong [of _ _ "slice_elem t"])
  next
    case False
    then have "?i = ?n" using i by (simp add: u64_ord sz)
    then show ?thesis using False tinv sz es by (auto simp: u_def)
  qed
  have ic: "?i < unat (sl_capacity u)" and lu: "length e = unat (sl_element_size u)"
    and uinv: "slice_inv u" using u i cap len by auto
  note v = slice_copy_in_elem [OF uinv lu ic]
  let ?v = "slice_copy_in (slice_get_ptr u i) e u"
  have so': "so' = Some (?v\<lparr>sl_size := sl_size s + 1\<rparr>)"
    using ok en rc i u by (simp add: slice_insert_def u64_ord Let_def u_def)
  have "slice_inv (?v\<lparr>sl_size := sl_size s + 1\<rparr>)"
    using v(1) inc cap u by (intro slice_inv_size) (simp_all add: u64_ord)
  moreover have "slice_elems (?v\<lparr>sl_size := sl_size s + 1\<rparr>)
      = take ?i (slice_elems t) @ e # drop ?i (slice_elems t)"
    using v(2) u cap inc i sz min.absorb2 [OF i]
    by (intro slice_elems_eqI) (auto simp: nth_append nth_Cons')
  ultimately show ?thesis using so' el by simp
qed

lemma slice_erase_ok:
  assumes inv: "slice_inv s" and i: "unat i < unat (sl_size s)"
  shows "\<exists>s'. slice_erase (Some s) i = (0, slice_elems s ! unat i, Some s') \<and> slice_inv s' \<and>
              slice_elems s' = take (unat i) (slice_elems s) @ drop (Suc (unat i)) (slice_elems s)"
proof -
  let ?i = "unat i" and ?n = "unat (sl_size s)" and ?c = "unat (sl_capacity s)"
  from inv obtain d where "sl_data s = Some d" and c: "?n \<le> ?c" by (rule slice_invE)
  define u where "u = (if i < sl_size s - 1
      then slice_store (slice_get_ptr s i)
             (slice_load (slice_get_ptr s (i + 1)) (unat ((sl_size s - i - 1) * sl_element_size s)) s) s
      else s)"
  have i1: "unat (i + 1) = Suc ?i"
    using i unat_lt_2p64 [of "sl_size s"] by (intro unat_inc_u64) linarith
  have dec: "unat (sl_size s - 1) = ?n - 1"
    using i by (subst unat_sub_u64) (simp_all add: u64_ord)
  have "unat (sl_size s - i) = ?n - ?i" using i by (simp add: unat_sub_u64 u64_ord)
  then have sub: "unat (sl_size s - i - 1) = ?n - ?i - 1"
    using i by (subst unat_sub_u64) (simp_all add: u64_ord)
  have u: "slice_inv u \<and> sl_size u = sl_size s \<and> sl_capacity u = sl_capacity s \<and>
      (\<forall>k < ?n - 1. slice_elem u k = (if ?i \<le> k then slice_elem s (Suc k) else slice_elem s k))"
  proof (cases "i < sl_size s - 1")
    case True
    have ueq: "u = slice_store (?i * unat (sl_element_size s))
        (slice_load (Suc ?i * unat (sl_element_size s)) ((?n - ?i - 1) * unat (sl_element_size s)) s) s"
      using True i c i1 sub
      by (simp add: u_def slice_get_ptr_nat [OF inv] slice_span_nat [OF inv])
    have a: "?i + (?n - ?i - 1) \<le> ?c" and b: "Suc ?i + (?n - ?i - 1) \<le> ?c" using i c by simp_all
    note mv = slice_move_elem [OF inv a b, folded ueq]
    show ?thesis using mv i c by (auto simp: ueq)
  next
    case False
    then show ?thesis using inv i by (auto simp: u_def u64_ord dec)
  qed
  have out: "slice_copy_out (slice_get_ptr s i) s = slice_elems s ! ?i"
    using slice_copy_out_elem [OF inv, of i] i c by simp
  have ret: "slice_erase (Some s) i = (0, slice_elems s ! ?i, Some (u\<lparr>sl_size := sl_size s - 1\<rparr>))"
    using i u by (auto simp: slice_erase_def u64_ord Let_def u_def out)
  have "slice_inv (u\<lparr>sl_size := sl_size s - 1\<rparr>)"
    using u c dec i by (intro slice_inv_size) (simp_all add: u64_ord)
  moreover have "slice_elems (u\<lparr>sl_size := sl_size s - 1\<rparr>)
      = take ?i (slice_elems s) @ drop (Suc ?i) (slice_elems s)"
    using u i dec by (intro slice_elems_eqI) (auto simp: nth_append min_def)
  ultimately show ?thesis using ret by simp
qed

lemma slice_reserve_ok:
  assumes inv: "slice_inv s" and fit: "unat (sl_element_size s) * unat n < PTRDIFF_LIMIT"
    and ok: "slice_reserve M (Some s) n = (0, so')"
  shows "\<exists>s'. so' = Some s' \<and> slice_inv s' \<and> slice_elems s' = slice_elems s \<and>
              sl_size s' = sl_size s \<and> sl_element_size s' = sl_element_size s \<and> n \<le> sl_capacity s' \<and>
              sl_capacity s \<le> sl_capacity s'"
proof (cases "n \<le> sl_capacity s")
  case True
  then show ?thesis using ok inv by (auto simp: slice_reserve_def)
next
  case False
  let ?e = "unat (sl_element_size s)" and ?c = "unat (sl_capacity s)"
  from inv obtain d where d: "sl_data s = Some d" "length d = ?c * ?e" "length d < PTRDIFF_LIMIT"
      "unat (sl_size s) \<le> ?c" "0 < ?c" "0 < ?e" by (rule slice_invE)
  have nc: "?c < unat n" using False by (simp add: u64_ord)
  have en: "unat (sl_element_size s * n) = ?e * unat n"
    using fit by (intro unat_mult_u64) (simp add: PTRDIFF_LIMIT_def)
  from ok obtain d' where r: "c_realloc M (Some d) (sl_element_size s * n) = Some d'"
      and so': "so' = Some (s\<lparr>sl_data := Some d', sl_capacity := n\<rparr>)"
    using False d(1) by (auto simp: slice_reserve_def split: option.splits)
  have le: "length d \<le> ?e * unat n" using nc d(2) by (simp add: mult.commute)
  have d': "length d' = ?e * unat n" "take (length d) d' = take (length d) d" "length d' < PTRDIFF_LIMIT"
    using c_realloc_Some [OF r] le by (simp_all add: en)
  have "slice_elem (s\<lparr>sl_data := Some d', sl_capacity := n\<rparr>) i = slice_elem s i"
    if "i < unat (sl_size s)" for i
    using take_eq_imp_mem_read_eq [OF d'(2), of "i * ?e" ?e] elem_in_block [of i ?c ?e] that d
    by (simp add: slice_elem_def slice_load_def)
  then show ?thesis
    using d d' nc by (simp add: so' slice_inv_def u64_ord slice_elems_def mult.commute)
qed

text \<open>The fill loop of \<open>slice_resize\<close> writes exactly the new elements.\<close>

lemma slice_fill_elem:
  assumes "slice_inv s" "hi \<le> unat (sl_capacity s)"
    and v: "\<And>w. v = Some w \<Longrightarrow> length w = unat (sl_element_size s)"
  defines "x \<equiv> (case v of Some w \<Rightarrow> w | None \<Rightarrow> replicate (unat (sl_element_size s)) 0)"
  shows "slice_inv (slice_fill v [lo..<hi] s) \<and> sl_size (slice_fill v [lo..<hi] s) = sl_size s \<and>
         sl_capacity (slice_fill v [lo..<hi] s) = sl_capacity s \<and>
         sl_element_size (slice_fill v [lo..<hi] s) = sl_element_size s \<and>
         (\<forall>k < unat (sl_capacity s).
            slice_elem (slice_fill v [lo..<hi] s) k = (if lo \<le> k \<and> k < hi then x else slice_elem s k))"
  using assms(2)
proof (induction hi)
  case 0
  then show ?case using assms(1) by (simp add: slice_fill_def)
next
  case (Suc hi)
  let ?t = "slice_fill v [lo..<hi] s"
  note IH = Suc.IH [OF Suc_leD [OF Suc.prems]]
  show ?case
  proof (cases "lo \<le> hi")
    case True
    have x: "length x = 1 * unat (sl_element_size ?t)"
      using v IH by (simp add: x_def split: option.splits)
    have step: "slice_fill v [lo..<Suc hi] s = slice_store (hi * unat (sl_element_size ?t)) x ?t"
      using True Suc.prems IH slice_get_ptr_of_nat [of ?t hi] v
      by (auto simp: slice_fill_def x_def split: option.splits)
    have cap: "hi + 1 \<le> unat (sl_capacity ?t)" using Suc.prems IH by simp
    have tinv: "slice_inv ?t" using IH by simp
    have "slice_elem (slice_fill v [lo..<Suc hi] s) k = (if lo \<le> k \<and> k < Suc hi then x else slice_elem s k)"
      if "k < unat (sl_capacity s)" for k
      unfolding step using slice_elem_store [OF tinv x cap, of k] IH that True
      by (auto simp: mem_read_def x less_Suc_eq split: if_splits)
    then show ?thesis
      using slice_inv_store [OF tinv x cap] IH by (simp add: step del: upt_Suc)
  next
    case False
    then show ?thesis using assms(1) by (auto simp: slice_fill_def)
  qed
qed

lemma slice_resize_ok:
  assumes inv: "slice_inv s" and fit: "unat (sl_element_size s) * unat n < PTRDIFF_LIMIT"
    and v: "\<And>w. v = Some w \<Longrightarrow> length w = unat (sl_element_size s)"
    and ok: "slice_resize M (Some s) n v = (0, so')"
  shows "\<exists>s'. so' = Some s' \<and> slice_inv s' \<and>
     slice_elems s' = take (unat n) (slice_elems s) @
       replicate (unat n - unat (sl_size s))
         (case v of Some w \<Rightarrow> w | None \<Rightarrow> replicate (unat (sl_element_size s)) 0)"
proof -
  let ?x = "case v of Some w \<Rightarrow> w | None \<Rightarrow> replicate (unat (sl_element_size s)) 0"
  obtain rc to where r: "(if sl_capacity s < n then slice_reserve M (Some s) n else (0, Some s)) = (rc, to)"
    by fastforce
  have rc: "rc = 0" and tn: "to \<noteq> None"
    using ok r by (auto simp: slice_resize_def split: option.splits if_splits)
  obtain t where t: "to = Some t" "slice_inv t" "slice_elems t = slice_elems s" "sl_size t = sl_size s"
      "sl_element_size t = sl_element_size s" "n \<le> sl_capacity t"
    using r rc inv slice_reserve_ok [OF inv fit, of M to] by (auto simp: not_less split: if_splits)
  define u where "u = (if sl_size t < n then slice_fill v [unat (sl_size t)..<unat n] t else t)"
  have so': "so' = Some (u\<lparr>sl_size := n\<rparr>)"
    using ok r rc t(1) by (simp add: slice_resize_def u_def)
  have nc: "unat n \<le> unat (sl_capacity t)" using t(6) by (simp add: u64_ord)
  have vt: "\<And>w. v = Some w \<Longrightarrow> length w = unat (sl_element_size t)" using v t(5) by simp
  have u: "slice_inv u \<and> sl_capacity u = sl_capacity t \<and>
     (\<forall>k < unat n. slice_elem u k = (if k < unat (sl_size t) then slice_elem t k else ?x))"
    using slice_fill_elem [OF t(2) nc vt, where lo = "unat (sl_size t)"] t(2,5) nc
    by (auto simp: u_def u64_ord split: option.splits)
  have "slice_elems (u\<lparr>sl_size := n\<rparr>)
      = take (unat n) (slice_elems t) @ replicate (unat n - unat (sl_size t)) ?x"
    using u by (intro slice_elems_eqI) (auto simp: nth_append min_def)
  moreover have "slice_inv (u\<lparr>sl_size := n\<rparr>)" using u t(6) by (intro slice_inv_size) simp_all
  ultimately show ?thesis using so' t by simp
qed

lemma slice_init_ok:
  assumes "slice_init M s es cap = (0, s')" "0 < es"
    and "unat es * unat (if cap = 0 then SLICE_DEFAULT_CAPACITY else cap) < PTRDIFF_LIMIT"
  shows "slice_inv s' \<and> slice_elems s' = [] \<and> sl_element_size s' = es"
proof -
  let ?c = "if cap = 0 then SLICE_DEFAULT_CAPACITY else cap"
  have m: "unat (es * ?c) = unat es * unat ?c"
    using assms(3) by (intro unat_mult_u64) (simp add: PTRDIFF_LIMIT_def)
  obtain d where d: "c_malloc M (es * ?c) = Some d"
      "s' = s\<lparr>sl_data := Some d, sl_size := 0, sl_capacity := ?c, sl_element_size := es\<rparr>"
    using assms(1) by (auto simp: slice_init_def Let_def split: option.splits)
  have "length d = unat es * unat ?c" using length_c_malloc [OF d(1)] m by simp
  moreover have "0 < ?c" by (simp add: SLICE_DEFAULT_CAPACITY_def word_neq_0_conv)
  ultimately show ?thesis
    using assms(2,3) d(2) by (simp add: slice_inv_def slice_elems_def mult.commute)
qed

lemma slice_find_from_ok:
  assumes "slice_inv s"
  shows "hi \<le> unat (sl_size s) \<Longrightarrow> slice_find_from cmp s e [lo..<hi] =
     (case find (\<lambda>i. cmp (slice_elem s i) e = 0) [lo..<hi] of None \<Rightarrow> -1 | Some i \<Rightarrow> int i)"
proof (induction "hi - lo" arbitrary: lo)
  case 0
  then show ?case by simp
next
  case (Suc n)
  from assms obtain d where "sl_data s = Some d" and c: "unat (sl_size s) \<le> unat (sl_capacity s)"
    by (rule slice_invE)
  have lo: "lo < hi" using Suc.hyps(2) by simp
  have "slice_copy_out (slice_get_ptr s (of_nat lo)) s = slice_elem s lo"
    using slice_get_ptr_of_nat [OF assms, of lo] lo Suc.prems c
    by (simp add: slice_copy_out_def slice_elem_def)
  then show ?case
    using Suc.hyps(1) [of "Suc lo"] Suc.hyps(2) Suc.prems lo by (simp add: upt_conv_Cons)
qed

lemma slice_foreach_from:
  assumes inv: "slice_inv s"
  shows "iter_slice it = Some s \<Longrightarrow> unat (iter_index it + 1) \<le> unat (sl_size s) \<Longrightarrow>
     slice_foreach it = map (\<lambda>i. Some (i * unat (sl_element_size s)))
                            [unat (iter_index it + 1)..<unat (sl_size s)]"
proof (induction it rule: slice_foreach.induct)
  case (1 it)
  let ?k = "iter_index it + 1" and ?n = "unat (sl_size s)"
  let ?it' = "it\<lparr>iter_index := ?k\<rparr>"
  have nx: "slice_iter_next it = (?k < sl_size s, ?it')"
    using "1.prems" by (simp add: slice_iter_next_def Let_def)
  show ?case
  proof (cases "?k < sl_size s")
    case True
    then have k: "unat ?k < ?n" by (simp add: u64_ord)
    then have k1: "unat (?k + 1) = Suc (unat ?k)"
      using unat_lt_2p64 [of "sl_size s"] by (intro unat_inc_u64) linarith
    from inv obtain d where "sl_data s = Some d" and c: "?n \<le> unat (sl_capacity s)" by (rule slice_invE)
    have get: "slice_iter_get ?it' = Some (unat ?k * unat (sl_element_size s))"
      using "1.prems" k c slice_get_ptr_nat [OF inv, of ?k] by (simp add: slice_iter_get_def u64_ord)
    have "slice_foreach ?it' = map (\<lambda>i. Some (i * unat (sl_element_size s))) [Suc (unat ?k)..<?n]"
      using "1.IH" [OF nx [symmetric] True] "1.prems" k k1 by simp
    then show ?thesis
      using k get True by (simp add: slice_foreach.simps [of it] nx upt_conv_Cons)
  next
    case False
    then show ?thesis using "1.prems" by (simp add: slice_foreach.simps [of it] nx u64_ord)
  qed
qed

section \<open>The interface\<close>

definition slice_push_op :: "allocator \<Rightarrow> Slice \<Rightarrow> bytes \<Rightarrow> Slice option" where
  "slice_push_op M s e =
     (case slice_push_back M (Some s) (Some e) of (rc, so') \<Rightarrow> if rc = 0 then so' else None)"

definition slice_pop_op :: "Slice \<Rightarrow> (bytes \<times> Slice) option" where
  "slice_pop_op s =
     (case slice_pop_back (Some s) of
        (rc, e, Some s') \<Rightarrow> if rc = 0 then Some (e, s') else None
      | _ \<Rightarrow> None)"

definition slice_fits :: "Slice \<Rightarrow> bytes \<Rightarrow> bool" where
  "slice_fits s e \<longleftrightarrow> length e = unat (sl_element_size s)"

lemma slice_push_op_ok:
  assumes "slice_inv s" "slice_fits s e" "slice_push_op M s e = Some s'"
  shows "slice_inv s' \<and> slice_elems s' = slice_elems s @ [e] \<and> sl_element_size s' = sl_element_size s"
proof -
  obtain rc so' where r: "slice_push_back M (Some s) (Some e) = (rc, so')" by fastforce
  then have "rc = 0" "so' = Some s'" using assms(3) by (auto simp: slice_push_op_def split: if_splits)
  then show ?thesis
    using slice_push_back_ok [OF assms(1), of e M so'] r assms(2) by (auto simp: slice_fits_def)
qed

lemma slice_pop_op_ok:
  assumes "slice_inv s" "slice_elems s \<noteq> []"
  shows "\<exists>s'. slice_pop_op s = Some (last (slice_elems s), s') \<and> slice_inv s' \<and>
     slice_elems s' = butlast (slice_elems s) \<and> slice_fits s' = slice_fits s"
  using slice_pop_back_ok [OF assms] by (auto simp: slice_pop_op_def slice_fits_def fun_eq_iff)

interpretation slice_array: dyn_array slice_inv slice_elems slice_fits "slice_push_op M" slice_pop_op for M
proof unfold_locales
  fix s e s' x
  assume "slice_inv s" "slice_fits s e" "slice_push_op M s e = Some s'"
  note r = slice_push_op_ok [OF this]
  show "slice_inv s'" using r by simp
  show "slice_elems s' = slice_elems s @ [e]" using r by simp
  show "slice_fits s' x = slice_fits s x" using r by (simp add: slice_fits_def)
next
  fix s assume "slice_inv s" "slice_elems s = []"
  then have "sl_size s = 0" using length_slice_elems [of s] by (simp add: unat_eq_zero)
  then show "slice_pop_op s = None" by (simp add: slice_pop_op_def slice_pop_back_def)
next
  fix s assume "slice_inv s" "slice_elems s \<noteq> []"
  then show "\<exists>s'. slice_pop_op s = Some (last (slice_elems s), s') \<and> slice_inv s' \<and>
     slice_elems s' = butlast (slice_elems s) \<and> slice_fits s' = slice_fits s"
    by (rule slice_pop_op_ok)
qed

text \<open>Pushing cannot fail while twice the number of elements still fits the address space.\<close>

definition slice_room :: "allocator \<Rightarrow> nat \<Rightarrow> Slice \<Rightarrow> bool" where
  "slice_room M n s \<longleftrightarrow> alloc_ok M \<and>
     max (unat (sl_capacity s)) (2 * (unat (sl_size s) + n)) * unat (sl_element_size s) < PTRDIFF_LIMIT"

lemma slice_room_mono:
  assumes "slice_room M n s" "k \<le> n"
  shows "slice_room M k s"
proof -
  have "max (unat (sl_capacity s)) (2 * (unat (sl_size s) + k)) \<le> max (unat (sl_capacity s)) (2 * (unat (sl_size s) + n))"
    using assms(2) by (intro max.mono) simp_all
  then show ?thesis
    using assms(1) unfolding slice_room_def by (meson le_less_trans mult_le_mono1)
qed

lemma slice_ensure_total:
  assumes inv: "slice_inv s" and room: "slice_room M (Suc n) s"
  shows "\<exists>s'. slice_ensure M s = (0, s') \<and> sl_size s' = sl_size s \<and> sl_element_size s' = sl_element_size s \<and>
              unat (sl_capacity s') \<le> max (unat (sl_capacity s)) (2 * unat (sl_size s))"
proof (cases "sl_capacity s \<le> sl_size s")
  case False
  then show ?thesis by (simp add: slice_ensure_def)
next
  case True
  from inv obtain d where d: "sl_data s = Some d" "unat (sl_size s) \<le> unat (sl_capacity s)"
      "0 < unat (sl_capacity s)" "0 < unat (sl_element_size s)"
    by (rule slice_invE)
  have full: "unat (sl_size s) = unat (sl_capacity s)" using True d(2) by (simp add: u64_ord)
  have "2 * (unat (sl_size s) + Suc n) * unat (sl_element_size s) < PTRDIFF_LIMIT"
    using room le_less_trans [OF mult_le_mono1 [OF max.cobounded2]] unfolding slice_room_def by blast
  then have fit: "unat (sl_element_size s) * (unat (sl_capacity s) * 2) < PTRDIFF_LIMIT"
    by (rule le_less_trans [rotated]) (simp add: full algebra_simps)
  have "unat (sl_capacity s) * 2 \<le> unat (sl_element_size s) * (unat (sl_capacity s) * 2)"
    using d(4) by simp
  then have "unat (sl_capacity s) * 2 < PTRDIFF_LIMIT" using fit by (rule le_less_trans)
  then have cap: "unat (sl_capacity s * 2) = unat (sl_capacity s) * 2"
    by (subst unat_mult_u64) (simp_all add: PTRDIFF_LIMIT_def)
  have bytes: "unat (sl_element_size s * (sl_capacity s * 2)) = unat (sl_element_size s) * (unat (sl_capacity s) * 2)"
    using fit cap by (subst unat_mult_u64) (simp_all add: PTRDIFF_LIMIT_def)
  have "sl_element_size s * (sl_capacity s * 2) \<noteq> 0"
    using bytes d by (metis mult_is_0 neq0_conv unat_0 zero_neq_numeral)
  then show ?thesis
    using True d full cap bytes fit room
    by (simp add: slice_ensure_def slice_grow_def SLICE_GROWTH_FACTOR_def c_realloc_def slice_room_def u64_ord)
qed

lemma slice_push_op_total:
  assumes inv: "slice_inv s" and fits: "slice_fits s e" and room: "slice_room M (Suc n) s"
  shows "\<exists>s'. slice_push_op M s e = Some s' \<and> slice_room M n s'"
proof -
  from slice_ensure_total [OF inv room] obtain t where
    t: "slice_ensure M s = (0, t)" "sl_size t = sl_size s" "sl_element_size t = sl_element_size s"
       "unat (sl_capacity t) \<le> max (unat (sl_capacity s)) (2 * unat (sl_size s))"
    by blast
  obtain s' where s': "slice_push_back M (Some s) (Some e) = (0, Some s')"
      "sl_size s' = sl_size s + 1" "sl_element_size s' = sl_element_size s" "sl_capacity s' = sl_capacity t"
    using t by (simp add: slice_push_back_def slice_store_def)
  then have op: "slice_push_op M s e = Some s'" by (simp add: slice_push_op_def)
  have "unat (sl_size s') = Suc (unat (sl_size s))"
    using slice_push_op_ok [OF inv fits op] length_slice_elems [of s'] by simp
  then have "max (unat (sl_capacity s')) (2 * (unat (sl_size s') + n))
      \<le> max (unat (sl_capacity s)) (2 * (unat (sl_size s) + Suc n))"
    using t(4) s'(4) by (simp add: max_def split: if_splits)
  then have "max (unat (sl_capacity s')) (2 * (unat (sl_size s') + n)) * unat (sl_element_size s')
      \<le> max (unat (sl_capacity s)) (2 * (unat (sl_size s) + Suc n)) * unat (sl_element_size s)"
    unfolding s'(3) by (rule mult_le_mono1)
  then have "slice_room M n s'" using room unfolding slice_room_def by (meson le_less_trans)
  with op show ?thesis by blast
qed

interpretation slice_bounded: bounded_array slice_inv slice_elems slice_fits "slice_push_op M" slice_pop_op
  "slice_room M" for M
  by unfold_locales (rule slice_push_op_total)

section \<open>Properties\<close>

definition ample_memory :: allocator where
  "ample_memory = \<lparr>alloc_ok = True, alloc_junk = (\<lambda>_. 165), alloc_addr = 4096\<rparr>"

definition sample_slice :: Slice where
  "sample_slice = SLICE ample_memory 2 1"

lemma sample_slice_ok:
  "slice_inv sample_slice \<and> slice_elems sample_slice = [] \<and> sl_element_size sample_slice = 2 \<and>
   sl_capacity sample_slice = 1 \<and> sl_size sample_slice = 0"
  by (simp add: sample_slice_def SLICE_def slice_init_def ample_memory_def c_malloc_def PTRDIFF_LIMIT_def
      slice_inv_def slice_elems_def)

text \<open>
  A slice used as a stack: as long as memory is available and twice the final number of
  elements fits the address space, pushing any list of elements succeeds whatever growth it
  triggers, leaves the old elements in place, and popping as many elements returns exactly the
  pushed ones in reverse order and restores the slice's contents.
\<close>

theorem slice_stack:
  assumes "slice_inv s" "\<forall>e \<in> set es. length e = unat (sl_element_size s)" "slice_room M (length es) s"
  shows "\<exists>s' s''. push_all (slice_push_op M) s es = Some s' \<and> slice_elems s' = slice_elems s @ es \<and>
           pop_n slice_pop_op (length es) s' = Some (rev es, s'') \<and> slice_inv s'' \<and>
           slice_elems s'' = slice_elems s"
  using slice_bounded.stack_total [OF assms(1) _ assms(3)] assms(2) by (simp add: slice_fits_def)

theorem slice_stack_witness:
  "\<exists>s' s''. push_all (slice_push_op ample_memory) sample_slice [[1, 2], [3, 4], [5, 6]] = Some s' \<and>
     slice_elems s' = slice_elems sample_slice @ [[1, 2], [3, 4], [5, 6]] \<and>
     pop_n slice_pop_op (length [[1, 2], [3, 4], [5, 6 :: u8]]) s' = Some (rev [[1, 2], [3, 4], [5, 6]], s'') \<and>
     slice_inv s'' \<and> slice_elems s'' = slice_elems sample_slice"
  by (rule slice_stack) (simp_all add: sample_slice_ok slice_room_def PTRDIFF_LIMIT_def, simp add: ample_memory_def)

text \<open>
  Insertion followed by erasure at the same index is the identity on the contents: a
  successful \<^verbatim>\<open>slice_insert\<close> puts the element at the index and shifts the rest, and \<^verbatim>\<open>slice_erase\<close>
  gives that element back and restores the sequence.
\<close>

theorem slice_insert_erase:
  assumes inv: "slice_inv s" and len: "length e = unat (sl_element_size s)"
    and i: "i \<le> sl_size s" and ok: "slice_insert M (Some s) i (Some e) = (0, so')"
  shows "\<exists>s' s''. so' = Some s' \<and> slice_elems s' ! unat i = e \<and>
           slice_erase (Some s') i = (0, e, Some s'') \<and> slice_inv s'' \<and> slice_elems s'' = slice_elems s"
proof -
  have i': "unat i \<le> unat (sl_size s)" using i by (simp add: u64_ord)
  from slice_insert_ok [OF inv len i' ok] obtain s' where
    s': "so' = Some s'" "slice_inv s'"
        "slice_elems s' = take (unat i) (slice_elems s) @ e # drop (unat i) (slice_elems s)"
    by blast
  have "unat (sl_size s') = Suc (unat (sl_size s))"
    using arg_cong [OF s'(3), of length] i' by simp
  then have "unat i < unat (sl_size s')" using i' by simp
  from slice_erase_ok [OF s'(2) this] obtain s'' where
    s'': "slice_erase (Some s') i = (0, slice_elems s' ! unat i, Some s'')" "slice_inv s''"
         "slice_elems s'' = take (unat i) (slice_elems s') @ drop (Suc (unat i)) (slice_elems s')"
    by blast
  have "slice_elems s' ! unat i = e" using s'(3) i' by (simp add: nth_append)
  moreover have "slice_elems s'' = slice_elems s" using s''(3) i' by (simp add: s'(3))
  ultimately show ?thesis using s' s'' by auto
qed

theorem slice_insert_erase_witness:
  "\<exists>so' s' s''. slice_insert ample_memory (Some sample_slice) 0 (Some [7, 8]) = (0, so') \<and> so' = Some s' \<and>
     slice_elems s' ! unat (0 :: usize) = [7, 8] \<and> slice_erase (Some s') 0 = (0, [7, 8], Some s'') \<and>
     slice_inv s'' \<and> slice_elems s'' = slice_elems sample_slice"
proof -
  have "\<exists>so'. slice_insert ample_memory (Some sample_slice) 0 (Some [7, 8]) = (0, so')"
    by (simp add: slice_insert_def slice_ensure_def sample_slice_ok Let_def)
  then obtain so' where so': "slice_insert ample_memory (Some sample_slice) 0 (Some [7, 8]) = (0, so')" ..
  show ?thesis
    using slice_insert_erase [OF _ _ _ so'] so' by (simp add: sample_slice_ok)
qed

text \<open>
  \<^verbatim>\<open>slice_resize\<close> on success keeps the common prefix and fills the new places with the given
  default element, or with zero bytes when none is given.
\<close>

theorem slice_resize_contents:
  assumes "slice_inv s" "unat (sl_element_size s) * unat n < PTRDIFF_LIMIT"
    and "\<forall>w. v = Some w \<longrightarrow> length w = unat (sl_element_size s)"
    and "slice_resize M (Some s) n v = (0, so')"
  shows "\<exists>s'. so' = Some s' \<and> slice_inv s' \<and>
     slice_elems s' = take (unat n) (slice_elems s) @
       replicate (unat n - unat (sl_size s))
         (case v of Some w \<Rightarrow> w | None \<Rightarrow> replicate (unat (sl_element_size s)) 0)"
  using assms by (intro slice_resize_ok) auto

theorem slice_resize_contents_witness:
  "\<exists>so' s'. slice_resize ample_memory (Some sample_slice) 1 (Some [9, 9]) = (0, so') \<and> so' = Some s' \<and>
     slice_inv s' \<and> slice_elems s' = [[9, 9]]"
proof -
  have "\<exists>so'. slice_resize ample_memory (Some sample_slice) 1 (Some [9, 9]) = (0, so')"
    by (simp add: slice_resize_def slice_reserve_def sample_slice_ok Let_def)
  then obtain so' where so': "slice_resize ample_memory (Some sample_slice) 1 (Some [9, 9]) = (0, so')" ..
  show ?thesis
    using slice_resize_contents [OF _ _ _ so'] so' by (simp add: sample_slice_ok PTRDIFF_LIMIT_def)
qed

text \<open>
  Iteration: the loop of the foreach macro visits the addresses of the elements 0, 1, ...,
  size - 1 of the slice, each once and in order, and then stops.
\<close>

theorem slice_foreach_visits_all:
  assumes "slice_inv s"
  shows "slice_foreach (slice_iter_init s) =
         map (\<lambda>i. Some (i * unat (sl_element_size s))) [0..<unat (sl_size s)]"
  using slice_foreach_from [OF assms, of "slice_iter_init s"] by (simp add: slice_iter_init_def)

theorem slice_foreach_visits_all_witness:
  "slice_foreach (slice_iter_init (sample_slice\<lparr>sl_size := 1\<rparr>)) = [Some 0]"
  by (subst slice_foreach_visits_all)
    (simp_all add: sample_slice_def SLICE_def slice_init_def ample_memory_def c_malloc_def PTRDIFF_LIMIT_def
      slice_inv_def)

text \<open>
  \<^verbatim>\<open>slice_reserve\<close> multiplies the element size by the requested capacity in 64 bits without an
  overflow test: for elements of 8 bytes a request of 2^61 + 1 elements wraps to 8 bytes, the
  call reports success and records a capacity that the memory behind the slice does not have.
\<close>

theorem slice_reserve_wraps:
  "\<exists>s so' s'. slice_inv s \<and> slice_reserve ample_memory (Some s) (2 ^ 61 + 1) = (0, so') \<and> so' = Some s' \<and>
     unat (sl_capacity s') = 2 ^ 61 + 1 \<and> length (the (sl_data s')) = 8 \<and> \<not> slice_inv s'"
proof -
  let ?s = "SLICE ample_memory 8 1"
  have c: "sl_capacity ?s = 1" "sl_element_size ?s = 8" "\<exists>d. sl_data ?s = Some d \<and> length d = 8"
    by (simp_all add: SLICE_def slice_init_def ample_memory_def c_malloc_def PTRDIFF_LIMIT_def)
  have "slice_inv ?s"
    by (simp add: SLICE_def slice_init_def ample_memory_def c_malloc_def PTRDIFF_LIMIT_def slice_inv_def)
  moreover have "\<exists>s'. slice_reserve ample_memory (Some ?s) (2 ^ 61 + 1) = (0, Some s') \<and>
     unat (sl_capacity s') = 2 ^ 61 + 1 \<and> length (the (sl_data s')) = 8 \<and> \<not> slice_inv s'"
    using c by (auto simp: slice_reserve_def c_realloc_def ample_memory_def PTRDIFF_LIMIT_def slice_inv_def
        word_le_nat_alt)
  ultimately show ?thesis by blast
qed

end
