(* ===== verification/SliceRefine.thy ===== *)
theory SliceRefine
  imports Slice
begin

text \<open>
  The growable array of \<^verbatim>\<open>libv/src/slice.c\<close> as a whole: any sequence of calls, with any answers of the allocator, acts on
  the byte buffer as the corresponding list functions act on a list of elements, error codes included.
\<close>

section \<open>Calls\<close>

datatype slice_call =
    Push bytes
  | Pop
  | Get usize
  | Put usize bytes
  | Insert usize bytes
  | Erase usize
  | Resize usize "bytes option"
  | Reserve usize
  | Clear

text \<open>What a call returns (the status and the element handed out) and the slice after it.\<close>

fun slice_exec :: "allocator \<Rightarrow> slice_call \<Rightarrow> Slice option \<Rightarrow> (int \<times> bytes) \<times> Slice option" where
  "slice_exec M (Push e) so = (case slice_push_back M so (Some e) of (rc, so') \<Rightarrow> ((rc, []), so'))"
| "slice_exec M Pop so = (case slice_pop_back so of (rc, e, so') \<Rightarrow> ((rc, e), so'))"
| "slice_exec M (Get i) so = (case slice_get_copy so i (Some []) of (rc, out) \<Rightarrow> ((rc, case_option [] id out), so))"
| "slice_exec M (Put i e) so = (case slice_set so i (Some e) of (rc, so') \<Rightarrow> ((rc, []), so'))"
| "slice_exec M (Insert i e) so = (case slice_insert M so i (Some e) of (rc, so') \<Rightarrow> ((rc, []), so'))"
| "slice_exec M (Erase i) so = (case slice_erase so i of (rc, e, so') \<Rightarrow> ((rc, e), so'))"
| "slice_exec M (Resize n v) so = (case slice_resize M so n v of (rc, so') \<Rightarrow> ((rc, []), so'))"
| "slice_exec M (Reserve n) so = (case slice_reserve M so n of (rc, so') \<Rightarrow> ((rc, []), so'))"
| "slice_exec M Clear so = ((0, []), slice_clear so)"

text \<open>
  The same on a list of elements of \<open>k\<close> bytes; \<open>granted\<close> says whether there is memory for the call, if it needs any.
\<close>

fun list_exec :: "nat \<Rightarrow> bool \<Rightarrow> slice_call \<Rightarrow> bytes list \<Rightarrow> (int \<times> bytes) \<times> bytes list" where
  "list_exec k granted (Push e) xs = (if granted then ((0, []), xs @ [e]) else ((-1, []), xs))"
| "list_exec k granted Pop xs = (if xs = [] then ((-1, []), xs) else ((0, last xs), butlast xs))"
| "list_exec k granted (Get i) xs = (if unat i < length xs then ((0, xs ! unat i), xs) else ((-1, []), xs))"
| "list_exec k granted (Put i e) xs = (if unat i < length xs then ((0, []), xs[unat i := e]) else ((-1, []), xs))"
| "list_exec k granted (Insert i e) xs =
     (if unat i \<le> length xs \<and> granted then ((0, []), take (unat i) xs @ e # drop (unat i) xs) else ((-1, []), xs))"
| "list_exec k granted (Erase i) xs =
     (if unat i < length xs then ((0, xs ! unat i), take (unat i) xs @ drop (Suc (unat i)) xs) else ((-1, []), xs))"
| "list_exec k granted (Resize n v) xs =
     (if granted then ((0, []), take (unat n) xs @ replicate (unat n - length xs) (case v of Some w \<Rightarrow> w | None \<Rightarrow> replicate k 0))
      else ((-1, []), xs))"
| "list_exec k granted (Reserve n) xs = (if granted then ((0, []), xs) else ((-1, []), xs))"
| "list_exec k granted Clear xs = ((0, []), [])"

text \<open>
  Elements have the width of the slice's elements, and the sizes asked for are sizes of memory there can be (without
  which \<open>slice_reserve\<close> goes wrong).
\<close>

fun call_ok :: "nat \<Rightarrow> slice_call \<Rightarrow> bool" where
  "call_ok k (Push e) \<longleftrightarrow> length e = k"
| "call_ok k (Put i e) \<longleftrightarrow> length e = k"
| "call_ok k (Insert i e) \<longleftrightarrow> length e = k"
| "call_ok k (Resize n v) \<longleftrightarrow> k * unat n < PTRDIFF_LIMIT \<and> (\<forall>w. v = Some w \<longrightarrow> length w = k)"
| "call_ok k (Reserve n) \<longleftrightarrow> k * unat n < PTRDIFF_LIMIT"
| "call_ok k _ \<longleftrightarrow> True"

text \<open>
  Memory cannot be refused for lack of address space while twice the elements fit; a call that needs no memory is
  never refused.
\<close>

fun list_room :: "nat \<Rightarrow> slice_call \<Rightarrow> bytes list \<Rightarrow> bool" where
  "list_room k (Push e) xs \<longleftrightarrow> 2 * Suc (length xs) * k < PTRDIFF_LIMIT"
| "list_room k (Insert i e) xs \<longleftrightarrow> 2 * Suc (length xs) * k < PTRDIFF_LIMIT"
| "list_room k _ xs \<longleftrightarrow> True"

definition list_step :: "nat \<Rightarrow> allocator \<Rightarrow> slice_call \<Rightarrow> bytes list \<Rightarrow> int \<times> bytes \<Rightarrow> bytes list \<Rightarrow> bool" where
  "list_step k M c xs r ys \<longleftrightarrow>
     (\<exists>granted. (alloc_ok M \<and> list_room k c xs \<longrightarrow> granted) \<and> list_exec k granted c xs = (r, ys))"

text \<open>Runs of calls, each with the allocator as it finds it.\<close>

fun slice_run :: "(allocator \<times> slice_call) list \<Rightarrow> Slice option \<Rightarrow> (int \<times> bytes) list \<times> Slice option" where
  "slice_run [] so = ([], so)"
| "slice_run ((M, c) # cs) so =
     (case slice_exec M c so of (r, so') \<Rightarrow> case slice_run cs so' of (rs, so'') \<Rightarrow> (r # rs, so''))"

inductive list_run :: "nat \<Rightarrow> (allocator \<times> slice_call) list \<Rightarrow> bytes list \<Rightarrow> (int \<times> bytes) list \<Rightarrow> bytes list \<Rightarrow> bool"
  for k where
  list_run_Nil: "list_run k [] xs [] xs"
| list_run_Cons: "list_step k M c xs r ys \<Longrightarrow> list_run k cs ys rs zs \<Longrightarrow> list_run k ((M, c) # cs) xs (r # rs) zs"

section \<open>Each call\<close>

definition implements :: "nat \<Rightarrow> Slice option \<Rightarrow> bytes list \<Rightarrow> bool" where
  "implements k so xs \<longleftrightarrow>
     (\<exists>s. so = Some s \<and> slice_inv s \<and> unat (sl_element_size s) = k \<and> slice_elems s = xs)"

lemma implementsI: "slice_inv s \<Longrightarrow> unat (sl_element_size s) = k \<Longrightarrow> slice_elems s = xs \<Longrightarrow> implements k (Some s) xs"
  by (simp add: implements_def)

lemma implementsE:
  assumes "implements k so xs"
  obtains s where "so = Some s" "slice_inv s" "unat (sl_element_size s) = k" "slice_elems s = xs"
    "unat (sl_size s) = length xs"
  using assms unfolding implements_def by (metis length_slice_elems)

lemma slice_ensure_refused:
  assumes inv: "slice_inv s" and refused: "slice_ensure M s = (rc, t)" "rc \<noteq> 0" and mem: "alloc_ok M"
  shows "\<not> 2 * Suc (unat (sl_size s)) * unat (sl_element_size s) < PTRDIFF_LIMIT"
proof
  assume fits: "2 * Suc (unat (sl_size s)) * unat (sl_element_size s) < PTRDIFF_LIMIT"
  have "sl_capacity s \<le> sl_size s" using refused by (simp add: slice_ensure_def split: if_splits)
  then have "max (unat (sl_capacity s)) (2 * (unat (sl_size s) + Suc 0)) = 2 * Suc (unat (sl_size s))"
    by (simp add: u64_ord)
  then have "slice_room M (Suc 0) s" using fits mem by (simp add: slice_room_def)
  then show False using slice_ensure_total [OF inv] refused by fastforce
qed

lemma slice_grow_element_size: "slice_grow M s = (rc, t) \<Longrightarrow> sl_element_size t = sl_element_size s"
  by (auto simp: slice_grow_def Let_def split: option.splits)

lemma slice_ensure_element_size: "slice_ensure M s = (rc, t) \<Longrightarrow> sl_element_size t = sl_element_size s"
  by (auto simp: slice_ensure_def dest: slice_grow_element_size split: if_splits)

lemma slice_fill_element_size [simp]: "sl_element_size (slice_fill v idx s) = sl_element_size s"
proof (induction idx arbitrary: s)
  case (Cons i idx)
  then show ?case by (simp add: slice_fill_def)
qed (simp add: slice_fill_def)

text \<open>A refused call leaves the slice as it was and there was no memory for it.\<close>

lemma slice_push_refused:
  assumes "slice_inv s" "slice_push_back M (Some s) (Some e) = (rc, so')" "rc \<noteq> 0"
  shows "rc = -1 \<and> so' = Some s \<and>
    \<not> (alloc_ok M \<and> 2 * Suc (unat (sl_size s)) * unat (sl_element_size s) < PTRDIFF_LIMIT)"
proof -
  obtain rc' t where en: "slice_ensure M s = (rc', t)" by fastforce
  with assms(2,3) have "rc' \<noteq> 0" by (auto simp: slice_push_back_def)
  then show ?thesis using slice_push_back_fail [OF assms(2,3)] slice_ensure_refused [OF assms(1) en] by blast
qed

lemma slice_insert_refused:
  assumes "slice_inv s" "slice_insert M (Some s) i (Some e) = (rc, so')" "rc \<noteq> 0" "unat i \<le> unat (sl_size s)"
  shows "rc = -1 \<and> so' = Some s \<and>
    \<not> (alloc_ok M \<and> 2 * Suc (unat (sl_size s)) * unat (sl_element_size s) < PTRDIFF_LIMIT)"
proof -
  obtain rc' t where en: "slice_ensure M s = (rc', t)" by fastforce
  have i: "\<not> sl_size s < i" using assms(4) by (simp add: u64_ord)
  have rc': "rc' \<noteq> 0" using assms(2,3) en i by (auto simp: slice_insert_def Let_def)
  then have "rc = -1 \<and> so' = Some t" using assms(2) en i by (simp add: slice_insert_def)
  then show ?thesis using slice_ensure_fail [OF en rc'] slice_ensure_refused [OF assms(1) en rc'] by blast
qed

lemma slice_reserve_refused:
  assumes inv: "slice_inv s" and r: "slice_reserve M (Some s) n = (rc, so')" "rc \<noteq> 0"
    and fit: "unat (sl_element_size s) * unat n < PTRDIFF_LIMIT"
  shows "rc = -1 \<and> so' = Some s \<and> \<not> alloc_ok M"
proof -
  from inv obtain d where d: "sl_data s = Some d" "0 < unat (sl_element_size s)" by (rule slice_invE)
  have n: "sl_capacity s < n" using r by (auto simp: slice_reserve_def split: if_splits)
  then have "0 < unat n" by (simp add: u64_ord)
  moreover have en: "unat (sl_element_size s * n) = unat (sl_element_size s) * unat n"
    using fit by (intro unat_mult_u64) (simp add: PTRDIFF_LIMIT_def)
  ultimately have "sl_element_size s * n \<noteq> 0" using d(2) by (metis mult_is_0 neq0_conv unat_0)
  then show ?thesis
    using r n d fit en by (auto simp: slice_reserve_def c_realloc_def split: option.splits if_splits)
qed

lemma slice_reserve_cases:
  obtains rc t where "slice_reserve M (Some s) n = (rc, Some t)" "sl_element_size t = sl_element_size s"
  using that by (cases "slice_reserve M (Some s) n") (auto simp: slice_reserve_def split: option.splits if_splits)

lemma slice_resize_refused:
  assumes "slice_inv s" "slice_resize M (Some s) n v = (rc, so')" "rc \<noteq> 0"
    and "unat (sl_element_size s) * unat n < PTRDIFF_LIMIT"
  shows "rc = -1 \<and> so' = Some s \<and> \<not> alloc_ok M"
proof (cases "sl_capacity s < n")
  case True
  obtain rc' t where r: "slice_reserve M (Some s) n = (rc', Some t)" by (rule slice_reserve_cases)
  have rc': "rc' \<noteq> 0" using assms(2,3) True r by (auto simp: slice_resize_def)
  note slice_reserve_refused [OF assms(1) r rc' assms(4)]
  then show ?thesis using assms(2) True r by (auto simp: slice_resize_def)
next
  case False
  then show ?thesis using assms(2,3) by (simp add: slice_resize_def)
qed

text \<open>Whether a call succeeds or not, the width of the elements stays.\<close>

lemma slice_resize_element_size:
  "slice_resize M (Some s) n v = (rc, Some t) \<Longrightarrow> sl_element_size t = sl_element_size s"
  by (rule slice_reserve_cases [of M s n]) (auto simp: slice_resize_def split: if_splits)

lemma slice_insert_element_size:
  "slice_insert M (Some s) i (Some e) = (rc, Some t) \<Longrightarrow> sl_element_size t = sl_element_size s"
  by (auto simp: slice_insert_def Let_def dest: slice_ensure_element_size split: prod.splits if_splits)

lemma slice_erase_element_size:
  "slice_erase (Some s) i = (rc, e, Some t) \<Longrightarrow> sl_element_size t = sl_element_size s"
  by (auto simp: slice_erase_def Let_def split: if_splits)

lemma slice_set_element_size:
  "slice_set (Some s) i (Some e) = (rc, Some t) \<Longrightarrow> sl_element_size t = sl_element_size s"
  by (auto simp: slice_set_def split: if_splits)

lemmas element_size_kept = slice_resize_element_size slice_insert_element_size slice_erase_element_size
  slice_set_element_size

text \<open>One call: if there was memory, with its effect, and if not, with none.\<close>

lemma refinesI:
  assumes "list_exec k granted c xs = (r, ys)" "alloc_ok M \<and> list_room k c xs \<Longrightarrow> granted"
    "so' = Some s'" "slice_inv s'" "unat (sl_element_size s') = k" "slice_elems s' = ys"
  shows "\<exists>ys. list_step k M c xs r ys \<and> implements k so' ys"
  using assms unfolding list_step_def implements_def by blast

lemma push_refines:
  assumes "implements k so xs" "length e = k" "slice_exec M (Push e) so = (r, so')"
  shows "\<exists>ys. list_step k M (Push e) xs r ys \<and> implements k so' ys"
proof -
  from assms(1) obtain s where s: "so = Some s" "slice_inv s" "unat (sl_element_size s) = k" "slice_elems s = xs"
    "unat (sl_size s) = length xs" by (rule implementsE)
  obtain rc so'' where p: "slice_push_back M (Some s) (Some e) = (rc, so'')" by fastforce
  with assms(3) s(1) have r: "r = (rc, [])" "so' = so''" by simp_all
  have len: "length e = unat (sl_element_size s)" using assms(2) s(3) by simp
  show ?thesis
  proof (cases "rc = 0")
    case True
    from slice_push_back_ok [OF s(2) len p [unfolded True]] obtain s' where s': "so' = Some s'" "slice_inv s'"
      "sl_element_size s' = sl_element_size s" "slice_elems s' = xs @ [e]" using r s(4) by blast
    show ?thesis by (rule refinesI [OF _ _ s'(1,2) _ s'(4), where granted = True]) (simp_all add: True r s s')
  next
    case False
    note no = slice_push_refused [OF s(2) p False]
    show ?thesis by (rule refinesI [OF _ _ _ s(2-4), where granted = False]) (use no r s in simp_all)
  qed
qed

lemma pop_refines:
  assumes "implements k so xs" "slice_exec M Pop so = (r, so')"
  shows "\<exists>ys. list_step k M Pop xs r ys \<and> implements k so' ys"
proof -
  from assms(1) obtain s where s: "so = Some s" "slice_inv s" "unat (sl_element_size s) = k" "slice_elems s = xs"
    "unat (sl_size s) = length xs" by (rule implementsE)
  show ?thesis
  proof (cases "xs = []")
    case True
    then have "sl_size s = 0" using s(5) by (simp add: unat_eq_zero)
    then have "r = (-1, [])" "so' = Some s" using assms(2) s(1) by (simp_all add: slice_pop_back_def)
    then show ?thesis using True by (intro refinesI [OF _ _ _ s(2-4), where granted = True]) simp_all
  next
    case False
    with slice_pop_back_ok [OF s(2)] obtain s' where s': "slice_pop_back (Some s) = (0, last xs, Some s')" "slice_inv s'"
      "sl_element_size s' = sl_element_size s" "slice_elems s' = butlast xs" unfolding s(4) by blast
    then have "r = (0, last xs)" "so' = Some s'" using assms(2) s(1) by simp_all
    then show ?thesis using False s(3) s'(3) by (intro refinesI [OF _ _ _ s'(2) _ s'(4), where granted = True]) simp_all
  qed
qed

lemma get_refines:
  assumes "implements k so xs" "slice_exec M (Get i) so = (r, so')"
  shows "\<exists>ys. list_step k M (Get i) xs r ys \<and> implements k so' ys"
proof -
  from assms(1) obtain s where s: "so = Some s" "slice_inv s" "unat (sl_element_size s) = k" "slice_elems s = xs"
    "unat (sl_size s) = length xs" by (rule implementsE)
  have "list_exec k True (Get i) xs = (r, xs)"
  proof (cases "unat i < length xs")
    case True
    then have "slice_get_copy (Some s) i (Some []) = (0, Some (xs ! unat i))" using slice_get_copy_ok [OF s(2)] s(4,5) by simp
    then show ?thesis using assms(2) s(1) True by simp
  next
    case False
    then have "slice_get_copy (Some s) i (Some []) = (-1, Some [])" using s(5) by (simp add: slice_get_copy_def u64_ord)
    then show ?thesis using assms(2) s(1) False by simp
  qed
  moreover have "so' = Some s" using assms(2) s(1) by (simp split: prod.splits)
  ultimately show ?thesis by (intro refinesI [OF _ _ _ s(2-4), where granted = True]) simp_all
qed

lemma put_refines:
  assumes "implements k so xs" "length e = k" "slice_exec M (Put i e) so = (r, so')"
  shows "\<exists>ys. list_step k M (Put i e) xs r ys \<and> implements k so' ys"
proof -
  from assms(1) obtain s where s: "so = Some s" "slice_inv s" "unat (sl_element_size s) = k" "slice_elems s = xs"
    "unat (sl_size s) = length xs" by (rule implementsE)
  have len: "length e = unat (sl_element_size s)" using assms(2) s(3) by simp
  show ?thesis
  proof (cases "unat i < length xs")
    case True
    with slice_set_ok [OF s(2) len, of i] s(4,5) obtain s' where s': "slice_set (Some s) i (Some e) = (0, Some s')"
      "slice_inv s'" "slice_elems s' = xs[unat i := e]" by auto
    then have "r = (0, [])" "so' = Some s'" using assms(3) s(1) by simp_all
    then show ?thesis
      using True s(3) element_size_kept(4) [OF s'(1)] by (intro refinesI [OF _ _ _ s'(2) _ s'(3), where granted = True]) simp_all
  next
    case False
    then have "r = (-1, [])" "so' = Some s" using assms(3) s by (simp_all add: slice_set_def u64_ord)
    then show ?thesis using False by (intro refinesI [OF _ _ _ s(2-4), where granted = True]) simp_all
  qed
qed

lemma erase_refines:
  assumes "implements k so xs" "slice_exec M (Erase i) so = (r, so')"
  shows "\<exists>ys. list_step k M (Erase i) xs r ys \<and> implements k so' ys"
proof -
  from assms(1) obtain s where s: "so = Some s" "slice_inv s" "unat (sl_element_size s) = k" "slice_elems s = xs"
    "unat (sl_size s) = length xs" by (rule implementsE)
  show ?thesis
  proof (cases "unat i < length xs")
    case True
    with slice_erase_ok [OF s(2), of i] s(4,5) obtain s' where s': "slice_erase (Some s) i = (0, xs ! unat i, Some s')"
      "slice_inv s'" "slice_elems s' = take (unat i) xs @ drop (Suc (unat i)) xs" by auto
    then have "r = (0, xs ! unat i)" "so' = Some s'" using assms(2) s(1) by simp_all
    then show ?thesis
      using True s(3) element_size_kept(3) [OF s'(1)] by (intro refinesI [OF _ _ _ s'(2) _ s'(3), where granted = True]) simp_all
  next
    case False
    then have "r = (-1, [])" "so' = Some s" using assms(2) s by (simp_all add: slice_erase_def u64_ord)
    then show ?thesis using False by (intro refinesI [OF _ _ _ s(2-4), where granted = True]) simp_all
  qed
qed

lemma insert_refines:
  assumes "implements k so xs" "length e = k" "slice_exec M (Insert i e) so = (r, so')"
  shows "\<exists>ys. list_step k M (Insert i e) xs r ys \<and> implements k so' ys"
proof -
  from assms(1) obtain s where s: "so = Some s" "slice_inv s" "unat (sl_element_size s) = k" "slice_elems s = xs"
    "unat (sl_size s) = length xs" by (rule implementsE)
  obtain rc so'' where p: "slice_insert M (Some s) i (Some e) = (rc, so'')" by fastforce
  with assms(3) s(1) have r: "r = (rc, [])" "so' = so''" by simp_all
  have len: "length e = unat (sl_element_size s)" using assms(2) s(3) by simp
  show ?thesis
  proof (cases "unat i \<le> unat (sl_size s)")
    case le: True
    show ?thesis
    proof (cases "rc = 0")
      case True
      from slice_insert_ok [OF s(2) len le p [unfolded True]] obtain s' where s': "so' = Some s'" "slice_inv s'"
        "slice_elems s' = take (unat i) xs @ e # drop (unat i) xs" using r s(4) by blast
      with p r have "sl_element_size s' = sl_element_size s" by (simp add: element_size_kept(2))
      then show ?thesis
        using True le r s by (intro refinesI [OF _ _ s'(1,2) _ s'(3), where granted = True]) simp_all
    next
      case False
      note no = slice_insert_refused [OF s(2) p False le]
      show ?thesis by (rule refinesI [OF _ _ _ s(2-4), where granted = False]) (use no r s in simp_all)
    qed
  next
    case False
    then have "r = (-1, [])" "so' = Some s" using assms(3) s(1) by (simp_all add: slice_insert_def u64_ord)
    then show ?thesis using False s(5) by (intro refinesI [OF _ _ _ s(2-4), where granted = True]) simp_all
  qed
qed

lemma resize_refines:
  assumes "implements k so xs" "call_ok k (Resize n v)" "slice_exec M (Resize n v) so = (r, so')"
  shows "\<exists>ys. list_step k M (Resize n v) xs r ys \<and> implements k so' ys"
proof -
  from assms(1) obtain s where s: "so = Some s" "slice_inv s" "unat (sl_element_size s) = k" "slice_elems s = xs"
    "unat (sl_size s) = length xs" by (rule implementsE)
  obtain rc so'' where p: "slice_resize M (Some s) n v = (rc, so'')" by fastforce
  with assms(3) s(1) have r: "r = (rc, [])" "so' = so''" by simp_all
  have fit: "unat (sl_element_size s) * unat n < PTRDIFF_LIMIT"
    and v: "\<And>w. v = Some w \<Longrightarrow> length w = unat (sl_element_size s)" using assms(2) s(3) by simp_all
  show ?thesis
  proof (cases "rc = 0")
    case True
    from slice_resize_ok [OF s(2) fit v p [unfolded True]] obtain s' where s': "so' = Some s'" "slice_inv s'"
      "slice_elems s' = take (unat n) xs @
         replicate (unat n - length xs) (case v of Some w \<Rightarrow> w | None \<Rightarrow> replicate k 0)"
      unfolding s(3-5) r(2) by blast
    with p r have "sl_element_size s' = sl_element_size s" by (simp add: element_size_kept(1))
    then show ?thesis
      using True r s by (intro refinesI [OF _ _ s'(1,2) _ s'(3), where granted = True]) simp_all
  next
    case False
    note no = slice_resize_refused [OF s(2) p False fit]
    show ?thesis by (rule refinesI [OF _ _ _ s(2-4), where granted = False]) (use no r s in simp_all)
  qed
qed

lemma reserve_refines:
  assumes "implements k so xs" "call_ok k (Reserve n)" "slice_exec M (Reserve n) so = (r, so')"
  shows "\<exists>ys. list_step k M (Reserve n) xs r ys \<and> implements k so' ys"
proof -
  from assms(1) obtain s where s: "so = Some s" "slice_inv s" "unat (sl_element_size s) = k" "slice_elems s = xs"
    "unat (sl_size s) = length xs" by (rule implementsE)
  obtain rc so'' where p: "slice_reserve M (Some s) n = (rc, so'')" by fastforce
  with assms(3) s(1) have r: "r = (rc, [])" "so' = so''" by simp_all
  have fit: "unat (sl_element_size s) * unat n < PTRDIFF_LIMIT" using assms(2) s(3) by simp
  show ?thesis
  proof (cases "rc = 0")
    case True
    from slice_reserve_ok [OF s(2) fit p [unfolded True]] obtain s' where s': "so' = Some s'" "slice_inv s'"
      "slice_elems s' = xs" "sl_element_size s' = sl_element_size s" unfolding s(4) r(2) by blast
    then show ?thesis
      using True r s by (intro refinesI [OF _ _ s'(1,2) _ s'(3), where granted = True]) simp_all
  next
    case False
    note no = slice_reserve_refused [OF s(2) p False fit]
    show ?thesis by (rule refinesI [OF _ _ _ s(2-4), where granted = False]) (use no r s in simp_all)
  qed
qed

lemma clear_refines:
  assumes "implements k so xs" "slice_exec M Clear so = (r, so')"
  shows "\<exists>ys. list_step k M Clear xs r ys \<and> implements k so' ys"
proof -
  from assms(1) obtain s where s: "so = Some s" "slice_inv s" "unat (sl_element_size s) = k" "slice_elems s = xs"
    "unat (sl_size s) = length xs" by (rule implementsE)
  have "slice_inv (s\<lparr>sl_size := 0\<rparr>)" using s(2) by (rule slice_inv_size) simp
  then show ?thesis
    using assms(2) s(1,3)
    by (intro refinesI [where granted = True and s' = "s\<lparr>sl_size := 0\<rparr>"])
       (auto simp: slice_clear_def slice_elems_def)
qed

lemma call_refines:
  assumes "implements k so xs" "call_ok k c" "slice_exec M c so = (r, so')"
  shows "\<exists>ys. list_step k M c xs r ys \<and> implements k so' ys"
proof (cases c)
  case (Push e)
  then show ?thesis using push_refines assms by simp
next
  case Pop
  then show ?thesis using pop_refines [OF assms(1)] assms(3) by simp
next
  case (Get i)
  then show ?thesis using get_refines [OF assms(1)] assms(3) by blast
next
  case (Put i e)
  then show ?thesis using put_refines assms by simp
next
  case (Insert i e)
  then show ?thesis using insert_refines assms by simp
next
  case (Erase i)
  then show ?thesis using erase_refines [OF assms(1)] assms(3) by simp
next
  case (Resize n v)
  then show ?thesis using resize_refines assms by blast
next
  case (Reserve n)
  then show ?thesis using reserve_refines assms by blast
next
  case Clear
  then show ?thesis using clear_refines [OF assms(1)] assms(3) by simp
qed

section \<open>Any sequence of calls\<close>

lemma run_refines:
  "implements k so xs \<Longrightarrow> \<forall>(M, c) \<in> set cs. call_ok k c \<Longrightarrow> slice_run cs so = (rs, so') \<Longrightarrow>
   \<exists>ys. list_run k cs xs rs ys \<and> implements k so' ys"
proof (induction cs arbitrary: so xs rs)
  case Nil
  then show ?case by (auto intro: list_run_Nil)
next
  case (Cons Mc cs)
  obtain M c where Mc: "Mc = (M, c)" by fastforce
  obtain r t where r: "slice_exec M c so = (r, t)" by fastforce
  obtain rs' where rs': "rs = r # rs'" "slice_run cs t = (rs', so')"
    using Cons.prems(3) Mc r by (auto split: prod.splits)
  obtain ys where ys: "list_step k M c xs r ys" "implements k t ys"
    using call_refines [OF Cons.prems(1) _ r] Cons.prems(2) Mc by auto
  with Cons.IH [OF ys(2) _ rs'(2)] Cons.prems(2) show ?case
    unfolding Mc rs'(1) by (auto intro: list_run_Cons)
qed

lemma created_implements:
  assumes "slice_create Ms M es cap = Some s"
    and "unat es * unat (if cap = 0 then SLICE_DEFAULT_CAPACITY else cap) < PTRDIFF_LIMIT"
  shows "implements (unat es) (Some s) []"
proof -
  have "slice_init M slice_zero es cap = (0, s)" "0 < es"
    using assms(1) by (auto simp: slice_create_def word_neq_0_conv split: if_splits prod.splits)
  then show ?thesis using slice_init_ok [OF _ _ assms(2)] by (simp add: implements_def)
qed

text \<open>
  C12. The growable array is a list. After \<^verbatim>\<open>slice_create\<close>, whatever calls are made (push, pop, get, set, insert, erase,
  resize, reserve, clear) with any indices, in whatever order, and whatever the allocator answers each time, every
  call returns the code and the element that the corresponding function on a list of elements gives and leaves the
  bytes of that list; a call that is refused changes nothing and there was no memory for it, or twice the elements
  no longer fit the address space; and the buffer invariant holds throughout.
\<close>

theorem slice_refines_list:
  assumes "slice_create Ms M es cap = Some s"
    and "unat es * unat (if cap = 0 then SLICE_DEFAULT_CAPACITY else cap) < PTRDIFF_LIMIT"
    and "\<forall>(M, c) \<in> set cs. call_ok (unat es) c"
  shows "\<exists>rs s'. slice_run cs (Some s) = (rs, Some s') \<and> slice_inv s' \<and> list_run (unat es) cs [] rs (slice_elems s')"
proof -
  obtain rs so' where r: "slice_run cs (Some s) = (rs, so')" by fastforce
  show ?thesis using run_refines [OF created_implements [OF assms(1,2)] assms(3) r] r unfolding implements_def by blast
qed

definition sample_calls :: "(allocator \<times> slice_call) list" where
  "sample_calls = (let full = ample_memory\<lparr>alloc_ok := False\<rparr> in
     [(ample_memory, Push [1, 2]), (full, Push [3, 4]), (ample_memory, Insert 0 [3, 4]), (full, Get 0),
      (full, Put 1 [5, 6]), (ample_memory, Resize 3 None), (full, Erase 0), (full, Pop), (full, Get 1)])"

theorem slice_refines_list_witness:
  "\<exists>rs s'. slice_run sample_calls (Some sample_slice) = (rs, Some s') \<and> slice_inv s' \<and>
     list_run (unat (2 :: u64)) sample_calls [] rs (slice_elems s')"
proof (rule slice_refines_list)
  show "slice_create ample_memory ample_memory 2 1 = Some sample_slice"
    by (simp add: slice_create_def sample_slice_def SLICE_def slice_init_def ample_memory_def c_malloc_def PTRDIFF_LIMIT_def)
qed (simp_all add: PTRDIFF_LIMIT_def sample_calls_def Let_def)

end
