(* ===== verification/Hash.thy ===== *)
theory Hash
  imports Prelude
begin

text \<open>
  The hash functions of \<^verbatim>\<open>libv/src/hash.c\<close>: the two murmur finalisers, the djb2 string hash, the
  block checksum of the storage layer and the key hashes and comparisons of the hash map. A
  C string is the byte list before its terminating NUL; \<^verbatim>\<open>char\<close> is signed, as on the supported
  targets, so a byte is sign-extended when it enters the arithmetic.
\<close>

unbundle bit_operations_syntax

section \<open>Hash functions\<close>

definition murmurhash32 :: "u32 \<Rightarrow> u64" where
  "murmurhash32 x0 =
     (let x1 = x0 XOR drop_bit 16 x0;
          x2 = x1 * 0x85ebca6b;
          x3 = x2 XOR drop_bit 13 x2;
          x4 = x3 * 0xc2b2ae35;
          x5 = x4 XOR drop_bit 16 x4
      in ucast x5)"

definition murmurhash64 :: "u64 \<Rightarrow> u64" where
  "murmurhash64 x0 =
     (let x1 = x0 XOR drop_bit 30 x0;
          x2 = x1 * 0xbf58476d1ce4e5b9;
          x3 = x2 XOR drop_bit 27 x2;
          x4 = x3 * 0x94d049bb133111eb;
          x5 = x4 XOR drop_bit 31 x4
      in x5)"

definition hash :: "u64 \<Rightarrow> u64" where
  "hash val = murmurhash32 (ucast val)"

definition hash1 :: "bytes \<Rightarrow> usize \<Rightarrow> u64" where
  "hash1 val sz =
     foldl (\<lambda>h b. (push_bit 5 h + h) + scast b) 5381 (take (unat sz) val)"

definition hash_u8 :: "bytes \<Rightarrow> usize \<Rightarrow> u64" where
  "hash_u8 val sz = hash1 val sz"

definition checksum_words :: "bytes \<Rightarrow> nat \<Rightarrow> u64" where
  "checksum_words buffer n =
     foldl (\<lambda>result i. result XOR hash (bytes_word (mem_read (8 * i) 8 buffer))) 5381 [0..<n]"

definition checksum :: "bytes \<Rightarrow> usize \<Rightarrow> u64" where
  "checksum buffer sz =
     (let i = sz div 8;
          result = checksum_words buffer (unat i)
      in if 0 < sz - i * 8
         then result XOR hash_u8 (drop (unat (i * 8)) buffer) (sz - i * 8)
         else result)"

definition hmap_int_hash :: "u32 \<Rightarrow> u32" where
  "hmap_int_hash key = ucast (murmurhash32 key)"

definition hmap_int_cmp :: "u32 \<Rightarrow> u32 \<Rightarrow> int" where
  "hmap_int_cmp a b = of_bool (sint a > sint b) - of_bool (sint a < sint b)"

definition hmap_str_hash :: "bytes \<Rightarrow> u32" where
  "hmap_str_hash key =
     foldl (\<lambda>h c. (push_bit 5 h + h) + scast c) 5381 (takeWhile (\<lambda>c. c \<noteq> 0) key)"

text \<open>\<^verbatim>\<open>strcmp\<close>: the first difference, as unsigned characters, decides the sign.\<close>

fun strcmp :: "bytes \<Rightarrow> bytes \<Rightarrow> int" where
  "strcmp [] [] = 0"
| "strcmp [] (b # bs) = - 1"
| "strcmp (a # as) [] = 1"
| "strcmp (a # as) (b # bs) = (if a = b then strcmp as bs else if a < b then - 1 else 1)"

definition hmap_str_cmp :: "bytes \<Rightarrow> bytes \<Rightarrow> int" where
  "hmap_str_cmp a b = strcmp a b"

lemma strcmp_eq_0 [simp]: "strcmp a b = 0 \<longleftrightarrow> a = b"
  by (induction a b rule: strcmp.induct) auto

lemma hmap_str_cmp_eq_0 [simp]: "hmap_str_cmp a b = 0 \<longleftrightarrow> a = b"
  by (simp add: hmap_str_cmp_def)

lemma hmap_int_cmp_eq_0 [simp]: "hmap_int_cmp a b = 0 \<longleftrightarrow> a = b"
  by (auto simp: hmap_int_cmp_def dest!: signed_word_eqI)

section \<open>The 32-bit finaliser is a bijection\<close>

lemma xorshift_inj:
  assumes "LENGTH('a) \<le> 3 * n"
  shows "inj (\<lambda>x :: 'a::len word. x XOR drop_bit n x)"
proof (rule inj_on_inverseI [where g = "\<lambda>y. y XOR drop_bit n y XOR drop_bit (n + n) y"])
  fix x :: "'a word"
  have "drop_bit (n + (n + n)) x = 0"
    using assms by (intro bit_word_eqI) (auto simp: bit_simps dest: bit_imp_le_length)
  then show "(x XOR drop_bit n x) XOR drop_bit n (x XOR drop_bit n x) XOR
      drop_bit (n + n) (x XOR drop_bit n x) = x"
    by (simp add: drop_bit_xor ac_simps)
qed

lemma mult_unit_inj:
  assumes "c * d = (1 :: 'a::len word)"
  shows "inj (\<lambda>x. x * c)"
  by (rule inj_on_inverseI [where g = "\<lambda>y. y * d"]) (simp add: mult.assoc assms)

lemma murmurhash32_inj: "inj murmurhash32"
proof -
  let ?a = "\<lambda>x :: u32. x XOR drop_bit 16 x" and ?b = "\<lambda>x :: u32. x XOR drop_bit 13 x"
  have u: "inj (\<lambda>x :: u32. ucast x :: u64)"
    by (rule inj_on_inverseI [where g = ucast]) (rule bit_word_eqI, auto simp: bit_simps)
  have a: "inj ?a" and b: "inj ?b" by (simp_all add: xorshift_inj)
  have c: "inj (\<lambda>x :: u32. x * 0x85ebca6b)"
    by (rule mult_unit_inj [where d = 2781581891]) simp
  have d: "inj (\<lambda>x :: u32. x * 0xc2b2ae35)"
    by (rule mult_unit_inj [where d = 2127672349]) simp
  have eq: "murmurhash32 = (\<lambda>x :: u32. ucast x :: u64) \<circ> (?a \<circ> ((\<lambda>x. x * 0xc2b2ae35) \<circ>
      (?b \<circ> ((\<lambda>x. x * 0x85ebca6b) \<circ> ?a))))"
    by (simp add: fun_eq_iff murmurhash32_def Let_def)
  show ?thesis
    unfolding eq by (intro inj_compose u a b c d)
qed

section \<open>What the checksum detects\<close>

lemma unat_div_8: "unat (sz div 8 :: u64) = unat sz div 8"
  by (simp add: unat_div)

lemma unat_div_8_mult: "unat (sz div 8 * 8 :: u64) = 8 * (unat sz div 8)"
proof -
  have "unat sz div 8 * 8 < 18446744073709551616"
    using unat_lt_2p64 [of sz] div_times_less_eq_dividend [of "unat sz" 8] by linarith
  then show ?thesis
    by (subst unat_mult_u64) (simp_all add: unat_div_8)
qed

lemma checksum_aligned:
  "8 dvd unat sz \<Longrightarrow> checksum buf sz = checksum_words buf (unat sz div 8)"
proof -
  assume "8 dvd unat sz"
  then have "unat (sz div 8 * 8) = unat sz" by (simp add: unat_div_8_mult)
  then have "sz div 8 * 8 = sz" by (simp only: word_unat_eq_iff)
  then show ?thesis by (simp add: checksum_def Let_def unat_div_8)
qed

lemma checksum_congI:
  assumes "checksum_words a (unat sz div 8) = checksum_words b (unat sz div 8)"
    and "drop (8 * (unat sz div 8)) a = drop (8 * (unat sz div 8)) b"
  shows "checksum a sz = checksum b sz"
  using assms by (simp add: checksum_def Let_def unat_div_8 unat_div_8_mult)

lemma xor_cancel_left [simp]: "(a :: 'a::len word) XOR b = a XOR c \<longleftrightarrow> b = c"
proof
  assume "a XOR b = a XOR c"
  then have "a XOR (a XOR b) = a XOR (a XOR c)" by simp
  then show "b = c" by (simp add: xor.assoc [symmetric])
qed simp

lemma xor_cancel_right [simp]: "(b :: 'a::len word) XOR a = c XOR a \<longleftrightarrow> b = c"
  by (metis xor.commute xor_cancel_left)

lemma checksum_words_Suc:
  "checksum_words b (Suc n) = checksum_words b n XOR hash (bytes_word (mem_read (8 * n) 8 b))"
  by (simp add: checksum_words_def)

lemma checksum_words_cong:
  "(\<And>i. i < n \<Longrightarrow> hash (bytes_word (mem_read (8 * i) 8 a)) = hash (bytes_word (mem_read (8 * i) 8 b)))
   \<Longrightarrow> checksum_words a n = checksum_words b n"
  by (induction n) (simp_all add: checksum_words_Suc, simp add: checksum_words_def)

lemma checksum_words_differ:
  assumes "k < n" "hash (bytes_word (mem_read (8 * k) 8 a)) \<noteq> hash (bytes_word (mem_read (8 * k) 8 b))"
    and "\<And>i. i < n \<Longrightarrow> i \<noteq> k \<Longrightarrow> mem_read (8 * i) 8 a = mem_read (8 * i) 8 b"
  shows "checksum_words a n \<noteq> checksum_words b n"
  using assms
proof (induction n)
  case 0
  then show ?case by simp
next
  case (Suc n)
  show ?case
  proof (cases "k = n")
    case True
    then have "checksum_words a n = checksum_words b n"
      using Suc.prems by (intro checksum_words_cong) simp
    then show ?thesis using Suc.prems(2) True by (simp add: checksum_words_Suc)
  next
    case False
    then have "checksum_words a n \<noteq> checksum_words b n" using Suc by simp
    then show ?thesis using False Suc.prems(3) [of n] by (simp add: checksum_words_Suc)
  qed
qed

lemma hash_eq_iff: "hash v = hash w \<longleftrightarrow> (ucast v :: u32) = ucast w"
  using murmurhash32_inj by (auto simp: hash_def inj_eq)

lemma ucast_bytes_word: "(ucast (bytes_word bs :: u64) :: u32) = bytes_word (take 4 bs)"
  by (rule bit_word_eqI) (auto simp: bit_simps bit_bytes_word)

lemma hash_bytes_cong:
  "take 4 bs = take 4 cs \<Longrightarrow> hash (bytes_word bs) = hash (bytes_word cs)"
  by (simp add: hash_eq_iff ucast_bytes_word)

lemma checksum_low_half_differ:
  assumes "8 dvd unat sz" "unat sz \<le> length a" "unat sz \<le> length b" "k < unat sz div 8"
    and "mem_read (8 * k) 4 a \<noteq> mem_read (8 * k) 4 b"
    and "\<forall>i < unat sz div 8. i \<noteq> k \<longrightarrow> mem_read (8 * i) 8 a = mem_read (8 * i) 8 b"
  shows "checksum a sz \<noteq> checksum b sz"
proof -
  have "8 * k + 8 \<le> unat sz" using assms(1,4) by auto
  then have l: "length (mem_read (8 * k) 4 a) = 4" "length (mem_read (8 * k) 4 b) = 4"
    using assms(2,3) by (simp_all add: mem_read_def)
  have "bytes_word (mem_read (8 * k) 4 a) \<noteq> (bytes_word (mem_read (8 * k) 4 b) :: u32)"
  proof
    assume "bytes_word (mem_read (8 * k) 4 a) = (bytes_word (mem_read (8 * k) 4 b) :: u32)"
    then have "word_bytes (bytes_word (mem_read (8 * k) 4 a) :: u32) = word_bytes (bytes_word (mem_read (8 * k) 4 b) :: u32)"
      by simp
    then show False using assms(5) l by (simp add: word_bytes_bytes_word)
  qed
  then have "hash (bytes_word (mem_read (8 * k) 8 a)) \<noteq> hash (bytes_word (mem_read (8 * k) 8 b))"
    by (simp add: hash_eq_iff ucast_bytes_word mem_read_def)
  then show ?thesis
    unfolding checksum_aligned [OF assms(1)]
    using assms(4,6) by (intro checksum_words_differ) auto
qed

section \<open>Properties\<close>

text \<open>
  The checksum of a block of whole 64-bit words detects every change that is confined to one
  word and touches its low four bytes.
\<close>

theorem checksum_detects_low_half:
  assumes "8 dvd unat sz" "unat sz \<le> length a" "unat sz \<le> length b" "k < unat sz div 8"
    and "mem_read (8 * k) 4 a \<noteq> mem_read (8 * k) 4 b"
    and "\<forall>i < unat sz div 8. i \<noteq> k \<longrightarrow> mem_read (8 * i) 8 a = mem_read (8 * i) 8 b"
  shows "checksum a sz \<noteq> checksum b sz"
  using assms by (intro checksum_low_half_differ) auto

theorem checksum_detects_low_half_witness:
  "checksum [1, 2, 3, 4, 5, 6, 7, 8] 8 \<noteq> checksum [1, 2, 3, 9, 5, 6, 7, 8] 8"
  by (rule checksum_detects_low_half [where k = 0]) (simp_all add: mem_read_def)

text \<open>
  The checksum does not depend on the high four bytes of any 64-bit word: the word hash is
  applied to the value truncated to 32 bits. Two blocks that agree on the low halves of their
  words have the same checksum, however the other half of the data differs.
\<close>

theorem checksum_ignores_high_half:
  assumes "8 dvd unat sz"
    and "\<forall>i < unat sz div 8. mem_read (8 * i) 4 a = mem_read (8 * i) 4 b"
  shows "checksum a sz = checksum b sz"
  unfolding checksum_aligned [OF assms(1)]
  using assms(2) by (intro checksum_words_cong hash_bytes_cong) (simp add: mem_read_def)

theorem checksum_ignores_high_half_witness:
  "checksum [1, 2, 3, 4, 5, 6, 7, 8] 8 = checksum [1, 2, 3, 4, 0, 0, 0, 0] 8"
  by (rule checksum_ignores_high_half) (simp_all add: mem_read_def)

end
