(* ===== verification/FileBuffer.thy ===== *)
theory FileBuffer
  imports Hash
begin

text \<open>
  Files and file buffers: the \<^verbatim>\<open>FILE\<close> implementation of the \<^verbatim>\<open>FileHandle\<close> interface, the aligned
  \<^verbatim>\<open>FileBuffer\<close> with its leading checksum, and \<^verbatim>\<open>Block\<close> (\<^verbatim>\<open>src/storage/table/storage.c\<close>, lines 16
  to 208). A stream is its contents, its position and what has been handed to the operating
  system; the space on the medium bounds the contents, so writes may be short. The calls
  through the \<^verbatim>\<open>FileHandle\<close> table go to the only implementation there is.
\<close>

section \<open>Streams\<close>

record FILE =
  fl_data :: bytes
  fl_pos :: nat
  fl_flushed :: bytes
  fl_space :: nat

text \<open>
  The C library as the sources use it: \<^verbatim>\<open>fseek\<close> takes a signed offset and refuses a negative
  one, \<^verbatim>\<open>fread\<close> is short at the end of the file, \<^verbatim>\<open>fwrite\<close> past the end fills the gap with zero
  bytes and is short when the medium is full.
\<close>

definition fseek_set :: "FILE \<Rightarrow> usize \<Rightarrow> int \<times> FILE" where
  "fseek_set f loc = (if unat loc < PTRDIFF_LIMIT then (0, f\<lparr>fl_pos := unat loc\<rparr>) else (-1, f))"

definition fread :: "FILE \<Rightarrow> usize \<Rightarrow> bytes \<times> FILE" where
  "fread f n =
     (let got = mem_read (fl_pos f) (unat n) (fl_data f) in (got, f\<lparr>fl_pos := fl_pos f + length got\<rparr>))"

definition file_put :: "nat \<Rightarrow> bytes \<Rightarrow> bytes \<Rightarrow> bytes" where
  "file_put pos ys d = (if ys = [] then d else mem_write pos ys (d @ replicate (pos + length ys - length d) 0))"

definition fwrite :: "FILE \<Rightarrow> bytes \<Rightarrow> nat \<times> FILE" where
  "fwrite f ys =
     (let put = take (fl_space f - fl_pos f) ys
      in (length put, f\<lparr>fl_data := file_put (fl_pos f) put (fl_data f), fl_pos := fl_pos f + length put\<rparr>))"

definition fflush :: "FILE \<Rightarrow> FILE" where
  "fflush f = f\<lparr>fl_flushed := fl_data f\<rparr>"

text \<open>The conversion of a \<^verbatim>\<open>size_t\<close> count to the \<^verbatim>\<open>int\<close> the handle functions return.\<close>

definition c_int :: "nat \<Rightarrow> int" where
  "c_int n = sint (of_nat n :: 32 word)"

definition file_read :: "FILE \<Rightarrow> usize \<Rightarrow> int \<times> bytes \<times> FILE" where
  "file_read f sz = (case fread f sz of (got, f') \<Rightarrow> (c_int (length got), got, f'))"

definition file_read_at :: "FILE \<Rightarrow> usize \<Rightarrow> usize \<Rightarrow> int \<times> bytes \<times> FILE" where
  "file_read_at f sz location =
     (case fseek_set f location of
        (rc, f1) \<Rightarrow> if rc \<noteq> 0 then (-1, [], f1)
                  else (case fread f1 sz of (got, f2) \<Rightarrow> (c_int (length got), got, f2)))"

definition file_write :: "FILE \<Rightarrow> bytes \<Rightarrow> int \<times> FILE" where
  "file_write f ys = (case fwrite f ys of (n, f') \<Rightarrow> (c_int n, f'))"

definition file_write_at :: "FILE \<Rightarrow> bytes \<Rightarrow> usize \<Rightarrow> int \<times> FILE" where
  "file_write_at f ys location =
     (case fseek_set f location of
        (rc, f1) \<Rightarrow> if rc \<noteq> 0 then (-1, f1)
                  else (case fwrite f1 ys of (n, f2) \<Rightarrow> (c_int n, f2)))"

definition file_sync :: "FILE option \<Rightarrow> FILE option" where
  "file_sync fo = map_option fflush fo"

definition fileHandle_sync :: "FILE option \<Rightarrow> FILE option" where
  "fileHandle_sync fh = (case fh of None \<Rightarrow> None | Some f \<Rightarrow> file_sync (Some f))"

text \<open>
  Closing a stream hands its contents to the operating system; the stream is what it leaves there.
\<close>

definition file_free :: "FILE option \<Rightarrow> FILE option" where
  "file_free fo = map_option fflush fo"

definition create_filesystem_handle_from_FILE :: "allocator \<Rightarrow> FILE \<Rightarrow> FILE option" where
  "create_filesystem_handle_from_FILE M file = (if alloc_ok M then Some file else None)"

section \<open>File buffers\<close>

text \<open>
  \<open>fb_mem\<close> is the memory from \<^verbatim>\<open>internal_buf\<close> on; \<^verbatim>\<open>buffer\<close> starts 8 bytes later. The two
  pointer fields are the addresses the constructor computes.
\<close>

definition BLOCK_SIZE :: usize where "BLOCK_SIZE = 8192"
definition HEADER_SIZE :: usize where "HEADER_SIZE = 4096"
definition FILE_BUFFER_BLOCK_SIZE :: usize where "FILE_BUFFER_BLOCK_SIZE = 4096"
definition FILE_BUFFER_HEADER_SIZE :: usize where "FILE_BUFFER_HEADER_SIZE = 8"
definition SIZEOF_FileBuffer :: usize where "SIZEOF_FileBuffer = 32"

lemmas storage_sizes = BLOCK_SIZE_def HEADER_SIZE_def FILE_BUFFER_BLOCK_SIZE_def
  FILE_BUFFER_HEADER_SIZE_def SIZEOF_FileBuffer_def

lemma unat_storage_sizes [simp]:
  "unat BLOCK_SIZE = 8192" "unat HEADER_SIZE = 4096" "unat FILE_BUFFER_BLOCK_SIZE = 4096"
  "unat FILE_BUFFER_HEADER_SIZE = 8" "unat SIZEOF_FileBuffer = 32"
  by (simp_all add: storage_sizes)

record FileBuffer =
  fb_size :: usize
  fb_internal_buf :: u64
  fb_internal_size :: usize
  fb_buffer :: u64
  fb_mem :: bytes

text \<open>The size of the block asked for: the structure, the area and what its alignment may take.\<close>

definition FileBuffer_total_size :: "usize \<Rightarrow> usize" where
  "FileBuffer_total_size bufsiz = SIZEOF_FileBuffer + bufsiz + (FILE_BUFFER_BLOCK_SIZE - 1)"

text \<open>The area holds the bytes of the block from the aligned address on, as \<^verbatim>\<open>memset\<close> left them.\<close>

definition FileBuffer_create :: "allocator \<Rightarrow> usize \<Rightarrow> FileBuffer option" where
  "FileBuffer_create M bufsiz =
     (let total_size = FileBuffer_total_size bufsiz
      in case c_malloc M total_size of
           None \<Rightarrow> None
         | Some mem \<Rightarrow>
             (let buf_ptr = alloc_addr M;
                  base_ptr = buf_ptr + SIZEOF_FileBuffer;
                  rem = base_ptr mod FILE_BUFFER_BLOCK_SIZE;
                  offset = (if rem = 0 then 0 else FILE_BUFFER_BLOCK_SIZE - rem)
              in if offset + bufsiz > total_size then None
                 else let base_ptr = base_ptr + offset
                      in Some \<lparr>fb_size = bufsiz - FILE_BUFFER_HEADER_SIZE,
                               fb_internal_buf = base_ptr, fb_internal_size = bufsiz,
                               fb_buffer = base_ptr + FILE_BUFFER_HEADER_SIZE,
                               fb_mem = mem_read (unat (base_ptr - buf_ptr)) (unat bufsiz) (replicate (length mem) 0)\<rparr>))"

text \<open>The bytes from \<^verbatim>\<open>buffer\<close> on, as a value and as the target of a store at an offset.\<close>

definition fb_payload :: "FileBuffer \<Rightarrow> bytes" where
  "fb_payload fb = drop (unat FILE_BUFFER_HEADER_SIZE) (fb_mem fb)"

definition fb_store :: "nat \<Rightarrow> bytes \<Rightarrow> FileBuffer \<Rightarrow> FileBuffer" where
  "fb_store off ys fb = fb\<lparr>fb_mem := mem_write (unat FILE_BUFFER_HEADER_SIZE + off) ys (fb_mem fb)\<rparr>"

definition fileBuffer_read :: "FileBuffer \<Rightarrow> FILE \<Rightarrow> usize \<Rightarrow> int \<times> FileBuffer \<times> FILE" where
  "fileBuffer_read fb handle location =
     (case file_read_at handle (fb_internal_size fb) location of
        (n, got, handle') \<Rightarrow>
          (let fb' = fb\<lparr>fb_mem := mem_write 0 got (fb_mem fb)\<rparr>;
               stored_checksum = (bytes_word (mem_read 0 8 (fb_mem fb')) :: u64);
               computed_checksum = checksum (fb_payload fb') (fb_size fb')
           in (if stored_checksum \<noteq> computed_checksum then -1 else 0, fb', handle')))"

definition fileBuffer_write :: "FileBuffer \<Rightarrow> FILE \<Rightarrow> usize \<Rightarrow> int \<times> FileBuffer \<times> FILE" where
  "fileBuffer_write fb handle location =
     (let sum = checksum (fb_payload fb) (fb_size fb);
          fb' = fb\<lparr>fb_mem := mem_write 0 (word_bytes sum) (fb_mem fb)\<rparr>
      in case file_write_at handle (mem_read 0 (unat (fb_internal_size fb')) (fb_mem fb')) location of
           (n, handle') \<Rightarrow> (0, fb', handle'))"

definition fileBuffer_clear :: "FileBuffer \<Rightarrow> FileBuffer" where
  "fileBuffer_clear fb = fb\<lparr>fb_mem := mem_write 0 (replicate (unat (fb_internal_size fb)) 0) (fb_mem fb)\<rparr>"

definition fileBuffer_destroy :: "FileBuffer option \<Rightarrow> FileBuffer option" where
  "fileBuffer_destroy fb = None"

record Block =
  blk_id :: block_id_t
  blk_fb :: FileBuffer

definition Block_create :: "allocator \<Rightarrow> block_id_t \<Rightarrow> Block option" where
  "Block_create M block_id =
     (if \<not> alloc_ok M then None
      else (case FileBuffer_create M BLOCK_SIZE of
              None \<Rightarrow> None
            | Some fb \<Rightarrow> Some \<lparr>blk_id = block_id, blk_fb = fb\<rparr>))"

definition block_destroy :: "Block option \<Rightarrow> Block option" where
  "block_destroy blk = None"

section \<open>Invariant\<close>

definition fb_inv :: "FileBuffer \<Rightarrow> bool" where
  "fb_inv fb \<longleftrightarrow> length (fb_mem fb) = unat (fb_internal_size fb) \<and> 8 \<le> unat (fb_internal_size fb) \<and>
     fb_size fb = fb_internal_size fb - 8"

definition file_inv :: "FILE \<Rightarrow> bool" where
  "file_inv f \<longleftrightarrow> length (fl_data f) \<le> fl_space f \<and> fl_space f < PTRDIFF_LIMIT"

text \<open>A whole buffer fits the medium at a location.\<close>

definition file_fits :: "FILE \<Rightarrow> usize \<Rightarrow> usize \<Rightarrow> bool" where
  "file_fits f location sz \<longleftrightarrow> unat location + unat sz \<le> fl_space f"

lemma fb_size_nat: "fb_inv fb \<Longrightarrow> unat (fb_size fb) = length (fb_mem fb) - 8"
  by (simp add: fb_inv_def unat_sub_u64 u64_ord)

lemma length_fb_payload: "fb_inv fb \<Longrightarrow> length (fb_payload fb) = unat (fb_size fb)"
  by (simp add: fb_payload_def fb_size_nat)

lemma drop_mem_write: "k + off \<le> length xs \<Longrightarrow> drop k (mem_write (k + off) ys xs) = mem_write off ys (drop k xs)"
  by (simp add: mem_write_def drop_take ac_simps)

lemma fb_store_inv:
  "fb_inv fb \<Longrightarrow> off + length ys \<le> unat (fb_size fb) \<Longrightarrow>
   fb_inv (fb_store off ys fb) \<and> fb_payload (fb_store off ys fb) = mem_write off ys (fb_payload fb)"
  using fb_size_nat [of fb]
  by (auto simp: fb_inv_def fb_store_def fb_payload_def drop_mem_write length_mem_write)

lemma fb_store_sizes [simp]:
  "fb_size (fb_store off ys fb) = fb_size fb" "fb_internal_size (fb_store off ys fb) = fb_internal_size fb"
  by (simp_all add: fb_store_def)

lemma length_file_put: "length (file_put pos ys d) = (if ys = [] then length d else max (length d) (pos + length ys))"
  by (auto simp: file_put_def mem_write_def)

lemma file_put_read_same: "mem_read pos (length ys) (file_put pos ys d) = ys"
  by (auto simp: file_put_def mem_simps)

lemma file_put_read_disjoint:
  assumes "p + n \<le> pos \<or> pos + length ys \<le> p" "p + n \<le> length d"
  shows "mem_read p n (file_put pos ys d) = mem_read p n d"
proof (cases "ys = []")
  case False
  have "mem_read p n (mem_write pos ys (d @ replicate (pos + length ys - length d) 0))
      = mem_read p n (d @ replicate (pos + length ys - length d) 0)"
    using assms by (intro mem_read_write_disjoint) auto
  then show ?thesis using assms(2) False by (simp add: file_put_def mem_simps)
qed (simp add: file_put_def)

lemma file_write_at_ok:
  assumes "file_inv f" "unat loc + length ys \<le> fl_space f"
  shows "\<exists>n. file_write_at f ys loc =
     (n, f\<lparr>fl_data := file_put (unat loc) ys (fl_data f), fl_pos := unat loc + length ys\<rparr>)"
  using assms by (simp add: file_write_at_def fseek_set_def fwrite_def file_inv_def Let_def)

lemma file_read_at_ok:
  assumes "file_inv f" "unat loc + unat sz \<le> length (fl_data f)"
  shows "\<exists>n. file_read_at f sz loc =
     (n, mem_read (unat loc) (unat sz) (fl_data f), f\<lparr>fl_pos := unat loc + unat sz\<rparr>)"
  using assms by (simp add: file_read_at_def fseek_set_def fread_def file_inv_def Let_def mem_simps)

text \<open>The file operations through a buffer.\<close>

lemma fileBuffer_write_ok:
  assumes fb: "fb_inv fb" and f: "file_inv f" and fit: "file_fits f loc (fb_internal_size fb)"
  obtains fb' f' where "fileBuffer_write fb f loc = (0, fb', f')"
    "fb_inv fb'" "fb_payload fb' = fb_payload fb" "fb_size fb' = fb_size fb"
    "fb_internal_size fb' = fb_internal_size fb"
    "fb_mem fb' = word_bytes (checksum (fb_payload fb) (fb_size fb)) @ fb_payload fb"
    "fl_data f' = file_put (unat loc) (fb_mem fb') (fl_data f)"
    "file_inv f'" "fl_space f' = fl_space f" "fl_flushed f' = fl_flushed f"
proof -
  let ?sum = "checksum (fb_payload fb) (fb_size fb)"
  let ?fb = "fb\<lparr>fb_mem := mem_write 0 (word_bytes ?sum) (fb_mem fb)\<rparr>"
  have m: "fb_mem ?fb = word_bytes ?sum @ fb_payload fb"
    by (simp add: mem_write_def fb_payload_def)
  have l: "length (fb_mem ?fb) = unat (fb_internal_size fb)"
    using fb by (simp add: fb_inv_def mem_simps)
  then have r: "mem_read 0 (unat (fb_internal_size fb)) (fb_mem ?fb) = fb_mem ?fb"
    by (simp add: mem_read_def)
  have "unat loc + length (fb_mem ?fb) \<le> fl_space f" using fit l by (simp add: file_fits_def)
  from file_write_at_ok [OF f this] obtain n where
    w: "file_write_at f (fb_mem ?fb) loc =
        (n, f\<lparr>fl_data := file_put (unat loc) (fb_mem ?fb) (fl_data f), fl_pos := unat loc + length (fb_mem ?fb)\<rparr>)"
    by blast
  have w': "fileBuffer_write fb f loc =
      (0, ?fb, f\<lparr>fl_data := file_put (unat loc) (fb_mem ?fb) (fl_data f), fl_pos := unat loc + length (fb_mem ?fb)\<rparr>)"
    using w r by (simp add: fileBuffer_write_def Let_def)
  show thesis
  proof (rule that [OF w'])
    show "fb_inv ?fb" using fb l by (simp add: fb_inv_def)
    show "fb_payload ?fb = fb_payload fb" using m by (simp add: fb_payload_def)
    show "fb_mem ?fb = word_bytes ?sum @ fb_payload fb" by (rule m)
    show "file_inv (f\<lparr>fl_data := file_put (unat loc) (fb_mem ?fb) (fl_data f), fl_pos := unat loc + length (fb_mem ?fb)\<rparr>)"
      using f fit l by (simp add: file_inv_def file_fits_def length_file_put)
  qed simp_all
qed

lemma fileBuffer_read_ok:
  assumes fb: "fb_inv fb" and f: "file_inv f"
    and here: "unat loc + unat (fb_internal_size fb) \<le> length (fl_data f)"
  obtains fb' f' where "fileBuffer_read fb f loc =
      (if bytes_word (mem_read (unat loc) 8 (fl_data f)) = checksum (fb_payload fb') (fb_size fb) then 0 else -1, fb', f')"
    "fb_inv fb'" "fb_mem fb' = mem_read (unat loc) (unat (fb_internal_size fb)) (fl_data f)"
    "fb_size fb' = fb_size fb" "fb_internal_size fb' = fb_internal_size fb"
    "fb_payload fb' = mem_read (unat loc + 8) (unat (fb_size fb)) (fl_data f)"
    "fl_data f' = fl_data f" "file_inv f'" "fl_space f' = fl_space f" "fl_flushed f' = fl_flushed f"
proof -
  let ?got = "mem_read (unat loc) (unat (fb_internal_size fb)) (fl_data f)"
  let ?fb = "fb\<lparr>fb_mem := ?got\<rparr>"
  let ?f = "f\<lparr>fl_pos := unat loc + unat (fb_internal_size fb)\<rparr>"
  have l: "length ?got = length (fb_mem fb)" using fb here by (simp add: fb_inv_def mem_simps)
  from file_read_at_ok [OF f here] obtain n where
    r: "file_read_at f (fb_internal_size fb) loc = (n, ?got, ?f)" by blast
  have w: "mem_write 0 ?got (fb_mem fb) = ?got" using l by (simp add: mem_write_def)
  have s: "mem_read 0 8 ?got = mem_read (unat loc) 8 (fl_data f)"
    using fb by (simp add: mem_simps fb_inv_def)
  have p: "fb_payload ?fb = mem_read (unat loc + 8) (unat (fb_size fb)) (fl_data f)"
    using fb fb_size_nat [OF fb] by (simp add: fb_payload_def drop_mem_read fb_inv_def)
  have "fileBuffer_read fb f loc =
      (if bytes_word (mem_read (unat loc) 8 (fl_data f)) = checksum (fb_payload ?fb) (fb_size fb) then 0 else -1, ?fb, ?f)"
    by (simp add: fileBuffer_read_def r w s Let_def)
  then show thesis
  proof (rule that)
    show "fb_inv ?fb" using fb l by (simp add: fb_inv_def)
    show "file_inv ?f" using f by (simp add: file_inv_def)
  qed (simp_all add: p)
qed

text \<open>Whatever is on the medium, reading keeps the buffer well formed and the file as it is.\<close>

lemma fileBuffer_read_frame:
  assumes "fb_inv fb" "fileBuffer_read fb f loc = (rc, fb', f')"
  shows "fb_inv fb' \<and> fb_size fb' = fb_size fb \<and> fb_internal_size fb' = fb_internal_size fb \<and>
         fl_data f' = fl_data f \<and> fl_space f' = fl_space f \<and> fl_flushed f' = fl_flushed f"
proof -
  obtain n got f1 where r: "file_read_at f (fb_internal_size fb) loc = (n, got, f1)"
    by (cases "file_read_at f (fb_internal_size fb) loc") auto
  have "length got \<le> unat (fb_internal_size fb)" "fl_data f1 = fl_data f" "fl_space f1 = fl_space f" "fl_flushed f1 = fl_flushed f"
    using r by (auto simp: file_read_at_def fseek_set_def fread_def Let_def mem_read_def split: if_splits)
  then show ?thesis
    using assms r by (auto simp: fileBuffer_read_def fb_inv_def Let_def length_mem_write)
qed

lemma FileBuffer_total_size_nat:
  "unat bufsiz + 4127 < PTRDIFF_LIMIT \<Longrightarrow> unat (FileBuffer_total_size bufsiz) = unat bufsiz + 4127"
  by (simp add: FileBuffer_total_size_def unat_add_u64 PTRDIFF_LIMIT_def storage_sizes)

lemma FileBuffer_create_ok:
  assumes "alloc_ok M" "unat bufsiz + 4127 < PTRDIFF_LIMIT"
  shows "\<exists>fb. FileBuffer_create M bufsiz = Some fb \<and> fb_size fb = bufsiz - 8 \<and> fb_internal_size fb = bufsiz \<and>
     fb_mem fb = replicate (unat bufsiz) 0 \<and> (8 \<le> unat bufsiz \<longrightarrow> fb_inv fb)"
proof -
  let ?rem = "(alloc_addr M + SIZEOF_FileBuffer) mod FILE_BUFFER_BLOCK_SIZE"
  let ?off = "if ?rem = 0 then 0 else FILE_BUFFER_BLOCK_SIZE - ?rem"
  note t = FileBuffer_total_size_nat [OF assms(2)]
  have "unat ?rem < 4096" by (simp add: unat_mod)
  then have off: "unat ?off \<le> 4095"
    by (cases "?rem = 0") (simp_all add: unat_sub_u64 u64_le_nat unat_eq_zero [symmetric] del: unat_eq_zero)
  then have "unat (?off + bufsiz) \<le> unat (FileBuffer_total_size bufsiz)"
    using assms(2) t by (subst unat_add_u64) (simp_all add: PTRDIFF_LIMIT_def)
  then have n: "\<not> ?off + bufsiz > FileBuffer_total_size bufsiz" by (simp only: u64_ord not_less)
  define off where "off = ?off"
  have "unat (SIZEOF_FileBuffer + off) = 32 + unat off" "unat off \<le> 4095"
    using off by (simp_all only: off_def [symmetric], subst unat_add_u64) simp_all
  then have m: "mem_read (unat (alloc_addr M + SIZEOF_FileBuffer + off - alloc_addr M)) (unat bufsiz)
      (replicate (unat (FileBuffer_total_size bufsiz)) (0 :: u8)) = replicate (unat bufsiz) 0"
    using t by (simp add: mem_read_def min_def)
  show ?thesis
    unfolding FileBuffer_create_def Let_def off_def [symmetric]
    using n [folded off_def] m assms t by (simp add: c_malloc_def fb_inv_def FILE_BUFFER_HEADER_SIZE_def)
qed

lemma dvd_add_pad:
  assumes "0 < (m :: nat)"
  shows "m dvd b + (if b mod m = 0 then 0 else m - b mod m)"
proof -
  have "b + (m - b mod m) = m * (b div m) + m"
    using mult_div_mod_eq [of m b] mod_less_divisor [OF assms, of b] by linarith
  then show ?thesis by (auto simp: mod_eq_0_iff_dvd)
qed

lemma FileBuffer_create_layout:
  assumes "FileBuffer_create M bufsiz = Some fb"
    and "unat (alloc_addr M) + (unat bufsiz + 4127) < 2 ^ 64" "8 \<le> bufsiz"
  shows "4096 dvd unat (fb_internal_buf fb) \<and> unat (alloc_addr M) + 32 \<le> unat (fb_internal_buf fb) \<and>
         unat (fb_internal_buf fb) + unat bufsiz \<le> unat (alloc_addr M) + (unat bufsiz + 4127) \<and>
         unat (fb_buffer fb) = unat (fb_internal_buf fb) + 8"
proof -
  let ?b = "alloc_addr M + SIZEOF_FileBuffer" and ?B = "unat (alloc_addr M) + 32"
  let ?rem = "?b mod FILE_BUFFER_BLOCK_SIZE"
  let ?off = "if ?rem = 0 then 0 else FILE_BUFFER_BLOCK_SIZE - ?rem"
  have ptr: "fb_internal_buf fb = ?b + ?off" "fb_buffer fb = fb_internal_buf fb + FILE_BUFFER_HEADER_SIZE"
    using assms(1) by (auto simp: FileBuffer_create_def Let_def split: option.splits if_splits)
  have b: "unat ?b = ?B" using assms(2) by (subst unat_add_u64) simp_all
  have rem: "unat ?rem = ?B mod 4096" by (simp only: unat_mod b unat_storage_sizes)
  have z: "?rem = 0 \<longleftrightarrow> ?B mod 4096 = 0" by (simp only: word_unat_eq_iff rem unat_0)
  have sub: "unat (FILE_BUFFER_BLOCK_SIZE - ?rem) = 4096 - ?B mod 4096"
    by (subst unat_sub_u64) (simp_all only: u64_le_nat rem unat_storage_sizes mod_le_divisor zero_less_numeral)
  have off: "unat ?off = (if ?B mod 4096 = 0 then 0 else 4096 - ?B mod 4096)"
    unfolding z using sub by simp
  then have lt: "unat ?off \<le> 4095" by (simp, arith)
  have i: "unat (fb_internal_buf fb) = ?B + unat ?off"
    unfolding ptr(1) using assms(2) lt by (subst unat_add_u64) (simp_all add: b)
  have "4096 dvd ?B + unat ?off" unfolding off by (rule dvd_add_pad) simp
  moreover have "unat (fb_buffer fb) = unat (fb_internal_buf fb) + 8"
    unfolding ptr(2) using assms(2,3) lt i by (subst unat_add_u64) (simp_all add: u64_ord)
  ultimately show ?thesis using i lt by simp
qed

section \<open>Properties\<close>

text \<open>
  C34. For a size of at least 8 bytes and every address the allocator may return, \<^verbatim>\<open>FileBuffer_create\<close> returns a buffer whose I/O area is aligned to
  4096 bytes and lies inside the block that was asked for, after the structure itself: it begins behind the structure, ends
  within the size requested, and all its bytes are bytes of the block, cleared; the user's area is 8 bytes into it.
\<close>

theorem FileBuffer_create_aligned:
  assumes "alloc_ok M" "unat bufsiz + 4127 < PTRDIFF_LIMIT" "8 \<le> bufsiz"
    and "unat (alloc_addr M) + unat (FileBuffer_total_size bufsiz) < 2 ^ 64"
  shows "\<exists>fb. FileBuffer_create M bufsiz = Some fb \<and> fb_inv fb \<and> fb_mem fb = replicate (unat bufsiz) 0 \<and>
     4096 dvd unat (fb_internal_buf fb) \<and> unat (alloc_addr M) + unat SIZEOF_FileBuffer \<le> unat (fb_internal_buf fb) \<and>
     unat (fb_internal_buf fb) + unat bufsiz \<le> unat (alloc_addr M) + unat (FileBuffer_total_size bufsiz) \<and>
     unat (fb_buffer fb) = unat (fb_internal_buf fb) + 8"
proof -
  note t = FileBuffer_total_size_nat [OF assms(2)]
  obtain fb where fb: "FileBuffer_create M bufsiz = Some fb" "fb_inv fb" "fb_mem fb = replicate (unat bufsiz) 0"
    using FileBuffer_create_ok [OF assms(1,2)] assms(3) by (auto simp: u64_ord)
  then show ?thesis using FileBuffer_create_layout [OF fb(1) _ assms(3)] assms(4) unfolding t by simp
qed

text \<open>The address that leaves the least room: the area ends where the block does.\<close>

definition odd_allocator :: allocator where
  "odd_allocator = \<lparr>alloc_ok = True, alloc_junk = (\<lambda>_. 0), alloc_addr = 4065\<rparr>"

theorem FileBuffer_create_aligned_witness:
  "\<exists>fb. FileBuffer_create odd_allocator 8192 = Some fb \<and> fb_inv fb \<and> fb_mem fb = replicate (unat (8192 :: usize)) 0 \<and>
     4096 dvd unat (fb_internal_buf fb) \<and> unat (alloc_addr odd_allocator) + unat SIZEOF_FileBuffer \<le> unat (fb_internal_buf fb) \<and>
     unat (fb_internal_buf fb) + unat (8192 :: usize)
       \<le> unat (alloc_addr odd_allocator) + unat (FileBuffer_total_size 8192) \<and>
     unat (fb_buffer fb) = unat (fb_internal_buf fb) + 8"
  by (rule FileBuffer_create_aligned)
     (simp_all add: odd_allocator_def PTRDIFF_LIMIT_def word_le_nat_alt FileBuffer_total_size_def storage_sizes)

text \<open>
  C25. Writing a buffer and reading it back at the same place into another buffer of the same
  size reports a valid checksum and gives the same user data, whatever the second buffer held
  and wherever the place lies in or beyond the file, as long as the medium has the space.
\<close>

theorem fileBuffer_roundtrip:
  assumes fb: "fb_inv fb" and other: "fb_inv fb2" "fb_internal_size fb2 = fb_internal_size fb"
    and f: "file_inv f" "file_fits f loc (fb_internal_size fb)"
  shows "\<exists>fb' f' fb2' f''. fileBuffer_write fb f loc = (0, fb', f') \<and> fileBuffer_read fb2 f' loc = (0, fb2', f'') \<and>
     fb_payload fb2' = fb_payload fb \<and> fl_data f'' = fl_data f'"
proof -
  from fileBuffer_write_ok [OF fb f] obtain fb' f' where
    w: "fileBuffer_write fb f loc = (0, fb', f')" "fb_inv fb'" "fb_payload fb' = fb_payload fb"
       "fb_internal_size fb' = fb_internal_size fb"
       "fb_mem fb' = word_bytes (checksum (fb_payload fb) (fb_size fb)) @ fb_payload fb"
       "fl_data f' = file_put (unat loc) (fb_mem fb') (fl_data f)" "file_inv f'"
    by blast
  have len: "length (fb_mem fb') = unat (fb_internal_size fb2)" using w(2,4) other by (simp add: fb_inv_def)
  have ne: "fb_mem fb' \<noteq> []" using len other by (auto simp: fb_inv_def)
  have "unat loc + unat (fb_internal_size fb2) \<le> length (fl_data f')"
    using w(6) ne len by (simp add: length_file_put)
  from fileBuffer_read_ok [OF other(1) w(7) this] obtain fb2' f'' where
    r: "fileBuffer_read fb2 f' loc =
          (if bytes_word (mem_read (unat loc) 8 (fl_data f')) = checksum (fb_payload fb2') (fb_size fb2) then 0 else -1, fb2', f'')"
       "fb_mem fb2' = mem_read (unat loc) (unat (fb_internal_size fb2)) (fl_data f')" "fl_data f'' = fl_data f'"
    by blast
  have m: "fb_mem fb2' = fb_mem fb'"
    unfolding r(2) w(6) len [symmetric] by (rule file_put_read_same)
  then have p: "fb_payload fb2' = fb_payload fb" using w(3) by (simp add: fb_payload_def)
  have "mem_read (unat loc) 8 (fl_data f') = take 8 (fb_mem fb2')"
    using other by (simp add: r(2) mem_read_split fb_inv_def)
  then have "mem_read (unat loc) 8 (fl_data f') = word_bytes (checksum (fb_payload fb) (fb_size fb))"
    by (simp add: m w(5))
  moreover have "fb_size fb2 = fb_size fb" using fb other by (simp add: fb_inv_def)
  ultimately have "fileBuffer_read fb2 f' loc = (0, fb2', f'')" using r(1) p by simp
  then show ?thesis using w(1) p r(3) by blast
qed

definition sample_buffer :: "u8 \<Rightarrow> FileBuffer" where
  "sample_buffer x = \<lparr>fb_size = 16, fb_internal_buf = 4096, fb_internal_size = 24, fb_buffer = 4104,
     fb_mem = replicate 24 x\<rparr>"

definition sample_file :: "nat \<Rightarrow> FILE" where
  "sample_file n = \<lparr>fl_data = [], fl_pos = 0, fl_flushed = [], fl_space = n\<rparr>"

lemma sample_buffer_ok: "fb_inv (sample_buffer x)" "fb_internal_size (sample_buffer x) = 24"
  by (simp_all add: sample_buffer_def fb_inv_def)

lemma sample_file_ok: "file_inv (sample_file n) \<longleftrightarrow> n < PTRDIFF_LIMIT" "fl_space (sample_file n) = n"
  by (simp_all add: sample_file_def file_inv_def)

theorem fileBuffer_roundtrip_witness:
  "\<exists>fb' f' fb2' f''. fileBuffer_write (sample_buffer 7) (sample_file 100) 30 = (0, fb', f') \<and>
     fileBuffer_read (sample_buffer 9) f' 30 = (0, fb2', f'') \<and>
     fb_payload fb2' = fb_payload (sample_buffer 7) \<and> fl_data f'' = fl_data f'"
  by (rule fileBuffer_roundtrip)
    (simp_all add: sample_buffer_ok sample_file_ok file_fits_def PTRDIFF_LIMIT_def)

text \<open>
  C26. Corruption is detected: if, after a buffer has been written, one 64-bit word of its user
  data on the medium changes in its low four bytes, reading it back reports a checksum error.
\<close>

theorem fileBuffer_detects_corruption:
  assumes fb: "fb_inv fb" "8 dvd unat (fb_size fb)" and k: "k < unat (fb_size fb) div 8"
    and f: "file_inv f" "unat loc + unat (fb_internal_size fb) \<le> length (fl_data f)"
    and stored: "mem_read (unat loc) 8 (fl_data f) = word_bytes (checksum p (fb_size fb))" "length p = unat (fb_size fb)"
    and low: "mem_read (unat loc + 8 + 8 * k) 4 (fl_data f) \<noteq> mem_read (8 * k) 4 p"
    and rest: "\<forall>i < unat (fb_size fb) div 8. i \<noteq> k \<longrightarrow>
      mem_read (unat loc + 8 + 8 * i) 8 (fl_data f) = mem_read (8 * i) 8 p"
  shows "fst (fileBuffer_read fb f loc) = -1"
proof -
  from fileBuffer_read_ok [OF fb(1) f] obtain fb' f' where
    r: "fileBuffer_read fb f loc =
          (if bytes_word (mem_read (unat loc) 8 (fl_data f)) = checksum (fb_payload fb') (fb_size fb) then 0 else -1, fb', f')"
       "fb_inv fb'" "fb_size fb' = fb_size fb"
       "fb_payload fb' = mem_read (unat loc + 8) (unat (fb_size fb)) (fl_data f)"
    by blast
  have word: "mem_read (8 * i) n (fb_payload fb') = mem_read (unat loc + 8 + 8 * i) n (fl_data f)"
    if "i < unat (fb_size fb) div 8" "n \<le> 8" for i n
    using that by (simp add: r(4) mem_simps)
  have "checksum (fb_payload fb') (fb_size fb) \<noteq> checksum p (fb_size fb)"
    using fb k stored(2) low rest length_fb_payload [OF r(2)] r(3)
    by (intro checksum_low_half_differ [where k = k]) (auto simp: word)
  then show ?thesis using r(1) stored(1) by (simp add: eq_commute)
qed

theorem fileBuffer_detects_corruption_witness:
  "fst (fileBuffer_read (sample_buffer 0)
     \<lparr>fl_data = word_bytes (checksum [1, 2, 3, 4, 5, 6, 7, 8, 1, 2, 3, 4, 5, 6, 7, 8] 16) @
                [1, 2, 3, 4, 5, 6, 7, 8, 1, 2, 9, 4, 5, 6, 7, 8],
      fl_pos = 0, fl_flushed = [], fl_space = 50\<rparr> 0) = -1"
proof (rule fileBuffer_detects_corruption [where k = 1 and p = "[1, 2, 3, 4, 5, 6, 7, 8, 1, 2, 3, 4, 5, 6, 7, 8]"])
  let ?c = "word_bytes (checksum [1, 2, 3, 4, 5, 6, 7, 8, 1, 2, 3, 4, 5, 6, 7, 8] 16)"
  have r: "mem_read (8 + m) n (?c @ q) = mem_read m n q" for m n q
    by (simp add: mem_read_def)
  have s: "fb_size (sample_buffer 0) = 16" by (simp add: sample_buffer_def)
  show "fb_inv (sample_buffer 0)" by (rule sample_buffer_ok)
  show "mem_read (unat (0 :: usize) + 8 + 8 * 1) 4 (fl_data \<lparr>fl_data = ?c @ [1, 2, 3, 4, 5, 6, 7, 8, 1, 2, 9, 4, 5, 6, 7, 8],
      fl_pos = 0, fl_flushed = [], fl_space = 50\<rparr>) \<noteq> mem_read (8 * 1) 4 [1, 2, 3, 4, 5, 6, 7, 8, 1, 2, 3, 4, 5, 6, 7, 8]"
    using r [of 8 4] by (simp add: mem_read_def)
  show "\<forall>i < unat (fb_size (sample_buffer 0)) div 8. i \<noteq> 1 \<longrightarrow>
      mem_read (unat (0 :: usize) + 8 + 8 * i) 8 (fl_data \<lparr>fl_data = ?c @ [1, 2, 3, 4, 5, 6, 7, 8, 1, 2, 9, 4, 5, 6, 7, 8],
        fl_pos = 0, fl_flushed = [], fl_space = 50\<rparr>) = mem_read (8 * i) 8 [1, 2, 3, 4, 5, 6, 7, 8, 1, 2, 3, 4, 5, 6, 7, 8]"
    using r [of 0 8] by (auto simp: s mem_read_def less_2_cases_iff)
qed (simp_all add: sample_buffer_ok sample_buffer_def file_inv_def PTRDIFF_LIMIT_def mem_read_def)

end
