(* ===== verification/MetaBlock.thy ===== *)
theory MetaBlock
  imports FileBuffer "HOL-Library.Monad_Syntax"
begin

text \<open>
  The \<^verbatim>\<open>ExtentManager\<close> interface of \<^verbatim>\<open>src/include/storage.h\<close> and the streams of bytes over chains of
  blocks that use it, \<^verbatim>\<open>MetaBlockReader\<close> and \<^verbatim>\<open>MetaBlockWriter\<close>
  (\<^verbatim>\<open>src/storage/table/storage.c\<close>, lines 210 to 361). The virtual table is a record of functions
  over the manager's state, so the reader and the writer are proved correct once, in the locale
  \<open>extent_store\<close>, for every manager that keeps its contract. A call that does not return
  (an endless loop) or dies (a failed assertion, a null dereference) is \<^term>\<open>None\<close>.
\<close>

section \<open>The interface\<close>

record 'm ExtentManagerVTable =
  em_read :: "'m \<Rightarrow> Block \<Rightarrow> 'm \<times> Block"
  em_write :: "'m \<Rightarrow> Block \<Rightarrow> 'm \<times> Block"
  em_get_free_block_id :: "'m \<Rightarrow> block_id_t \<times> 'm"
  em_create_block :: "'m \<Rightarrow> Block option \<times> 'm"
  em_get_frist_meta_block :: "'m \<Rightarrow> block_id_t"

definition SIZEOF_block_id_t :: usize where "SIZEOF_block_id_t = 8"

lemma unat_SIZEOF_block_id_t [simp]: "unat SIZEOF_block_id_t = 8"
  by (simp add: SIZEOF_block_id_t_def)

section \<open>Reading\<close>

record MetaBlockReader =
  mr_block :: Block
  mr_offset :: usize
  mr_next_block_id :: block_id_t

definition metaBlockReader_read_new_block ::
  "'m ExtentManagerVTable \<Rightarrow> 'm \<Rightarrow> MetaBlockReader \<Rightarrow> block_id_t \<Rightarrow> 'm \<times> MetaBlockReader" where
  "metaBlockReader_read_new_block vt m reader block_id =
     (case em_read vt m ((mr_block reader)\<lparr>blk_id := block_id\<rparr>) of
        (m', block) \<Rightarrow>
          (m', reader\<lparr>mr_block := block,
                      mr_next_block_id := bytes_word (mem_read 0 8 (fb_payload (blk_fb block))),
                      mr_offset := SIZEOF_block_id_t\<rparr>))"

definition MetaBlockReader_init ::
  "allocator \<Rightarrow> 'm ExtentManagerVTable \<Rightarrow> 'm \<Rightarrow> block_id_t \<Rightarrow> ('m \<times> MetaBlockReader) option" where
  "MetaBlockReader_init M vt m block_id =
     (if \<not> alloc_ok M then None
      else (case FileBuffer_create M BLOCK_SIZE of
              None \<Rightarrow> None
            | Some fb \<Rightarrow>
                Some (metaBlockReader_read_new_block vt m
                  \<lparr>mr_block = \<lparr>blk_id = 0, blk_fb = fb\<rparr>, mr_offset = 0, mr_next_block_id = -1\<rparr> block_id)))"

text \<open>The loop of \<^verbatim>\<open>metaBlockReader_read_data\<close>; \<open>acc\<close> is what has been stored in the destination.\<close>

partial_function (option) metaBlockReader_read_loop ::
  "'m ExtentManagerVTable \<Rightarrow> 'm \<Rightarrow> MetaBlockReader \<Rightarrow> bytes \<Rightarrow> usize \<Rightarrow> (bytes \<times> 'm \<times> MetaBlockReader) option" where
  "metaBlockReader_read_loop vt m reader acc read_size =
     (let fb = blk_fb (mr_block reader)
      in if mr_offset reader + read_size > fb_size fb
         then (let to_read = fb_size fb - mr_offset reader;
                   acc' = (if to_read > 0
                           then acc @ mem_read (unat (mr_offset reader)) (unat to_read) (fb_payload fb) else acc);
                   read_size' = (if to_read > 0 then read_size - to_read else read_size);
                   next = metaBlockReader_read_new_block vt m reader (mr_next_block_id reader)
               in metaBlockReader_read_loop vt (fst next) (snd next) acc' read_size')
         else Some (acc @ mem_read (unat (mr_offset reader)) (unat read_size) (fb_payload fb), m,
                    reader\<lparr>mr_offset := mr_offset reader + read_size\<rparr>))"

definition metaBlockReader_read_data ::
  "'m ExtentManagerVTable \<Rightarrow> 'm \<Rightarrow> MetaBlockReader \<Rightarrow> usize \<Rightarrow> (bytes \<times> 'm \<times> MetaBlockReader) option" where
  "metaBlockReader_read_data vt m reader read_size = metaBlockReader_read_loop vt m reader [] read_size"

definition metaBlockReader_deinit :: "MetaBlockReader option \<Rightarrow> Block option" where
  "metaBlockReader_deinit reader = (case reader of None \<Rightarrow> None | Some r \<Rightarrow> block_destroy (Some (mr_block r)))"

text \<open>What remains of the block and of the reader.\<close>

definition metaBlockReader_destroy :: "MetaBlockReader option \<Rightarrow> Block option \<times> MetaBlockReader option" where
  "metaBlockReader_destroy reader = (metaBlockReader_deinit reader, None)"

section \<open>Writing\<close>

record MetaBlockWriter =
  mw_block :: "Block option"
  mw_offset :: usize

definition MetaBlockWriter_init :: "'m ExtentManagerVTable \<Rightarrow> 'm \<Rightarrow> 'm \<times> MetaBlockWriter" where
  "MetaBlockWriter_init vt m =
     (case em_create_block vt m of (b, m') \<Rightarrow> (m', \<lparr>mw_block = b, mw_offset = SIZEOF_block_id_t\<rparr>))"

definition MetaBlockWriter_create :: "allocator \<Rightarrow> 'm ExtentManagerVTable \<Rightarrow> 'm \<Rightarrow> ('m \<times> MetaBlockWriter) option" where
  "MetaBlockWriter_create M vt m = (if alloc_ok M then Some (MetaBlockWriter_init vt m) else None)"

definition metaBlockWriter_flush :: "'m ExtentManagerVTable \<Rightarrow> 'm \<Rightarrow> MetaBlockWriter \<Rightarrow> ('m \<times> MetaBlockWriter) option" where
  "metaBlockWriter_flush vt m writer =
     (if mw_offset writer > SIZEOF_block_id_t
      then (case mw_block writer of
              None \<Rightarrow> None
            | Some block \<Rightarrow>
                (case em_write vt m block of
                   (m', block') \<Rightarrow> Some (m', writer\<lparr>mw_block := Some block', mw_offset := SIZEOF_block_id_t\<rparr>)))
      else Some (m, writer))"

definition metaBlockWriter_deinit :: "'m ExtentManagerVTable \<Rightarrow> 'm \<Rightarrow> MetaBlockWriter \<Rightarrow> ('m \<times> MetaBlockWriter) option" where
  "metaBlockWriter_deinit vt m writer =
     (case metaBlockWriter_flush vt m writer of
        None \<Rightarrow> None
      | Some (m', writer') \<Rightarrow> Some (m', writer'\<lparr>mw_block := None\<rparr>))"

definition metaBlockWriter_destroy :: "'m ExtentManagerVTable \<Rightarrow> 'm \<Rightarrow> MetaBlockWriter option \<Rightarrow> 'm option" where
  "metaBlockWriter_destroy vt m writer =
     (case writer of None \<Rightarrow> Some m | Some w \<Rightarrow> map_option fst (metaBlockWriter_deinit vt m w))"

text \<open>The loop of \<^verbatim>\<open>metaBlockWriter_write_data\<close>, with its local \<open>offset\<close>, \<open>buffer\<close> and \<open>write_size\<close>.\<close>

partial_function (option) metaBlockWriter_write_loop ::
  "'m ExtentManagerVTable \<Rightarrow> 'm \<Rightarrow> MetaBlockWriter \<Rightarrow> usize \<Rightarrow> bytes \<Rightarrow> usize \<Rightarrow> ('m \<times> MetaBlockWriter) option" where
  "metaBlockWriter_write_loop vt m writer offset buffer write_size =
     (case mw_block writer of
        None \<Rightarrow> None
      | Some block \<Rightarrow>
          (let fb = blk_fb block
           in if offset + write_size > fb_size fb
              then if \<not> offset \<le> fb_size fb then None
                   else (let copy_amount = fb_size fb - offset;
                             fb1 = (if copy_amount > 0
                                    then fb_store (unat offset) (take (unat copy_amount) buffer) fb else fb);
                             buffer1 = (if copy_amount > 0 then drop (unat copy_amount) buffer else buffer);
                             offset1 = (if copy_amount > 0 then offset + copy_amount else offset);
                             write_size1 = (if copy_amount > 0 then write_size - copy_amount else write_size);
                             new_block = em_get_free_block_id vt m;
                             fb2 = fb_store 0 (word_bytes (fst new_block)) fb1;
                             writer1 = writer\<lparr>mw_block := Some (block\<lparr>blk_fb := fb2\<rparr>), mw_offset := offset1\<rparr>
                         in Option.bind (metaBlockWriter_flush vt (snd new_block) writer1)
                              (\<lambda>r. metaBlockWriter_write_loop vt (fst r)
                                 ((snd r)\<lparr>mw_block := map_option (blk_id_update (\<lambda>_. fst new_block)) (mw_block (snd r))\<rparr>)
                                 offset1 buffer1 write_size1))
              else Some (m, writer\<lparr>mw_block := Some (block\<lparr>blk_fb :=
                                     fb_store (unat offset) (take (unat write_size) buffer) fb\<rparr>),
                                   mw_offset := offset + write_size\<rparr>)))"

definition metaBlockWriter_write_data ::
  "'m ExtentManagerVTable \<Rightarrow> 'm \<Rightarrow> MetaBlockWriter \<Rightarrow> bytes \<Rightarrow> usize \<Rightarrow> ('m \<times> MetaBlockWriter) option" where
  "metaBlockWriter_write_data vt m writer buffer write_size =
     metaBlockWriter_write_loop vt m writer (mw_offset writer) buffer write_size"

section \<open>The serialization macros\<close>

definition SERIALIZER_WRITE_TYPE ::
  "'m ExtentManagerVTable \<Rightarrow> 'm \<times> MetaBlockWriter \<Rightarrow> 'a::len word \<Rightarrow> ('m \<times> MetaBlockWriter) option" where
  "SERIALIZER_WRITE_TYPE vt mw x =
     metaBlockWriter_write_data vt (fst mw) (snd mw) (word_bytes x) (of_nat (length (word_bytes x)))"

definition SERIALIZER_WRITE_STRING ::
  "'m ExtentManagerVTable \<Rightarrow> 'm \<times> MetaBlockWriter \<Rightarrow> bytes \<Rightarrow> ('m \<times> MetaBlockWriter) option" where
  "SERIALIZER_WRITE_STRING vt mw str =
     do {
       mw1 \<leftarrow> SERIALIZER_WRITE_TYPE vt mw (of_nat (length str) :: usize);
       metaBlockWriter_write_data vt (fst mw1) (snd mw1) str (of_nat (length str))
     }"

definition DESERIALIZER_READ_TYPE ::
  "'m ExtentManagerVTable \<Rightarrow> 'm \<times> MetaBlockReader \<Rightarrow> ('a::len word \<times> 'm \<times> MetaBlockReader) option" where
  "DESERIALIZER_READ_TYPE vt mr =
     do {
       r \<leftarrow> metaBlockReader_read_data vt (fst mr) (snd mr) (of_nat (LENGTH('a) div 8));
       Some (bytes_word (fst r), snd r)
     }"

text \<open>The string is read into a fresh block of \<open>len + 1\<close> bytes; a null result would be dereferenced.\<close>

definition DESERIALIZER_READ_STRING ::
  "allocator \<Rightarrow> 'm ExtentManagerVTable \<Rightarrow> 'm \<times> MetaBlockReader \<Rightarrow> (bytes \<times> 'm \<times> MetaBlockReader) option" where
  "DESERIALIZER_READ_STRING M vt mr =
     do {
       (len, mr1) \<leftarrow> (DESERIALIZER_READ_TYPE vt mr :: (usize \<times> _) option);
       buf \<leftarrow> c_malloc M (len + 1);
       metaBlockReader_read_data vt (fst mr1) (snd mr1) len
     }"

text \<open>Writing and reading a sequence of items, as the clients of the two streams do.\<close>

fun write_items ::
  "'m ExtentManagerVTable \<Rightarrow> 'm \<times> MetaBlockWriter \<Rightarrow> bytes list \<Rightarrow> ('m \<times> MetaBlockWriter) option" where
  "write_items vt mw [] = Some mw"
| "write_items vt mw (x # xs) =
     Option.bind (metaBlockWriter_write_data vt (fst mw) (snd mw) x (of_nat (length x))) (\<lambda>mw'. write_items vt mw' xs)"

fun read_items ::
  "'m ExtentManagerVTable \<Rightarrow> 'm \<times> MetaBlockReader \<Rightarrow> usize list \<Rightarrow> (bytes list \<times> 'm \<times> MetaBlockReader) option" where
  "read_items vt mr [] = Some ([], mr)"
| "read_items vt mr (n # ns) =
     Option.bind (metaBlockReader_read_data vt (fst mr) (snd mr) n)
       (\<lambda>r. Option.bind (read_items vt (snd r) ns) (\<lambda>rs. Some (fst r # fst rs, snd rs)))"

section \<open>A write that does not fit never returns\<close>

text \<open>
  The loop of \<^verbatim>\<open>metaBlockWriter_write_data\<close> copies what fits and takes a new block, but does not
  set its local offset back to the start of the new block: the next round finds the block full
  again, takes another one, and so on for ever.
\<close>

definition write_keeps_size :: "'m ExtentManagerVTable \<Rightarrow> bool" where
  "write_keeps_size vt \<longleftrightarrow> (\<forall>m b. fb_size (blk_fb (snd (em_write vt m b))) = fb_size (blk_fb b))"

lemma write_loop_full:
  assumes "metaBlockWriter_write_loop vt m w off buf n = Some r" "write_keeps_size vt"
    and "mw_block w = Some b" "fb_size (blk_fb b) = off" "off > SIZEOF_block_id_t" "off + n > off"
  shows False
  using assms
proof (induction arbitrary: b rule: metaBlockWriter_write_loop.raw_induct [rotated, consumes 1, case_names step])
  case (step loop vt m w off buf n r)
  let ?id = "fst (em_get_free_block_id vt m)"
  let ?b1 = "b\<lparr>blk_fb := fb_store 0 (word_bytes ?id) (blk_fb b)\<rparr>"
  obtain m' b' where wr: "em_write vt (snd (em_get_free_block_id vt m)) ?b1 = (m', b')" by fastforce
  then have sz: "fb_size (blk_fb b') = off"
    using step.prems(1,3) unfolding write_keeps_size_def
    by (metis Block.select_convs(2) Block.surjective Block.update_convs(2) fb_store_sizes(1) snd_conv)
  have "loop vt m' (w\<lparr>mw_offset := SIZEOF_block_id_t, mw_block := Some (b'\<lparr>blk_id := ?id\<rparr>)\<rparr>) off buf n = Some r"
    using step.hyps step.prems wr by (simp add: Let_def metaBlockWriter_flush_def)
  from step.IH [OF this step.prems(1)] sz step.prems show ?case by simp
qed

lemma write_data_overflows_block:
  assumes "write_keeps_size vt" "mw_block w = Some b" "SIZEOF_block_id_t < fb_size (blk_fb b)"
    and "mw_offset w \<le> fb_size (blk_fb b)"
    and "unat (fb_size (blk_fb b)) < unat (mw_offset w) + unat n" "unat (mw_offset w) + unat n < 2 ^ 64"
    and "unat (fb_size (blk_fb b)) + unat n < 2 ^ 64"
  shows "metaBlockWriter_write_data vt m w buf n = None"
proof (rule ccontr)
  assume "metaBlockWriter_write_data vt m w buf n \<noteq> None"
  then obtain r where r: "metaBlockWriter_write_loop vt m w (mw_offset w) buf n = Some r"
    by (auto simp: metaBlockWriter_write_data_def)
  let ?sz = "fb_size (blk_fb b)" and ?o = "mw_offset w"
  show False
  proof (cases "?o = ?sz")
    case True
    then show False
      using write_loop_full [OF r assms(1,2)] assms by (simp add: u64_ord unat_add_u64)
  next
    case False
    let ?id = "fst (em_get_free_block_id vt m)"
    let ?fb = "fb_store 0 (word_bytes ?id) (fb_store (unat ?o) (take (unat (?sz - ?o)) buf) (blk_fb b))"
    obtain m' b' where wr: "em_write vt (snd (em_get_free_block_id vt m)) (b\<lparr>blk_fb := ?fb\<rparr>) = (m', b')" by fastforce
    then have sz: "fb_size (blk_fb b') = ?sz"
      using assms(1) unfolding write_keeps_size_def
      by (metis Block.select_convs(2) Block.surjective Block.update_convs(2) fb_store_sizes(1) snd_conv)
    have o: "unat ?o < unat ?sz" using assms(4) False by (simp add: u64_ord) (metis le_neq_implies_less word_unat_eq_iff)
    have c: "unat (?sz - ?o) = unat ?sz - unat ?o" "?sz - ?o > 0" "?o + (?sz - ?o) = ?sz"
      using o by (simp_all add: u64_ord unat_sub_u64)
    have n: "unat (n - (?sz - ?o)) = unat n - (unat ?sz - unat ?o)"
      using c assms(5) by (subst unat_sub_u64) (simp_all add: u64_ord)
    have big: "\<not> ?o + n \<le> ?sz" using assms(5,6) by (simp add: u64_ord unat_add_u64)
    have "metaBlockWriter_write_loop vt m' (w\<lparr>mw_offset := SIZEOF_block_id_t, mw_block := Some (b'\<lparr>blk_id := ?id\<rparr>)\<rparr>)
        ?sz (drop (unat (?sz - ?o)) buf) (n - (?sz - ?o)) = Some r"
      using r wr big c assms(2,3,4)
      by (subst (asm) metaBlockWriter_write_loop.simps) (simp add: Let_def metaBlockWriter_flush_def not_le)
    then show False
      by (rule write_loop_full [where b = "b'\<lparr>blk_id := ?id\<rparr>"])
        (use sz assms n o in \<open>simp_all add: u64_ord unat_add_u64\<close>)
  qed
qed

section \<open>The contract of a manager\<close>

definition block_ok :: "Block \<Rightarrow> bool" where
  "block_ok b \<longleftrightarrow> fb_inv (blk_fb b) \<and> fb_internal_size (blk_fb b) = BLOCK_SIZE"

lemma block_ok_size: "block_ok b \<Longrightarrow> fb_size (blk_fb b) = 8184"
  by (simp add: block_ok_def fb_inv_def BLOCK_SIZE_def)

lemma block_ok_payload: "block_ok b \<Longrightarrow> length (fb_payload (blk_fb b)) = 8184"
  using length_fb_payload [of "blk_fb b"] block_ok_size [of b] by (simp add: block_ok_def)

lemma block_ok_store:
  assumes "block_ok b" "off + length ys \<le> 8184"
  shows "block_ok (b\<lparr>blk_fb := fb_store off ys (blk_fb b)\<rparr>) \<and>
         fb_payload (fb_store off ys (blk_fb b)) = mem_write off ys (fb_payload (blk_fb b))"
  using fb_store_inv [of "blk_fb b" off ys] block_ok_size [OF assms(1)] assms by (simp add: block_ok_def)

text \<open>The payloads of the blocks of a chain that starts at a block, given what is on the medium.\<close>

fun block_chain :: "(block_id_t \<Rightarrow> bytes option) \<Rightarrow> (block_id_t \<Rightarrow> bool) \<Rightarrow> block_id_t \<Rightarrow> bytes list \<Rightarrow> bool" where
  "block_chain c a i [] = True"
| "block_chain c a i (p # ps) \<longleftrightarrow> a i \<and>
     (case c i of None \<Rightarrow> False | Some d \<Rightarrow> p = drop 8 d \<and> block_chain c a (bytes_word (mem_read 0 8 d)) ps)"

text \<open>The bytes a reader is positioned before: the rest of its block, then those of the chain.\<close>

definition stream_rest ::
  "(block_id_t \<Rightarrow> bytes option) \<Rightarrow> (block_id_t \<Rightarrow> bool) \<Rightarrow> MetaBlockReader \<Rightarrow> bytes \<Rightarrow> bool" where
  "stream_rest c a r bs \<longleftrightarrow> block_ok (mr_block r) \<and> unat (mr_offset r) \<le> 8184 \<and>
     (\<exists>ps. block_chain c a (mr_next_block_id r) ps \<and>
           bs = drop (unat (mr_offset r)) (fb_payload (blk_fb (mr_block r))) @ concat ps)"

text \<open>A writer whose current block holds a sequence of bytes.\<close>

definition writer_holds :: "MetaBlockWriter \<Rightarrow> Block \<Rightarrow> bytes \<Rightarrow> bool" where
  "writer_holds w b bs \<longleftrightarrow> mw_block w = Some b \<and> block_ok b \<and> unat (mw_offset w) = 8 + length bs \<and>
     8 + length bs \<le> 8184 \<and> mem_read 8 (length bs) (fb_payload (blk_fb b)) = bs"

text \<open>
  \<open>content m i\<close> is the user data of block \<open>i\<close> on the medium, \<open>addressable m i\<close> that the
  block lies on the medium. Writing changes one block only, reading gives what was written.
\<close>

locale extent_store =
  fixes vt :: "'m ExtentManagerVTable"
    and inv :: "'m \<Rightarrow> bool"
    and content :: "'m \<Rightarrow> block_id_t \<Rightarrow> bytes option"
    and addressable :: "'m \<Rightarrow> block_id_t \<Rightarrow> bool"
  assumes write_law: "inv m \<Longrightarrow> addressable m (blk_id b) \<Longrightarrow> block_ok b \<Longrightarrow> em_write vt m b = (m', b') \<Longrightarrow>
      inv m' \<and> addressable m' = addressable m \<and> block_ok b' \<and> blk_id b' = blk_id b \<and>
      fb_payload (blk_fb b') = fb_payload (blk_fb b) \<and> content m' (blk_id b) = Some (fb_payload (blk_fb b)) \<and>
      (\<forall>j d. j \<noteq> blk_id b \<longrightarrow> addressable m j \<longrightarrow> content m j = Some d \<longrightarrow> content m' j = Some d)"
    and read_law: "inv m \<Longrightarrow> block_ok b \<Longrightarrow> em_read vt m b = (m', b') \<Longrightarrow>
      inv m' \<and> addressable m' = addressable m \<and> content m' = content m \<and> block_ok b' \<and> blk_id b' = blk_id b \<and>
      (\<forall>d. addressable m (blk_id b) \<longrightarrow> content m (blk_id b) = Some d \<longrightarrow> fb_payload (blk_fb b') = d)"
    and free_law: "inv m \<Longrightarrow> em_get_free_block_id vt m = (i, m') \<Longrightarrow>
      inv m' \<and> addressable m' = addressable m \<and> content m' = content m"
    and create_law: "inv m \<Longrightarrow> em_create_block vt m = (Some b, m') \<Longrightarrow>
      inv m' \<and> addressable m' = addressable m \<and> content m' = content m \<and> block_ok b"
    and content_length: "content m i = Some d \<Longrightarrow> length d = 8184"
begin

abbreviation chain :: "'m \<Rightarrow> block_id_t \<Rightarrow> bytes list \<Rightarrow> bool" where
  "chain m \<equiv> block_chain (content m) (addressable m)"

abbreviation reader_sees :: "'m \<Rightarrow> MetaBlockReader \<Rightarrow> bytes \<Rightarrow> bool" where
  "reader_sees m \<equiv> stream_rest (content m) (addressable m)"

lemma read_new_block_ok:
  assumes inv: "inv m" and b: "block_ok (mr_block r)" and ch: "chain m i (p # ps)"
    and new: "metaBlockReader_read_new_block vt m r i = (m', r')"
  shows "inv m' \<and> addressable m' = addressable m \<and> content m' = content m \<and> block_ok (mr_block r') \<and>
         mr_offset r' = 8 \<and> p = drop 8 (fb_payload (blk_fb (mr_block r'))) \<and> length p = 8176 \<and>
         chain m' (mr_next_block_id r') ps"
proof -
  from ch obtain d where d: "addressable m i" "content m i = Some d" "p = drop 8 d" "chain m (bytes_word (mem_read 0 8 d)) ps"
    by (auto split: option.splits)
  obtain blk where rd: "em_read vt m ((mr_block r)\<lparr>blk_id := i\<rparr>) = (m', blk)" and r': "r' = r\<lparr>mr_block := blk,
      mr_next_block_id := bytes_word (mem_read 0 8 (fb_payload (blk_fb blk))), mr_offset := SIZEOF_block_id_t\<rparr>"
    using new by (auto simp: metaBlockReader_read_new_block_def split: prod.splits)
  have "block_ok ((mr_block r)\<lparr>blk_id := i\<rparr>)" using b by (simp add: block_ok_def)
  note l = read_law [OF inv this rd]
  then have "fb_payload (blk_fb blk) = d" using d by simp
  then show ?thesis
    using l d content_length [OF d(2)] by (simp add: r' SIZEOF_block_id_t_def)
qed

lemma read_loop_ok:
  assumes "inv m" "block_ok (mr_block r)" "unat (mr_offset r) \<le> 8184" "chain m (mr_next_block_id r) ps"
    and "drop (unat (mr_offset r)) (fb_payload (blk_fb (mr_block r))) @ concat ps = xs @ ys"
    and "length xs = unat n" "length xs + 8184 < 2 ^ 64"
  shows "\<exists>m' r'. metaBlockReader_read_loop vt m r acc n = Some (acc @ xs, m', r') \<and> inv m' \<and>
     addressable m' = addressable m \<and> content m' = content m \<and> reader_sees m' r' ys"
  using assms
proof (induction ps arbitrary: m r acc xs n)
  case Nil
  let ?buf = "drop (unat (mr_offset r)) (fb_payload (blk_fb (mr_block r)))"
  have sz: "unat (fb_size (blk_fb (mr_block r))) = 8184" using block_ok_size [OF Nil.prems(2)] by simp
  have add: "unat (mr_offset r + n) = unat (mr_offset r) + unat n"
    using Nil.prems by (intro unat_add_u64) simp
  have len: "unat (mr_offset r) + unat n \<le> 8184"
    using arg_cong [OF Nil.prems(5), of length] Nil.prems(3,6) block_ok_payload [OF Nil.prems(2)] by simp
  have le: "\<not> mr_offset r + n > fb_size (blk_fb (mr_block r))" using add sz len by (simp add: u64_ord)
  have xs: "xs = mem_read (unat (mr_offset r)) (unat n) (fb_payload (blk_fb (mr_block r)))"
    using Nil.prems(5,6) by (simp add: mem_read_def)
  have ys: "drop (unat (mr_offset r + n)) (fb_payload (blk_fb (mr_block r))) = ys"
    unfolding add using arg_cong [OF Nil.prems(5), of "drop (unat n)"] Nil.prems(6) by (simp add: add.commute)
  have "metaBlockReader_read_loop vt m r acc n = Some (acc @ xs, m, r\<lparr>mr_offset := mr_offset r + n\<rparr>)"
    using le xs by (subst metaBlockReader_read_loop.simps) (simp add: Let_def)
  moreover have "reader_sees m (r\<lparr>mr_offset := mr_offset r + n\<rparr>) ys"
    unfolding stream_rest_def using Nil.prems(2) ys add len by (auto intro: exI [of _ "[]"])
  ultimately show ?case using Nil.prems(1) by blast
next
  case (Cons p ps)
  let ?o = "unat (mr_offset r)" and ?pl = "fb_payload (blk_fb (mr_block r))"
  let ?buf = "drop ?o ?pl" and ?sz = "fb_size (blk_fb (mr_block r))"
  have sz: "unat ?sz = 8184" "length ?pl = 8184"
    using block_ok_size [OF Cons.prems(2)] block_ok_payload [OF Cons.prems(2)] by simp_all
  have add: "unat (mr_offset r + n) = ?o + unat n" using Cons.prems by (intro unat_add_u64) simp
  show ?case
  proof (cases "mr_offset r + n > ?sz")
    case False
    then have len: "?o + unat n \<le> 8184" using add sz by (simp add: u64_ord)
    have xs: "xs = mem_read ?o (unat n) ?pl" and ys: "ys = drop (?o + unat n) ?pl @ concat (p # ps)"
      using append_eq_split [OF Cons.prems(5)] Cons.prems(6) len sz by (simp_all add: mem_read_def add.commute)
    have "metaBlockReader_read_loop vt m r acc n = Some (acc @ xs, m, r\<lparr>mr_offset := mr_offset r + n\<rparr>)"
      using False xs by (subst metaBlockReader_read_loop.simps) (simp add: Let_def)
    moreover have "reader_sees m (r\<lparr>mr_offset := mr_offset r + n\<rparr>) ys"
      unfolding stream_rest_def using Cons.prems(2,4) ys add len by (auto simp del: block_chain.simps)
    ultimately show ?thesis using Cons.prems(1) by blast
  next
    case True
    obtain m1 r1 where new: "metaBlockReader_read_new_block vt m r (mr_next_block_id r) = (m1, r1)" by fastforce
    note n1 = read_new_block_ok [OF Cons.prems(1,2,4) new]
    have sub: "unat (?sz - mr_offset r) = 8184 - ?o"
      using sz Cons.prems(3) by (subst unat_sub_u64) (simp_all add: u64_ord)
    have gt: "8184 - ?o < unat n" using True add sz Cons.prems(3) by (simp add: u64_ord)
    let ?xs' = "drop (8184 - ?o) xs"
    have buf: "length ?buf = 8184 - ?o" using sz by simp
    have xs: "xs = ?buf @ ?xs'" and rest: "concat (p # ps) = ?xs' @ ys"
      using Cons.prems(5,6) gt buf by (auto simp: append_eq_append_conv_if)
    let ?n' = "if ?sz - mr_offset r > 0 then n - (?sz - mr_offset r) else n"
    let ?acc' = "if ?sz - mr_offset r > 0 then acc @ mem_read ?o (unat (?sz - mr_offset r)) ?pl else acc"
    have n': "unat ?n' = length ?xs'"
      using sub gt Cons.prems(6) by (auto simp: u64_ord unat_sub_u64)
    have acc': "?acc' = acc @ ?buf"
      using sub buf by (auto simp: u64_ord mem_read_def)
    have "metaBlockReader_read_loop vt m r acc n = metaBlockReader_read_loop vt m1 r1 ?acc' ?n'"
      using True by (subst metaBlockReader_read_loop.simps) (simp add: Let_def new)
    moreover have "\<exists>m' r'. metaBlockReader_read_loop vt m1 r1 ?acc' ?n' = Some (?acc' @ ?xs', m', r') \<and> inv m' \<and>
        addressable m' = addressable m1 \<and> content m' = content m1 \<and> reader_sees m' r' ys"
      using n1 rest n' Cons.prems(6,7) by (intro Cons.IH) auto
    moreover have "?acc' @ ?xs' = acc @ xs" unfolding acc' by (subst (2) xs) simp
    ultimately show ?thesis using n1 by simp
  qed
qed

text \<open>
  A reader returns the next bytes of the stream, over as many blocks as they span, and is
  positioned after them.
\<close>

lemma read_data_ok:
  assumes "inv m" "reader_sees m r (xs @ ys)" "length xs = unat n" "length xs + 8184 < 2 ^ 64"
  shows "\<exists>m' r'. metaBlockReader_read_data vt m r n = Some (xs, m', r') \<and> inv m' \<and>
     addressable m' = addressable m \<and> content m' = content m \<and> reader_sees m' r' ys"
proof -
  from assms(2) obtain ps where ps: "block_ok (mr_block r)" "unat (mr_offset r) \<le> 8184" "chain m (mr_next_block_id r) ps"
    "drop (unat (mr_offset r)) (fb_payload (blk_fb (mr_block r))) @ concat ps = xs @ ys"
    by (auto simp: stream_rest_def)
  show ?thesis
    using read_loop_ok [OF assms(1) ps(1,2,3,4) assms(3,4), of "[]"] by (simp add: metaBlockReader_read_data_def)
qed

lemma reader_init_ok:
  assumes "inv m" "alloc_ok M" "chain m i (p # ps)"
  shows "\<exists>m' r. MetaBlockReader_init M vt m i = Some (m', r) \<and> inv m' \<and> addressable m' = addressable m \<and>
     content m' = content m \<and> reader_sees m' r (p @ concat ps)"
proof -
  from FileBuffer_create_ok [OF assms(2), of BLOCK_SIZE] obtain fb where
    fb: "FileBuffer_create M BLOCK_SIZE = Some fb" "fb_internal_size fb = BLOCK_SIZE" "fb_inv fb"
    by (auto simp: PTRDIFF_LIMIT_def)
  let ?r = "\<lparr>mr_block = \<lparr>blk_id = 0, blk_fb = fb\<rparr>, mr_offset = 0, mr_next_block_id = -1\<rparr>"
  obtain m' r where new: "metaBlockReader_read_new_block vt m ?r i = (m', r)" by fastforce
  have "block_ok (mr_block ?r)" using fb by (simp add: block_ok_def)
  note n = read_new_block_ok [OF assms(1) this assms(3) new]
  then show ?thesis
    using assms(2) fb new by (auto simp: MetaBlockReader_init_def stream_rest_def)
qed

lemma writer_init_ok:
  assumes "inv m" "em_create_block vt m = (Some b, m')"
  shows "\<exists>w. MetaBlockWriter_init vt m = (m', w) \<and> writer_holds w b []"
  using create_law [OF assms] assms(2)
  by (auto simp: MetaBlockWriter_init_def writer_holds_def)

lemma write_data_fits:
  assumes w: "writer_holds w b bs" and n: "length ys = unat n" and fit: "8 + length bs + length ys \<le> 8184"
  shows "\<exists>w' b'. metaBlockWriter_write_data vt m w ys n = Some (m, w') \<and> writer_holds w' b' (bs @ ys) \<and>
     blk_id b' = blk_id b"
proof -
  let ?o = "unat (mw_offset w)" and ?b' = "b\<lparr>blk_fb := fb_store (unat (mw_offset w)) ys (blk_fb b)\<rparr>"
  have h: "mw_block w = Some b" "block_ok b" "?o = 8 + length bs" "mem_read 8 (length bs) (fb_payload (blk_fb b)) = bs"
    using w by (simp_all add: writer_holds_def)
  have pl: "length (fb_payload (blk_fb b)) = 8184" by (rule block_ok_payload [OF h(2)])
  have add: "unat (mw_offset w + n) = ?o + length ys" using h(3) fit n by (subst unat_add_u64) simp_all
  then have le: "\<not> mw_offset w + n > fb_size (blk_fb b)"
    using block_ok_size [OF h(2)] h(3) fit by (simp add: u64_ord)
  have st: "block_ok ?b'" "fb_payload (blk_fb ?b') = mem_write ?o ys (fb_payload (blk_fb b))"
    using block_ok_store [OF h(2), of ?o ys] h(3) fit by simp_all
  have "metaBlockWriter_write_data vt m w ys n = Some (m, w\<lparr>mw_block := Some ?b', mw_offset := mw_offset w + n\<rparr>)"
    using h(1) le n unfolding metaBlockWriter_write_data_def
    by (subst metaBlockWriter_write_loop.simps) (simp add: Let_def)
  moreover have "mem_read 8 (length bs + length ys) (mem_write ?o ys (fb_payload (blk_fb b))) = bs @ ys"
    using h(3,4) pl fit by (simp add: mem_read_append mem_simps)
  then have "writer_holds (w\<lparr>mw_block := Some ?b', mw_offset := mw_offset w + n\<rparr>) ?b' (bs @ ys)"
    using st add h(3) fit by (simp add: writer_holds_def)
  ultimately show ?thesis by force
qed

lemma flush_ok:
  assumes "inv m" "writer_holds w b bs" "bs \<noteq> []" "addressable m (blk_id b)"
  shows "\<exists>m' w' ps. metaBlockWriter_flush vt m w = Some (m', w') \<and> inv m' \<and> addressable m' = addressable m \<and>
     chain m' (blk_id b) [bs @ ps] \<and>
     (\<forall>j d. j \<noteq> blk_id b \<longrightarrow> addressable m j \<longrightarrow> content m j = Some d \<longrightarrow> content m' j = Some d)"
proof -
  have h: "mw_block w = Some b" "block_ok b" "unat (mw_offset w) = 8 + length bs"
      "mem_read 8 (length bs) (fb_payload (blk_fb b)) = bs"
    using assms(2) by (simp_all add: writer_holds_def)
  have gt: "mw_offset w > SIZEOF_block_id_t" using h(3) assms(3) by (simp add: u64_ord)
  obtain m' b' where wr: "em_write vt m b = (m', b')" by fastforce
  note l = write_law [OF assms(1,4) h(2) wr]
  have "drop 8 (fb_payload (blk_fb b)) = bs @ drop (8 + length bs) (fb_payload (blk_fb b))"
    using append_take_drop_id [of "length bs" "drop 8 (fb_payload (blk_fb b))"] h(4) by (simp add: mem_read_def add.commute)
  then have "chain m' (blk_id b) [bs @ drop (8 + length bs) (fb_payload (blk_fb b))]"
    using l assms(4) by simp
  moreover have "metaBlockWriter_flush vt m w = Some (m', w\<lparr>mw_block := Some b', mw_offset := SIZEOF_block_id_t\<rparr>)"
    using gt h(1) by (simp add: metaBlockWriter_flush_def wr)
  ultimately show ?thesis using l by blast
qed

lemma write_items_ok:
  assumes "writer_holds w b bs" "8 + length bs + length (concat items) \<le> 8184"
  shows "\<exists>w' b'. write_items vt (m, w) items = Some (m, w') \<and> writer_holds w' b' (bs @ concat items) \<and> blk_id b' = blk_id b"
  using assms
proof (induction items arbitrary: w b bs)
  case Nil
  then show ?case by auto
next
  case (Cons x items)
  have n: "length x = unat (of_nat (length x) :: usize)"
    using Cons.prems(2) by (simp add: unat_of_nat_u64)
  from write_data_fits [OF Cons.prems(1) n, of m] Cons.prems(2) obtain w1 b1 where
    w1: "metaBlockWriter_write_data vt m w x (of_nat (length x)) = Some (m, w1)" "writer_holds w1 b1 (bs @ x)"
        "blk_id b1 = blk_id b"
    by auto
  from Cons.IH [OF w1(2)] Cons.prems(2) obtain w' b' where
    "write_items vt (m, w1) items = Some (m, w')" "writer_holds w' b' ((bs @ x) @ concat items)" "blk_id b' = blk_id b1"
    by auto
  then show ?case using w1 by auto
qed

lemma read_items_ok:
  assumes "inv m" "reader_sees m r (concat items @ ys)" "\<forall>x \<in> set items. length x + 8184 < 2 ^ 64"
  shows "\<exists>m' r'. read_items vt (m, r) (map (\<lambda>x. of_nat (length x)) items) = Some (items, m', r') \<and> inv m' \<and>
     addressable m' = addressable m \<and> content m' = content m \<and> reader_sees m' r' ys"
  using assms
proof (induction items arbitrary: m r)
  case Nil
  then show ?case by auto
next
  case (Cons x items)
  have n: "length x = unat (of_nat (length x) :: usize)" "length x + 8184 < 2 ^ 64"
    using Cons.prems(3) by (auto simp: unat_of_nat_u64)
  have "reader_sees m r (x @ (concat items @ ys))" using Cons.prems(2) by simp
  from read_data_ok [OF Cons.prems(1) this n] obtain m1 r1 where
    r1: "metaBlockReader_read_data vt m r (of_nat (length x)) = Some (x, m1, r1)" "inv m1"
        "addressable m1 = addressable m" "content m1 = content m" "reader_sees m1 r1 (concat items @ ys)"
    by blast
  from Cons.IH [OF r1(2,5)] Cons.prems(3) obtain m' r' where
    "read_items vt (m1, r1) (map (\<lambda>x. of_nat (length x)) items) = Some (items, m', r')" "inv m'"
    "addressable m' = addressable m1" "content m' = content m1" "reader_sees m' r' ys"
    by auto
  then show ?case using r1 by auto
qed

text \<open>Items written with a fresh writer are there when the writer is gone.\<close>

lemma written_items_stored:
  assumes "inv m" "em_create_block vt m = (Some b, m1)" "addressable m (blk_id b)"
    and "concat items \<noteq> []" "length (concat items) \<le> 8176"
  shows "\<exists>m2 w2 m3 w3 pad. write_items vt (MetaBlockWriter_init vt m) items = Some (m2, w2) \<and>
     metaBlockWriter_deinit vt m2 w2 = Some (m3, w3) \<and> inv m3 \<and> addressable m3 = addressable m \<and>
     chain m3 (blk_id b) [concat items @ pad] \<and>
     (\<forall>j d. j \<noteq> blk_id b \<longrightarrow> addressable m j \<longrightarrow> content m j = Some d \<longrightarrow> content m3 j = Some d)"
proof -
  note c = create_law [OF assms(1,2)]
  from writer_init_ok [OF assms(1,2)] obtain w where
    w: "MetaBlockWriter_init vt m = (m1, w)" "writer_holds w b []" by blast
  from write_items_ok [OF w(2), of items m1] assms(5) obtain w2 b2 where
    w2: "write_items vt (m1, w) items = Some (m1, w2)" "writer_holds w2 b2 (concat items)" "blk_id b2 = blk_id b"
    by auto
  from flush_ok [OF _ w2(2) assms(4)] c w2(3) assms(3) obtain m3 w3 pad where
    f: "metaBlockWriter_flush vt m1 w2 = Some (m3, w3)" "inv m3" "addressable m3 = addressable m"
       "chain m3 (blk_id b) [concat items @ pad]"
       "\<forall>j d. j \<noteq> blk_id b \<longrightarrow> addressable m j \<longrightarrow> content m j = Some d \<longrightarrow> content m3 j = Some d"
    by (metis (no_types, lifting))
  then show ?thesis
    using w(1) w2(1) by (auto simp: metaBlockWriter_deinit_def simp del: block_chain.simps)
qed

text \<open>The round trip through one block.\<close>

lemma items_roundtrip:
  assumes "inv m" "em_create_block vt m = (Some b, m1)" "addressable m (blk_id b)" "alloc_ok M"
    and "concat items \<noteq> []" "length (concat items) \<le> 8176"
  shows "\<exists>m2 w2 m3 w3 m4 r m5 r5. write_items vt (MetaBlockWriter_init vt m) items = Some (m2, w2) \<and>
     metaBlockWriter_deinit vt m2 w2 = Some (m3, w3) \<and> MetaBlockReader_init M vt m3 (blk_id b) = Some (m4, r) \<and>
     read_items vt (m4, r) (map (\<lambda>x. of_nat (length x)) items) = Some (items, m5, r5)"
proof -
  from written_items_stored [OF assms(1-3,5,6)] obtain m2 w2 m3 w3 pad where
    w: "write_items vt (MetaBlockWriter_init vt m) items = Some (m2, w2)" "metaBlockWriter_deinit vt m2 w2 = Some (m3, w3)"
       "inv m3" "chain m3 (blk_id b) [concat items @ pad]"
    by blast
  from reader_init_ok [OF w(3) assms(4) w(4)] obtain m4 r where
    r: "MetaBlockReader_init M vt m3 (blk_id b) = Some (m4, r)" "inv m4" "reader_sees m4 r (concat items @ pad)"
    by auto
  have "\<forall>x \<in> set items. length x + 8184 < 2 ^ 64"
  proof
    fix x assume "x \<in> set items"
    then have "length x \<le> length (concat items)" by (simp add: length_concat member_le_sum_list)
    then show "length x + 8184 < 2 ^ 64" using assms(6) by simp
  qed
  from read_items_ok [OF r(2,3) this] show ?thesis using w r by blast
qed

end

end
