(* ===== verification/Parser.thy ===== *)
theory Parser
  imports MetaBlock
begin

text \<open>
  Column types and the reading of schema and table descriptions from a metadata stream
  (\<^verbatim>\<open>src/parse/parser.c\<close>, \<^verbatim>\<open>src/include/parser.h\<close>). An enumeration value read from the stream is the
  number itself, since the cast accepts every number. The union of column options is written
  for vector columns only; otherwise it is \<^term>\<open>None\<close>, memory nobody has written.
\<close>

section \<open>Types\<close>

datatype TypeID = TYPE_INVALID | TYPE_INT8 | TYPE_INT16 | TYPE_INT32 | TYPE_INT64 | TYPE_FLOAT32 | TYPE_FLOAT64

type_synonym SQLType = u32

definition SQLT_TINYINT :: SQLType where "SQLT_TINYINT = 1"
definition SQLT_SMALLINT :: SQLType where "SQLT_SMALLINT = 2"
definition SQLT_INTEGER :: SQLType where "SQLT_INTEGER = 3"
definition SQLT_BIGINT :: SQLType where "SQLT_BIGINT = 4"
definition SQLT_FLOAT :: SQLType where "SQLT_FLOAT = 5"
definition SQLT_DOUBLE :: SQLType where "SQLT_DOUBLE = 6"
definition SQLT_VARCHAR :: SQLType where "SQLT_VARCHAR = 7"
definition SQLT_VECTOR :: SQLType where "SQLT_VECTOR = 8"

lemmas sqlt_defs = SQLT_TINYINT_def SQLT_SMALLINT_def SQLT_INTEGER_def SQLT_BIGINT_def SQLT_FLOAT_def
  SQLT_DOUBLE_def SQLT_VARCHAR_def SQLT_VECTOR_def

definition get_internal_type :: "SQLType \<Rightarrow> TypeID" where
  "get_internal_type t =
     (if t = SQLT_TINYINT then TYPE_INT8
      else if t = SQLT_SMALLINT then TYPE_INT16
      else if t = SQLT_INTEGER then TYPE_INT32
      else if t = SQLT_BIGINT then TYPE_INT64
      else if t = SQLT_FLOAT then TYPE_FLOAT32
      else if t = SQLT_DOUBLE then TYPE_FLOAT64
      else TYPE_INVALID)"

record ColumnDefinition =
  col_name :: bytes
  col_oid :: u64
  col_type :: SQLType
  col_dim :: "u16 option"

record CreateSchemaInfo =
  csi_schema_name :: bytes
  csi_if_not_exists :: bool

record CreateTableInfo =
  cti_schema_name :: bytes
  cti_table_name :: bytes
  cti_if_not_exists :: bool
  cti_columns :: "ColumnDefinition list"
  cti_col_count :: usize

definition SIZEOF_ColumnDefinition :: usize where "SIZEOF_ColumnDefinition = 24"

section \<open>Reading descriptions\<close>

definition createSchemaInfo_deserialize ::
  "allocator \<Rightarrow> 'm ExtentManagerVTable \<Rightarrow> 'm \<times> MetaBlockReader \<Rightarrow> (CreateSchemaInfo \<times> 'm \<times> MetaBlockReader) option" where
  "createSchemaInfo_deserialize M vt mr =
     do {
       (name, mr1) \<leftarrow> DESERIALIZER_READ_STRING M vt mr;
       Some (\<lparr>csi_schema_name = name, csi_if_not_exists = False\<rparr>, mr1)
     }"

definition read_column ::
  "allocator \<Rightarrow> 'm ExtentManagerVTable \<Rightarrow> usize \<Rightarrow> 'm \<times> MetaBlockReader \<Rightarrow> (ColumnDefinition \<times> 'm \<times> MetaBlockReader) option" where
  "read_column M vt i mr =
     do {
       (name, mr1) \<leftarrow> DESERIALIZER_READ_STRING M vt mr;
       (ty, mr2) \<leftarrow> (DESERIALIZER_READ_TYPE vt mr1 :: (u8 \<times> _) option);
       if (ucast ty :: SQLType) = SQLT_VECTOR
       then do {
         (dim, mr3) \<leftarrow> (DESERIALIZER_READ_TYPE vt mr2 :: (u16 \<times> _) option);
         Some (\<lparr>col_name = name, col_oid = i, col_type = ucast ty, col_dim = Some dim\<rparr>, mr3)
       }
       else Some (\<lparr>col_name = name, col_oid = i, col_type = ucast ty, col_dim = None\<rparr>, mr2)
     }"

fun read_columns ::
  "allocator \<Rightarrow> 'm ExtentManagerVTable \<Rightarrow> nat \<Rightarrow> usize \<Rightarrow> 'm \<times> MetaBlockReader \<Rightarrow>
     (ColumnDefinition list \<times> 'm \<times> MetaBlockReader) option" where
  "read_columns M vt 0 i mr = Some ([], mr)"
| "read_columns M vt (Suc n) i mr =
     do {
       (c, mr1) \<leftarrow> read_column M vt i mr;
       (cs, mr2) \<leftarrow> read_columns M vt n (i + 1) mr1;
       Some (c # cs, mr2)
     }"

text \<open>The array of columns is not checked for null: without memory for it the first store dies.\<close>

definition createTableInfo_deserialize ::
  "allocator \<Rightarrow> 'm ExtentManagerVTable \<Rightarrow> 'm \<times> MetaBlockReader \<Rightarrow> (CreateTableInfo \<times> 'm \<times> MetaBlockReader) option" where
  "createTableInfo_deserialize M vt mr =
     do {
       (schema_name, mr1) \<leftarrow> DESERIALIZER_READ_STRING M vt mr;
       (table_name, mr2) \<leftarrow> DESERIALIZER_READ_STRING M vt mr1;
       (n, mr3) \<leftarrow> (DESERIALIZER_READ_TYPE vt mr2 :: (u32 \<times> _) option);
       let col_count = (ucast n :: usize);
       (cols, mr4) \<leftarrow> (if col_count = 0 \<or> c_malloc M (col_count * SIZEOF_ColumnDefinition) \<noteq> None
                        then read_columns M vt (unat col_count) 0 mr3 else None);
       Some (\<lparr>cti_schema_name = schema_name, cti_table_name = table_name, cti_if_not_exists = True,
              cti_columns = cols, cti_col_count = col_count\<rparr>, mr4)
     }"

section \<open>What the descriptions look like in a stream\<close>

definition string_bytes :: "bytes \<Rightarrow> bytes" where
  "string_bytes s = word_bytes (of_nat (length s) :: usize) @ s"

definition column_bytes :: "ColumnDefinition \<Rightarrow> bytes" where
  "column_bytes c = string_bytes (col_name c) @ word_bytes (ucast (col_type c) :: u8) @
     (if col_type c = SQLT_VECTOR then word_bytes (the (col_dim c)) else [])"

text \<open>
  A column a stream can carry: a name of a real length, a type that fits a byte, and a
  dimension exactly for vectors.
\<close>

definition column_ok :: "ColumnDefinition \<Rightarrow> bool" where
  "column_ok c \<longleftrightarrow> length (col_name c) < 2 ^ 32 \<and> unat (col_type c) < 256 \<and>
     (col_dim c \<noteq> None \<longleftrightarrow> col_type c = SQLT_VECTOR)"

fun number_columns :: "usize \<Rightarrow> ColumnDefinition list \<Rightarrow> ColumnDefinition list" where
  "number_columns i [] = []"
| "number_columns i (c # cs) = c\<lparr>col_oid := i\<rparr> # number_columns (i + 1) cs"

context extent_store
begin

lemma read_type_sees:
  assumes "inv m" "reader_sees m r (word_bytes (x :: 'a::len word) @ ys)" "8 dvd LENGTH('a)" "LENGTH('a) \<le> 64"
  shows "\<exists>m' r'. DESERIALIZER_READ_TYPE vt (m, r) = Some (x, m', r') \<and> inv m' \<and> addressable m' = addressable m \<and>
     content m' = content m \<and> reader_sees m' r' ys"
proof -
  have n: "unat (of_nat (LENGTH('a) div 8) :: usize) = LENGTH('a) div 8"
    using assms(4) by (intro unat_of_nat_u64) (simp add: div_le_dividend le_less_trans)
  have "length (word_bytes x) = unat (of_nat (LENGTH('a) div 8) :: usize)" "length (word_bytes x) + 8184 < 2 ^ 64"
    using n assms(4) by (simp_all add: div_le_dividend le_less_trans)
  from read_data_ok [OF assms(1,2) this] show ?thesis
    using assms(3) by (auto simp: DESERIALIZER_READ_TYPE_def)
qed

lemma read_string_sees:
  assumes "inv m" "reader_sees m r (string_bytes s @ ys)" "alloc_ok M" "length s < 2 ^ 32"
  shows "\<exists>m' r'. DESERIALIZER_READ_STRING M vt (m, r) = Some (s, m', r') \<and> inv m' \<and> addressable m' = addressable m \<and>
     content m' = content m \<and> reader_sees m' r' ys"
proof -
  let ?n = "of_nat (length s) :: usize"
  have n: "unat ?n = length s" using assms(4) by (intro unat_of_nat_u64) simp
  have "reader_sees m r (word_bytes ?n @ (s @ ys))" using assms(2) by (simp add: string_bytes_def)
  from read_type_sees [OF assms(1) this] obtain m1 r1 where
    r1: "DESERIALIZER_READ_TYPE vt (m, r) = Some (?n, m1, r1)" "inv m1" "addressable m1 = addressable m"
        "content m1 = content m" "reader_sees m1 r1 (s @ ys)"
    by auto
  have "unat (?n + 1) = length s + 1" using n assms(4) by (subst unat_inc_u64) simp_all
  then have "c_malloc M (?n + 1) \<noteq> None" using assms(3,4) by (simp add: c_malloc_def PTRDIFF_LIMIT_def)
  moreover have "length s = unat ?n" "length s + 8184 < 2 ^ 64" using n assms(4) by simp_all
  ultimately show ?thesis
    using r1 read_data_ok [OF r1(2,5), of ?n] by (auto simp: DESERIALIZER_READ_STRING_def)
qed

lemma read_column_sees:
  assumes "inv m" "reader_sees m r (column_bytes c @ ys)" "alloc_ok M" "column_ok c"
  shows "\<exists>m' r'. read_column M vt i (m, r) = Some (c\<lparr>col_oid := i\<rparr>, m', r') \<and> inv m' \<and>
     addressable m' = addressable m \<and> content m' = content m \<and> reader_sees m' r' ys"
proof -
  let ?rest = "(if col_type c = SQLT_VECTOR then word_bytes (the (col_dim c)) else []) @ ys"
  have "reader_sees m r (string_bytes (col_name c) @ (word_bytes (ucast (col_type c) :: u8) @ ?rest))"
    using assms(2) by (simp add: column_bytes_def)
  from read_string_sees [OF assms(1) this assms(3)] assms(4) obtain m1 r1 where
    r1: "DESERIALIZER_READ_STRING M vt (m, r) = Some (col_name c, m1, r1)" "inv m1" "addressable m1 = addressable m"
        "content m1 = content m" "reader_sees m1 r1 (word_bytes (ucast (col_type c) :: u8) @ ?rest)"
    by (auto simp: column_ok_def)
  from read_type_sees [OF r1(2,5)] obtain m2 r2 where
    r2: "DESERIALIZER_READ_TYPE vt (m1, r1) = Some (ucast (col_type c) :: u8, m2, r2)" "inv m2" "addressable m2 = addressable m"
        "content m2 = content m" "reader_sees m2 r2 ?rest"
    using r1(3,4) by auto
  have "unat (ucast (ucast (col_type c) :: u8) :: SQLType) = unat (col_type c)"
    using assms(4) by (simp add: column_ok_def unat_ucast_mod)
  then have ty: "(ucast (ucast (col_type c) :: u8) :: SQLType) = col_type c" by (simp only: word_unat_eq_iff)
  show ?thesis
  proof (cases "col_type c = SQLT_VECTOR")
    case False
    then have "col_dim c = None" using assms(4) by (auto simp: column_ok_def)
    then show ?thesis using False r1(1) r2 ty by (simp add: read_column_def)
  next
    case True
    then obtain d where d: "col_dim c = Some d" using assms(4) by (auto simp: column_ok_def)
    have "reader_sees m2 r2 (word_bytes d @ ys)" using r2(5) True d by simp
    from read_type_sees [OF r2(2) this] obtain m3 r3 where
      "DESERIALIZER_READ_TYPE vt (m2, r2) = Some (d, m3, r3)" "inv m3" "addressable m3 = addressable m"
      "content m3 = content m" "reader_sees m3 r3 ys"
      using r2(3,4) by auto
    then show ?thesis using True d r1(1) r2(1) ty by (simp add: read_column_def)
  qed
qed

lemma read_columns_sees:
  assumes "inv m" "reader_sees m r (concat (map column_bytes cs) @ ys)" "alloc_ok M" "\<forall>c \<in> set cs. column_ok c"
  shows "\<exists>m' r'. read_columns M vt (length cs) i (m, r) = Some (number_columns i cs, m', r') \<and> inv m' \<and>
     addressable m' = addressable m \<and> content m' = content m \<and> reader_sees m' r' ys"
  using assms(1,2,4)
proof (induction cs arbitrary: m r i)
  case Nil
  then show ?case by auto
next
  case (Cons c cs)
  have "reader_sees m r (column_bytes c @ (concat (map column_bytes cs) @ ys))" using Cons.prems(2) by simp
  from read_column_sees [OF Cons.prems(1) this assms(3), of i] Cons.prems(3) obtain m1 r1 where
    r1: "read_column M vt i (m, r) = Some (c\<lparr>col_oid := i\<rparr>, m1, r1)" "inv m1" "addressable m1 = addressable m"
        "content m1 = content m" "reader_sees m1 r1 (concat (map column_bytes cs) @ ys)"
    by auto
  from Cons.IH [OF r1(2,5), of "i + 1"] Cons.prems(3) obtain m2 r2 where
    "read_columns M vt (length cs) (i + 1) (m1, r1) = Some (number_columns (i + 1) cs, m2, r2)" "inv m2"
    "addressable m2 = addressable m1" "content m2 = content m1" "reader_sees m2 r2 ys"
    by auto
  then show ?case using r1 by auto
qed

lemma createTableInfo_sees:
  assumes "inv m" "alloc_ok M" "length sn < 2 ^ 32" "length tn < 2 ^ 32" "length cs < 2 ^ 32" "\<forall>c \<in> set cs. column_ok c"
    and "reader_sees m r (string_bytes sn @ string_bytes tn @ word_bytes (of_nat (length cs) :: u32) @
      concat (map column_bytes cs) @ ys)"
  shows "\<exists>m' r'. createTableInfo_deserialize M vt (m, r) =
       Some (\<lparr>cti_schema_name = sn, cti_table_name = tn, cti_if_not_exists = True,
              cti_columns = number_columns 0 cs, cti_col_count = of_nat (length cs)\<rparr>, m', r') \<and>
     inv m' \<and> content m' = content m \<and> reader_sees m' r' ys"
proof -
  from read_string_sees [OF assms(1,7,2,3)] obtain m1 r1 where
    r1: "DESERIALIZER_READ_STRING M vt (m, r) = Some (sn, m1, r1)" "inv m1" "content m1 = content m"
        "reader_sees m1 r1 (string_bytes tn @ word_bytes (of_nat (length cs) :: u32) @ concat (map column_bytes cs) @ ys)"
    by auto
  from read_string_sees [OF r1(2,4) assms(2,4)] obtain m2 r2 where
    r2: "DESERIALIZER_READ_STRING M vt (m1, r1) = Some (tn, m2, r2)" "inv m2" "content m2 = content m1"
        "reader_sees m2 r2 (word_bytes (of_nat (length cs) :: u32) @ concat (map column_bytes cs) @ ys)"
    by auto
  from read_type_sees [OF r2(2,4)] obtain m3 r3 where
    r3: "DESERIALIZER_READ_TYPE vt (m2, r2) = Some (of_nat (length cs) :: u32, m3, r3)" "inv m3" "content m3 = content m2"
        "reader_sees m3 r3 (concat (map column_bytes cs) @ ys)"
    by auto
  let ?n = "ucast (of_nat (length cs) :: u32) :: usize"
  have un: "unat ?n = length cs" using assms(5) by (simp add: unat_ucast_mod unat_of_nat take_bit_nat_eq_self)
  have n: "?n = of_nat (length cs)" using arg_cong [OF un, of "of_nat :: nat \<Rightarrow> usize"] by simp
  have "unat (?n * SIZEOF_ColumnDefinition) = length cs * 24"
    using assms(5) un by (subst unat_mult_u64) (simp_all add: SIZEOF_ColumnDefinition_def)
  then have mem: "c_malloc M (?n * SIZEOF_ColumnDefinition) \<noteq> None"
    using assms(2,5) by (simp add: c_malloc_def PTRDIFF_LIMIT_def)
  from read_columns_sees [OF r3(2,4) assms(2,6), of 0] obtain m4 r4 where
    "read_columns M vt (length cs) 0 (m3, r3) = Some (number_columns 0 cs, m4, r4)" "inv m4" "content m4 = content m3"
    "reader_sees m4 r4 ys"
    by auto
  then show ?thesis
    using r1 r2 r3 mem un n by (simp add: createTableInfo_deserialize_def Let_def)
qed

end

end
