(* ===== verification/Hmap.thy ===== *)
theory Hmap
  imports Hash Interfaces "HOL-Library.Multiset"
begin

text \<open>
  The chained hash map of \<^verbatim>\<open>libv/src/hash.c\<close>. A bucket is the list of the nodes of its chain, in
  chain order; a node pointer handed to a caller is the position of the node, bucket and place
  in the chain. The hash and comparison functions are fields of the map, as in the source. The
  outcome of each allocation is an argument. \<open>hmap_inv\<close> is the representation invariant,
  \<open>hmap_abs\<close> the finite map a hash map stands for.
\<close>

section \<open>Data and operations\<close>

record ('k, 'v) hmap_node =
  node_key :: 'k
  node_value :: 'v

record ('k, 'v) hmap =
  hm_buckets :: "('k, 'v) hmap_node list list"
  hm_nbuckets :: usize
  hm_len :: usize
  hm_key_size :: usize
  hm_value_size :: usize
  hash_func :: "'k \<Rightarrow> u32"
  key_compare :: "'k \<Rightarrow> 'k \<Rightarrow> int"

type_synonym node_ptr = "nat \<times> nat"

definition HMAP_DEFAULT_NBUCKETS :: usize where
  "HMAP_DEFAULT_NBUCKETS = 16"

text \<open>\<^verbatim>\<open>calloc(n, sizeof(hmap_node*))\<close> succeeds only for an array that fits the address space.\<close>

definition calloc_buckets :: "bool \<Rightarrow> usize \<Rightarrow> ('k, 'v) hmap_node list list option" where
  "calloc_buckets ok n = (if ok \<and> unat n * 8 < PTRDIFF_LIMIT then Some (replicate (unat n) []) else None)"

definition hmap_init ::
  "bool \<Rightarrow> usize \<Rightarrow> usize \<Rightarrow> usize \<Rightarrow> ('k \<Rightarrow> u32) \<Rightarrow> ('k \<Rightarrow> 'k \<Rightarrow> int) \<Rightarrow> ('k, 'v) hmap" where
  "hmap_init ok key_sz value_sz nbuckets hf cmp =
     \<lparr>hm_buckets = (case calloc_buckets ok nbuckets of None \<Rightarrow> [] | Some b \<Rightarrow> b),
      hm_nbuckets = nbuckets, hm_len = 0, hm_key_size = key_sz, hm_value_size = value_sz,
      hash_func = hf, key_compare = cmp\<rparr>"

definition hmap_init_str :: "bool \<Rightarrow> usize \<Rightarrow> (bytes, 'v) hmap" where
  "hmap_init_str ok value_sz =
     hmap_init ok 0 value_sz HMAP_DEFAULT_NBUCKETS hmap_str_hash hmap_str_cmp"

definition hmap_init_int :: "bool \<Rightarrow> usize \<Rightarrow> (u32, 'v) hmap" where
  "hmap_init_int ok value_sz =
     hmap_init ok 4 value_sz HMAP_DEFAULT_NBUCKETS hmap_int_hash hmap_int_cmp"

definition hmap_create ::
  "bool \<Rightarrow> bool \<Rightarrow> usize \<Rightarrow> usize \<Rightarrow> usize \<Rightarrow> ('k \<Rightarrow> u32) \<Rightarrow> ('k \<Rightarrow> 'k \<Rightarrow> int) \<Rightarrow> ('k, 'v) hmap option" where
  "hmap_create ok_struct ok key_sz value_sz nbuckets hf cmp =
     (if ok_struct then Some (hmap_init ok key_sz value_sz nbuckets hf cmp) else None)"

definition hmap_deinit :: "('k, 'v) hmap \<Rightarrow> ('k, 'v) hmap" where
  "hmap_deinit hm = hm\<lparr>hm_buckets := [], hm_nbuckets := 0, hm_len := 0\<rparr>"

definition bucket_of :: "('k \<Rightarrow> u32) \<Rightarrow> usize \<Rightarrow> 'k \<Rightarrow> nat" where
  "bucket_of hf nbuckets key = unat (ucast (hf key) mod nbuckets :: usize)"

definition hmap_relink ::
  "('k \<Rightarrow> u32) \<Rightarrow> usize \<Rightarrow> ('k, 'v) hmap_node \<Rightarrow> ('k, 'v) hmap_node list list \<Rightarrow> ('k, 'v) hmap_node list list" where
  "hmap_relink hf n node bks =
     (let i = bucket_of hf n (node_key node) in bks[i := node # bks ! i])"

definition hmap_grow :: "bool \<Rightarrow> ('k, 'v) hmap \<Rightarrow> ('k, 'v) hmap" where
  "hmap_grow ok hm =
     (let new_nbuckets = hm_nbuckets hm * 2
      in case calloc_buckets ok new_nbuckets of
           None \<Rightarrow> hm
         | Some new_buckets \<Rightarrow>
             hm\<lparr>hm_buckets :=
                  fold (\<lambda>chain. fold (hmap_relink (hash_func hm) new_nbuckets) chain) (hm_buckets hm) new_buckets,
                hm_nbuckets := new_nbuckets\<rparr>)"

definition hmap_alloc_node :: "bool \<Rightarrow> 'k \<Rightarrow> 'v \<Rightarrow> ('k, 'v) hmap_node option" where
  "hmap_alloc_node ok key val = (if ok then Some \<lparr>node_key = key, node_value = val\<rparr> else None)"

fun chain_find :: "('k \<Rightarrow> 'k \<Rightarrow> int) \<Rightarrow> 'k \<Rightarrow> ('k, 'v) hmap_node list \<Rightarrow> nat option" where
  "chain_find cmp key [] = None"
| "chain_find cmp key (node # nodes) =
     (if cmp (node_key node) key = 0 then Some 0 else map_option Suc (chain_find cmp key nodes))"

text \<open>\<^verbatim>\<open>HMAP_VALUE(node)\<close> as a value and as the target of an assignment.\<close>

definition hmap_value :: "('k, 'v) hmap \<Rightarrow> node_ptr \<Rightarrow> 'v" where
  "hmap_value hm p = node_value (hm_buckets hm ! fst p ! snd p)"

definition hmap_set_value :: "('k, 'v) hmap \<Rightarrow> node_ptr \<Rightarrow> 'v \<Rightarrow> ('k, 'v) hmap" where
  "hmap_set_value hm p v =
     hm\<lparr>hm_buckets := (hm_buckets hm)[fst p :=
        (hm_buckets hm ! fst p)[snd p := (hm_buckets hm ! fst p ! snd p)\<lparr>node_value := v\<rparr>]]\<rparr>"

definition hmap_insert ::
  "bool \<Rightarrow> bool \<Rightarrow> ('k, 'v) hmap \<Rightarrow> 'k \<Rightarrow> 'v \<Rightarrow> node_ptr option \<times> ('k, 'v) hmap" where
  "hmap_insert ok_grow ok_node hm0 key val =
     (let hm = (if hm_nbuckets hm0 - drop_bit 2 (hm_nbuckets hm0) \<le> hm_len hm0
                then hmap_grow ok_grow hm0 else hm0);
          b = bucket_of (hash_func hm) (hm_nbuckets hm) key
      in case chain_find (key_compare hm) key (hm_buckets hm ! b) of
           Some i \<Rightarrow> (Some (b, i), hmap_set_value hm (b, i) val)
         | None \<Rightarrow>
             (case hmap_alloc_node ok_node key val of
                None \<Rightarrow> (None, hm)
              | Some node \<Rightarrow>
                  (Some (b, 0), hm\<lparr>hm_buckets := (hm_buckets hm)[b := node # hm_buckets hm ! b],
                                   hm_len := hm_len hm + 1\<rparr>)))"

definition hmap_get :: "('k, 'v) hmap \<Rightarrow> 'k \<Rightarrow> node_ptr option" where
  "hmap_get hm key =
     (let b = bucket_of (hash_func hm) (hm_nbuckets hm) key
      in map_option (Pair b) (chain_find (key_compare hm) key (hm_buckets hm ! b)))"

definition hmap_get_value :: "('k, 'v) hmap \<Rightarrow> 'k \<Rightarrow> 'v option" where
  "hmap_get_value hm key = map_option (hmap_value hm) (hmap_get hm key)"

definition hmap_delete :: "('k, 'v) hmap \<Rightarrow> 'k \<Rightarrow> int \<times> 'v option \<times> ('k, 'v) hmap" where
  "hmap_delete hm key =
     (let b = bucket_of (hash_func hm) (hm_nbuckets hm) key; chain = hm_buckets hm ! b
      in case chain_find (key_compare hm) key chain of
           None \<Rightarrow> (-1, None, hm)
         | Some i \<Rightarrow>
             (0, Some (node_value (chain ! i)),
              hm\<lparr>hm_buckets := (hm_buckets hm)[b := take i chain @ drop (Suc i) chain],
                 hm_len := hm_len hm - 1\<rparr>))"

definition hmap_contains :: "('k, 'v) hmap \<Rightarrow> 'k \<Rightarrow> bool" where
  "hmap_contains hm key =
     (chain_find (key_compare hm) key
        (hm_buckets hm ! bucket_of (hash_func hm) (hm_nbuckets hm) key) \<noteq> None)"

definition hmap_destroy :: "('k, 'v) hmap option \<Rightarrow> ('k, 'v) hmap option" where
  "hmap_destroy hm = None"

definition hmap_size :: "('k, 'v) hmap option \<Rightarrow> usize" where
  "hmap_size hm = (case hm of None \<Rightarrow> 0 | Some h \<Rightarrow> hm_len h)"

record ('k, 'v) hmap_iterator =
  it_hmap :: "('k, 'v) hmap"
  it_bucket_idx :: usize
  it_node :: "node_ptr option"

definition hmap_iter_init :: "('k, 'v) hmap \<Rightarrow> ('k, 'v) hmap_iterator" where
  "hmap_iter_init hm = \<lparr>it_hmap = hm, it_bucket_idx = 0, it_node = None\<rparr>"

function hmap_iter_seek :: "('k, 'v) hmap \<Rightarrow> usize \<Rightarrow> usize \<times> node_ptr option" where
  "hmap_iter_seek hm idx =
     (if idx < hm_nbuckets hm
      then if hm_buckets hm ! unat idx \<noteq> [] then (idx + 1, Some (unat idx, 0))
           else hmap_iter_seek hm (idx + 1)
      else (idx, None))"
  by pat_completeness auto
termination
proof (relation "measure (\<lambda>(hm, idx). unat (hm_nbuckets hm) - unat idx)", goal_cases)
  case 1
  show ?case by simp
next
  case (2 hm idx)
  then show ?case using unat_inc_less [of idx "hm_nbuckets hm"] by (simp add: u64_ord)
qed

declare hmap_iter_seek.simps [simp del]

definition hmap_iter_next :: "('k, 'v) hmap_iterator \<Rightarrow> bool \<times> ('k, 'v) hmap_iterator" where
  "hmap_iter_next it =
     (let nxt = (case it_node it of
                   None \<Rightarrow> None
                 | Some (b, i) \<Rightarrow> if Suc i < length (hm_buckets (it_hmap it) ! b) then Some (b, Suc i) else None)
      in case nxt of
           Some p \<Rightarrow> (True, it\<lparr>it_node := Some p\<rparr>)
         | None \<Rightarrow>
             (case hmap_iter_seek (it_hmap it) (it_bucket_idx it) of
                (idx, p) \<Rightarrow> (p \<noteq> None, it\<lparr>it_bucket_idx := idx, it_node := p\<rparr>)))"

definition hmap_iter_key :: "('k, 'v) hmap_iterator \<Rightarrow> 'k option" where
  "hmap_iter_key it = map_option (\<lambda>(b, i). node_key (hm_buckets (it_hmap it) ! b ! i)) (it_node it)"

definition hmap_iter_value :: "('k, 'v) hmap_iterator \<Rightarrow> 'v option" where
  "hmap_iter_value it = map_option (hmap_value (it_hmap it)) (it_node it)"

text \<open>The loop of the macro \<^verbatim>\<open>HMAP_FOREACH\<close>: the values its body sees, in order.\<close>

lemma hmap_iter_seek_Some:
  "hmap_iter_seek hm idx = (idx', Some p) \<Longrightarrow>
     unat idx < unat idx' \<and> unat idx' \<le> unat (hm_nbuckets hm)"
proof (induction hm idx rule: hmap_iter_seek.induct)
  case (1 hm idx)
  then show ?case
    using unat_inc_less [of idx "hm_nbuckets hm"]
    by (subst (asm) (2) hmap_iter_seek.simps) (auto simp: u64_ord split: if_splits)
qed

definition hmap_iter_order :: "(('k, 'v) hmap_iterator \<times> ('k, 'v) hmap_iterator) set" where
  "hmap_iter_order = measures
     [\<lambda>it. unat (hm_nbuckets (it_hmap it)) - unat (it_bucket_idx it),
      \<lambda>it. case it_node it of None \<Rightarrow> 0 | Some (b, i) \<Rightarrow> length (hm_buckets (it_hmap it) ! b) - i]"

lemma hmap_iter_next_order:
  "hmap_iter_next it = (True, it') \<Longrightarrow> (it', it) \<in> hmap_iter_order"
  by (auto simp: hmap_iter_next_def hmap_iter_order_def Let_def split: option.splits prod.splits if_splits
      dest: hmap_iter_seek_Some)

function hmap_foreach :: "('k, 'v) hmap_iterator \<Rightarrow> 'v option list" where
  "hmap_foreach it =
     (case hmap_iter_next it of
        (go, it') \<Rightarrow> if go then hmap_iter_value it' # hmap_foreach it' else [])"
  by pat_completeness auto
termination
  by (relation hmap_iter_order)
    (simp add: hmap_iter_order_def, auto dest!: sym [of "(_, _)"] hmap_iter_next_order)

declare hmap_foreach.simps [simp del]

section \<open>Representation invariant and abstraction\<close>

definition key_order_ok :: "('k \<Rightarrow> 'k \<Rightarrow> int) \<Rightarrow> bool" where
  "key_order_ok cmp \<longleftrightarrow> (\<forall>a b. cmp a b = 0 \<longleftrightarrow> a = b)"

definition hmap_placed :: "('k \<Rightarrow> u32) \<Rightarrow> usize \<Rightarrow> ('k, 'v) hmap_node list list \<Rightarrow> bool" where
  "hmap_placed hf n bks \<longleftrightarrow>
     length bks = unat n \<and> (\<forall>i < length bks. \<forall>node \<in> set (bks ! i). bucket_of hf n (node_key node) = i)"

definition hmap_nodes :: "('k, 'v) hmap \<Rightarrow> ('k, 'v) hmap_node list" where
  "hmap_nodes hm = concat (hm_buckets hm)"

definition hmap_inv :: "('k, 'v) hmap \<Rightarrow> bool" where
  "hmap_inv hm \<longleftrightarrow>
     key_order_ok (key_compare hm) \<and> 0 < hm_nbuckets hm \<and> unat (hm_nbuckets hm) * 8 < PTRDIFF_LIMIT \<and>
     hmap_placed (hash_func hm) (hm_nbuckets hm) (hm_buckets hm) \<and>
     distinct (map node_key (hmap_nodes hm)) \<and> unat (hm_len hm) = length (hmap_nodes hm)"

definition node_pair :: "('k, 'v) hmap_node \<Rightarrow> 'k \<times> 'v" where
  "node_pair n = (node_key n, node_value n)"

definition hmap_abs :: "('k, 'v) hmap \<Rightarrow> 'k \<rightharpoonup> 'v" where
  "hmap_abs hm = map_of (map node_pair (hmap_nodes hm))"

lemma map_fst_node_pair [simp]: "map (fst \<circ> node_pair) ns = map node_key ns"
  by (simp add: node_pair_def)

lemma map_of_nodes_iff:
  "distinct (map node_key ns) \<Longrightarrow>
   map_of (map node_pair ns) k = Some v \<longleftrightarrow> (\<exists>n \<in> set ns. node_key n = k \<and> node_value n = v)"
  by (subst map_of_eq_Some_iff) (auto simp: node_pair_def)

lemma map_of_nodes_None_iff:
  "map_of (map node_pair ns) k = None \<longleftrightarrow> k \<notin> node_key ` set ns"
  by (force simp: map_of_eq_None_iff node_pair_def)

lemma map_of_nodes_mset:
  assumes "distinct (map node_key xs)" "mset xs = mset ys"
  shows "map_of (map node_pair xs) = map_of (map node_pair ys)"
proof (rule ext)
  fix k
  have "distinct (map node_key ys)"
    using assms by (metis mset_map mset_eq_imp_distinct_iff)
  moreover have "set xs = set ys" using assms(2) by (rule mset_eq_setD)
  ultimately show "map_of (map node_pair xs) k = map_of (map node_pair ys) k"
    using assms(1) map_of_nodes_iff [of xs k] map_of_nodes_iff [of ys k]
    by (metis not_None_eq)
qed

lemma bucket_of_less: "0 < n \<Longrightarrow> bucket_of hf n k < unat n"
  by (simp add: bucket_of_def unat_mod word_less_nat_alt)

lemma mset_concat_update:
  assumes "b < length xs"
  shows "mset (concat (xs[b := ys])) + mset (xs ! b) = mset (concat xs) + mset ys"
proof -
  have x: "concat xs = concat (take b xs) @ xs ! b @ concat (drop (Suc b) xs)"
    using arg_cong [OF id_take_nth_drop [OF assms], of concat] by simp
  show ?thesis
    by (simp add: upd_conv_take_nth_drop [OF assms]) (simp add: x)
qed

lemma chain_find_Some:
  "key_order_ok cmp \<Longrightarrow> chain_find cmp k ns = Some i \<Longrightarrow> i < length ns \<and> node_key (ns ! i) = k"
  by (induction ns arbitrary: i) (auto simp: key_order_ok_def split: if_splits)

lemma chain_find_None:
  "key_order_ok cmp \<Longrightarrow> chain_find cmp k ns = None \<longleftrightarrow> k \<notin> node_key ` set ns"
  by (induction ns) (auto simp: key_order_ok_def)

lemma chain_find_keys:
  "map node_key ns = map node_key ms \<Longrightarrow> chain_find cmp k ns = chain_find cmp k ms"
proof (induction ns arbitrary: ms)
  case (Cons n ns)
  then show ?case by (cases ms) auto
qed simp

lemma hmap_key_in_bucket:
  assumes inv: "hmap_inv hm" and n: "n \<in> set (hmap_nodes hm)"
  shows "n \<in> set (hm_buckets hm ! bucket_of (hash_func hm) (hm_nbuckets hm) (node_key n))"
proof -
  from n obtain chain where "chain \<in> set (hm_buckets hm)" "n \<in> set chain"
    by (auto simp: hmap_nodes_def)
  then obtain i where "i < length (hm_buckets hm)" "n \<in> set (hm_buckets hm ! i)"
    by (auto simp: in_set_conv_nth [of chain])
  then show ?thesis using inv by (auto simp: hmap_inv_def hmap_placed_def)
qed

lemma hmap_bucket_less:
  "hmap_inv hm \<Longrightarrow> bucket_of (hash_func hm) (hm_nbuckets hm) k < length (hm_buckets hm)"
  using bucket_of_less [of "hm_nbuckets hm"] by (simp add: hmap_inv_def hmap_placed_def)

lemma hmap_bucket_subset:
  "hmap_inv hm \<Longrightarrow> set (hm_buckets hm ! bucket_of (hash_func hm) (hm_nbuckets hm) k) \<subseteq> set (hmap_nodes hm)"
  using nth_mem [OF hmap_bucket_less [of hm k]] by (auto simp: hmap_nodes_def)

section \<open>Lookup\<close>

lemma hmap_get_None_iff:
  assumes inv: "hmap_inv hm"
  shows "hmap_get hm k = None \<longleftrightarrow> hmap_abs hm k = None"
proof -
  have "hmap_get hm k = None \<longleftrightarrow>
      k \<notin> node_key ` set (hm_buckets hm ! bucket_of (hash_func hm) (hm_nbuckets hm) k)"
    using inv by (simp add: hmap_get_def Let_def hmap_inv_def chain_find_None)
  also have "\<dots> \<longleftrightarrow> k \<notin> node_key ` set (hmap_nodes hm)"
    using hmap_key_in_bucket [OF inv] hmap_bucket_subset [OF inv, of k] by auto
  finally show ?thesis by (simp add: hmap_abs_def map_of_nodes_None_iff)
qed

lemma hmap_get_Some:
  assumes inv: "hmap_inv hm" and get: "hmap_get hm k = Some p"
  shows "fst p < length (hm_buckets hm) \<and> snd p < length (hm_buckets hm ! fst p) \<and>
         fst p = bucket_of (hash_func hm) (hm_nbuckets hm) k \<and>
         node_key (hm_buckets hm ! fst p ! snd p) = k \<and> hmap_abs hm k = Some (hmap_value hm p)"
proof -
  let ?b = "bucket_of (hash_func hm) (hm_nbuckets hm) k"
  from get obtain i where i: "chain_find (key_compare hm) k (hm_buckets hm ! ?b) = Some i" "p = (?b, i)"
    by (auto simp: hmap_get_def Let_def)
  have c: "i < length (hm_buckets hm ! ?b)" "node_key (hm_buckets hm ! ?b ! i) = k"
    using chain_find_Some [OF _ i(1)] inv by (simp_all add: hmap_inv_def)
  have "hm_buckets hm ! ?b ! i \<in> set (hmap_nodes hm)"
    using c hmap_bucket_subset [OF inv, of k] by auto
  moreover have "distinct (map node_key (hmap_nodes hm))" using inv by (simp add: hmap_inv_def)
  ultimately have "hmap_abs hm k = Some (hmap_value hm p)"
    unfolding hmap_abs_def using c by (subst map_of_nodes_iff) (auto simp: hmap_value_def i(2))
  then show ?thesis using c i(2) hmap_bucket_less [OF inv] by simp
qed

lemma hmap_get_value_abs: "hmap_inv hm \<Longrightarrow> hmap_get_value hm k = hmap_abs hm k"
  using hmap_get_None_iff [of hm k] hmap_get_Some [of hm k]
  by (cases "hmap_get hm k") (auto simp: hmap_get_value_def)

lemma hmap_contains_abs: "hmap_inv hm \<Longrightarrow> hmap_contains hm k \<longleftrightarrow> hmap_abs hm k \<noteq> None"
  using hmap_get_None_iff [of hm k] by (auto simp: hmap_contains_def hmap_get_def Let_def)

section \<open>Insertion, growth, assignment, deletion\<close>

lemma hmap_relink_ok:
  assumes "hmap_placed hf n bks" "0 < n"
  shows "hmap_placed hf n (hmap_relink hf n node bks) \<and>
         mset (concat (hmap_relink hf n node bks)) = add_mset node (mset (concat bks))"
proof -
  let ?i = "bucket_of hf n (node_key node)"
  have i: "?i < length bks" using bucket_of_less [OF assms(2)] assms(1) by (simp add: hmap_placed_def)
  have "hmap_placed hf n (bks[?i := node # bks ! ?i])"
    using assms(1) i by (auto simp: hmap_placed_def nth_list_update)
  then show ?thesis
    using mset_concat_update [OF i, of "node # bks ! ?i"] by (simp add: hmap_relink_def Let_def)
qed

lemma hmap_relink_chain:
  assumes "hmap_placed hf n bks" "0 < n"
  shows "hmap_placed hf n (fold (hmap_relink hf n) chain bks) \<and>
         mset (concat (fold (hmap_relink hf n) chain bks)) = mset chain + mset (concat bks)"
  using assms
proof (induction chain arbitrary: bks)
  case Nil
  then show ?case by simp
next
  case (Cons node chain)
  then show ?case using hmap_relink_ok [OF Cons.prems, of node] by simp
qed

lemma hmap_relink_all:
  assumes "hmap_placed hf n bks" "0 < n"
  shows "hmap_placed hf n (fold (\<lambda>chain. fold (hmap_relink hf n) chain) css bks) \<and>
         mset (concat (fold (\<lambda>chain. fold (hmap_relink hf n) chain) css bks))
           = mset (concat css) + mset (concat bks)"
  using assms
proof (induction css arbitrary: bks)
  case Nil
  then show ?case by simp
next
  case (Cons chain css)
  then show ?case using hmap_relink_chain [OF Cons.prems, of chain] by (simp add: ac_simps)
qed

lemma distinct_keys_mset:
  "mset xs = mset ys \<Longrightarrow> distinct (map node_key xs) = distinct (map node_key ys)"
  by (metis mset_map mset_eq_imp_distinct_iff)

text \<open>
  Growing never changes the map, whether or not the new bucket array can be allocated.
\<close>

lemma hmap_grow_ok:
  assumes inv: "hmap_inv hm"
  shows "hmap_inv (hmap_grow ok hm) \<and> hmap_abs (hmap_grow ok hm) = hmap_abs hm \<and>
         hm_len (hmap_grow ok hm) = hm_len hm \<and> hash_func (hmap_grow ok hm) = hash_func hm \<and>
         key_compare (hmap_grow ok hm) = key_compare hm"
proof (cases "calloc_buckets ok (hm_nbuckets hm * 2) :: ('a, 'b) hmap_node list list option")
  case None
  then show ?thesis using inv by (simp add: hmap_grow_def Let_def)
next
  case (Some nb)
  let ?n = "hm_nbuckets hm * 2"
  have n: "unat ?n = unat (hm_nbuckets hm) * 2"
    using inv by (subst unat_mult_u64) (simp_all add: hmap_inv_def PTRDIFF_LIMIT_def)
  have pos: "0 < ?n" using inv n by (simp add: u64_ord hmap_inv_def)
  have nb: "nb = replicate (unat ?n) []" and fit: "unat ?n * 8 < PTRDIFF_LIMIT"
    using Some by (auto simp: calloc_buckets_def split: if_splits)
  have "hmap_placed (hash_func hm) ?n nb" by (simp add: nb hmap_placed_def)
  note r = hmap_relink_all [OF this pos, of "hm_buckets hm"]
  let ?new = "hmap_grow ok hm"
  have new: "hm_buckets ?new = fold (\<lambda>chain. fold (hmap_relink (hash_func hm) ?n) chain) (hm_buckets hm) nb"
      "hm_nbuckets ?new = ?n" "hm_len ?new = hm_len hm" "hash_func ?new = hash_func hm"
      "key_compare ?new = key_compare hm"
    using Some by (simp_all add: hmap_grow_def Let_def)
  have ms: "mset (hmap_nodes ?new) = mset (hmap_nodes hm)"
    using r by (simp add: hmap_nodes_def new nb)
  have "distinct (map node_key (hmap_nodes ?new))"
    using distinct_keys_mset [OF ms] inv by (simp add: hmap_inv_def)
  then show ?thesis
    using r inv pos fit new ms mset_eq_length [OF ms] map_of_nodes_mset [OF _ ms]
    by (simp add: hmap_inv_def hmap_abs_def)
qed

lemma mset_take_nth_drop:
  "i < length xs \<Longrightarrow> mset xs = mset (take i xs) + add_mset (xs ! i) (mset (drop (Suc i) xs))"
  by (subst id_take_nth_drop, assumption) simp

lemma mset_list_update:
  "i < length xs \<Longrightarrow> add_mset (xs ! i) (mset (xs[i := x])) = add_mset x (mset xs)"
  using mset_take_nth_drop [of i xs] by (simp add: upd_conv_take_nth_drop)

lemma map_of_nodes_add:
  assumes "distinct (map node_key xs)" "mset xs = add_mset n (mset ys)"
  shows "map_of (map node_pair xs) = (map_of (map node_pair ys))(node_key n \<mapsto> node_value n) \<and>
         node_key n \<notin> node_key ` set ys \<and> distinct (map node_key ys)"
proof -
  have m: "mset xs = mset (n # ys)" using assms(2) by simp
  have "distinct (map node_key (n # ys))" using assms(1) distinct_keys_mset [OF m] by simp
  then show ?thesis using map_of_nodes_mset [OF assms(1) m] by (auto simp: node_pair_def)
qed

text \<open>The nodes of a map with the node that a lookup finds taken out.\<close>

lemma hmap_nodes_split:
  assumes inv: "hmap_inv hm" and get: "hmap_get hm k = Some (b, i)"
  obtains ys where
    "mset (hmap_nodes hm) = add_mset (hm_buckets hm ! b ! i) (mset ys)"
    "\<And>c. mset (concat ((hm_buckets hm)[b := c])) + mset (hm_buckets hm ! b)
       = mset c + add_mset (hm_buckets hm ! b ! i) (mset ys)"
proof -
  note g = hmap_get_Some [OF inv get, simplified]
  have "hm_buckets hm ! b ! i \<in> set (hmap_nodes hm)"
    using g hmap_bucket_subset [OF inv, of k] by auto
  then have m: "mset (hmap_nodes hm) = add_mset (hm_buckets hm ! b ! i) (mset (remove1 (hm_buckets hm ! b ! i) (hmap_nodes hm)))"
    by simp
  show thesis
  proof (rule that [OF m])
    fix c
    show "mset (concat ((hm_buckets hm)[b := c])) + mset (hm_buckets hm ! b)
        = mset c + add_mset (hm_buckets hm ! b ! i) (mset (remove1 (hm_buckets hm ! b ! i) (hmap_nodes hm)))"
      using mset_concat_update [of b "hm_buckets hm" c] g m by (simp add: hmap_nodes_def)
  qed
qed

lemma hmap_set_value_ok:
  assumes inv: "hmap_inv hm" and get: "hmap_get hm k = Some p"
  shows "hmap_inv (hmap_set_value hm p v) \<and> hmap_abs (hmap_set_value hm p v) = (hmap_abs hm)(k \<mapsto> v) \<and>
         hm_len (hmap_set_value hm p v) = hm_len hm"
proof -
  obtain b i where p: "p = (b, i)" by fastforce
  note g = hmap_get_Some [OF inv get, unfolded p, simplified]
  let ?old = "hm_buckets hm ! b ! i" and ?chain = "hm_buckets hm ! b"
  let ?node = "?old\<lparr>node_value := v\<rparr>" and ?new = "hmap_set_value hm p v"
  have new: "hm_buckets ?new = (hm_buckets hm)[b := ?chain[i := ?node]]"
    by (simp add: hmap_set_value_def p)
  from inv get [unfolded p] obtain ys where
    ys: "mset (hmap_nodes hm) = add_mset ?old (mset ys)"
        "\<And>c. mset (concat ((hm_buckets hm)[b := c])) + mset ?chain = mset c + add_mset ?old (mset ys)"
    by (rule hmap_nodes_split) blast
  have key: "node_key ?old = k" using g by blast
  have chain: "add_mset ?old (mset (?chain[i := ?node])) = add_mset ?node (mset ?chain)"
    using g by (intro mset_list_update) blast
  have "mset (hmap_nodes ?new) + mset ?chain = add_mset ?node (mset ys) + mset ?chain"
    using ys(2) [of "?chain[i := ?node]"] chain by (simp add: hmap_nodes_def new)
  then have ms: "mset (hmap_nodes ?new) = add_mset ?node (mset ys)" by simp
  have dist: "distinct (map node_key (hmap_nodes hm))" using inv by (simp add: hmap_inv_def)
  note old = map_of_nodes_add [OF dist ys(1)]
  have "mset (map node_key (hmap_nodes ?new)) = mset (map node_key (?old # ys))"
    by (simp add: ms)
  then have dist': "distinct (map node_key (hmap_nodes ?new))"
    using old by (metis mset_eq_imp_distinct_iff distinct.simps(2) list.simps(9) list.set_map)
  have "hmap_placed (hash_func hm) (hm_nbuckets hm) (hm_buckets ?new)"
    using inv g by (auto simp: new hmap_inv_def hmap_placed_def nth_list_update
        dest!: set_update_subset_insert [THEN subsetD])
  moreover have "length (hmap_nodes ?new) = length (hmap_nodes hm)"
    using arg_cong [OF ms, of size] arg_cong [OF ys(1), of size] by simp
  ultimately have inv': "hmap_inv ?new"
    using inv dist' by (simp add: hmap_inv_def hmap_set_value_def p)
  have "hmap_abs ?new = (map_of (map node_pair ys))(k \<mapsto> v)"
    using map_of_nodes_add [OF dist' ms] key by (simp add: hmap_abs_def)
  then show ?thesis using inv' old key by (simp add: hmap_abs_def hmap_set_value_def p)
qed

text \<open>
  \<^verbatim>\<open>hmap_insert\<close>: the key is bound to the value afterwards and every other binding is kept; when
  the node cannot be allocated the map is unchanged and the result is NULL.
\<close>

definition hmap_room :: "('k, 'v) hmap \<Rightarrow> bool" where
  "hmap_room hm \<longleftrightarrow> unat (hm_len hm) < 2 ^ 64 - 1"

lemma hmap_insert_node_ok:
  assumes inv: "hmap_inv hm" and none: "hmap_get hm k = None" and room: "hmap_room hm"
    and b: "b = bucket_of (hash_func hm) (hm_nbuckets hm) k"
    and new: "new = hm\<lparr>hm_buckets := (hm_buckets hm)[b := \<lparr>node_key = k, node_value = v\<rparr> # hm_buckets hm ! b],
                       hm_len := hm_len hm + 1\<rparr>"
  shows "hmap_inv new \<and> hmap_abs new = (hmap_abs hm)(k \<mapsto> v)"
proof -
  let ?node = "\<lparr>node_key = k, node_value = v\<rparr>"
  have r: "hm_buckets new = hmap_relink (hash_func hm) (hm_nbuckets hm) ?node (hm_buckets hm)"
    by (simp add: new b hmap_relink_def Let_def)
  have "hmap_placed (hash_func hm) (hm_nbuckets hm) (hm_buckets hm)" "0 < hm_nbuckets hm"
    using inv by (simp_all add: hmap_inv_def)
  note rl = hmap_relink_ok [OF this, of ?node, folded r]
  then have ms: "mset (hmap_nodes new) = mset (?node # hmap_nodes hm)" by (simp add: hmap_nodes_def)
  have "k \<notin> node_key ` set (hmap_nodes hm)"
    using none hmap_get_None_iff [OF inv] by (simp add: hmap_abs_def map_of_nodes_None_iff)
  then have dist: "distinct (map node_key (hmap_nodes new))"
    using distinct_keys_mset [OF ms] inv by (simp add: hmap_inv_def)
  have "unat (hm_len hm + 1) = unat (hm_len hm) + 1"
    using room by (subst unat_inc_u64) (simp_all add: hmap_room_def)
  then have "hmap_inv new"
    using inv rl dist mset_eq_length [OF ms] by (simp add: hmap_inv_def new)
  moreover have "hmap_abs new = (hmap_abs hm)(k \<mapsto> v)"
    using map_of_nodes_mset [OF dist ms] by (simp add: hmap_abs_def node_pair_def)
  ultimately show ?thesis ..
qed

lemma hmap_insert_ok:
  assumes inv: "hmap_inv hm" and room: "hmap_room hm"
  shows "case hmap_insert ok_grow ok_node hm k v of
           (Some p, hm') \<Rightarrow> hmap_inv hm' \<and> hmap_abs hm' = (hmap_abs hm)(k \<mapsto> v) \<and> hmap_get hm' k = Some p
         | (None, hm') \<Rightarrow> hmap_inv hm' \<and> hmap_abs hm' = hmap_abs hm \<and> \<not> ok_node \<and> hmap_abs hm k = None"
proof -
  let ?hm = "if hm_nbuckets hm - drop_bit 2 (hm_nbuckets hm) \<le> hm_len hm then hmap_grow ok_grow hm else hm"
  define h where "h = ?hm"
  let ?b = "bucket_of (hash_func h) (hm_nbuckets h) k"
  have h: "hmap_inv h" "hmap_abs h = hmap_abs hm" "hmap_room h"
    using hmap_grow_ok [OF inv, of ok_grow] inv room by (auto simp: h_def hmap_room_def)
  have ins: "hmap_insert ok_grow ok_node hm k v =
      (case hmap_get h k of
         Some p \<Rightarrow> (Some p, hmap_set_value h p v)
       | None \<Rightarrow> if ok_node
           then (Some (?b, 0), h\<lparr>hm_buckets := (hm_buckets h)[?b := \<lparr>node_key = k, node_value = v\<rparr> # hm_buckets h ! ?b],
                              hm_len := hm_len h + 1\<rparr>)
           else (None, h))"
    unfolding hmap_insert_def h_def [symmetric]
    by (simp add: hmap_get_def Let_def hmap_alloc_node_def split: option.splits)
  show ?thesis
  proof (cases "hmap_get h k")
    case None
    then show ?thesis
      using hmap_insert_node_ok [OF h(1) None h(3) refl refl, of v] h hmap_get_None_iff [OF h(1), of k]
        hmap_bucket_less [OF h(1), of k]
      by (auto simp: ins hmap_get_def Let_def hmap_inv_def key_order_ok_def)
  next
    case (Some p)
    note sv = hmap_set_value_ok [OF h(1) Some, of v]
    have "hmap_get (hmap_set_value h p v) k = Some p"
    proof -
      note g = hmap_get_Some [OF h(1) Some]
      have "chain_find (key_compare h) k ((hm_buckets h ! fst p)[snd p := (hm_buckets h ! fst p ! snd p)\<lparr>node_value := v\<rparr>])
          = chain_find (key_compare h) k (hm_buckets h ! fst p)"
        using g by (intro chain_find_keys) (metis list_update_same_conv map_update hmap_node.select_convs(1) hmap_node.surjective hmap_node.update_convs(2) nth_map length_map)
      then show ?thesis using Some g by (simp add: hmap_get_def hmap_set_value_def Let_def)
    qed
    then show ?thesis using sv h by (simp add: ins Some)
  qed
qed

lemma hmap_delete_ok:
  assumes inv: "hmap_inv hm"
  shows "case hmap_delete hm k of (rc, out, hm') \<Rightarrow>
           hmap_inv hm' \<and> hmap_abs hm' = (hmap_abs hm)(k := None) \<and> out = hmap_abs hm k \<and>
           (rc = 0 \<longleftrightarrow> k \<in> dom (hmap_abs hm)) \<and> (rc = -1 \<longleftrightarrow> k \<notin> dom (hmap_abs hm))"
proof (cases "hmap_get hm k")
  case None
  then show ?thesis using inv hmap_get_None_iff [OF inv, of k]
    by (auto simp: hmap_delete_def hmap_get_def Let_def)
next
  case (Some p)
  obtain b i where p: "p = (b, i)" by fastforce
  note g = hmap_get_Some [OF inv Some, unfolded p, simplified]
  let ?old = "hm_buckets hm ! b ! i" and ?chain = "hm_buckets hm ! b"
  let ?new = "hm\<lparr>hm_buckets := (hm_buckets hm)[b := take i ?chain @ drop (Suc i) ?chain], hm_len := hm_len hm - 1\<rparr>"
  have del: "hmap_delete hm k = (0, Some (node_value ?old), ?new)"
    using Some g by (auto simp: hmap_delete_def hmap_get_def Let_def p)
  from inv Some [unfolded p] obtain ys where
    ys: "mset (hmap_nodes hm) = add_mset ?old (mset ys)"
        "\<And>c. mset (concat ((hm_buckets hm)[b := c])) + mset ?chain = mset c + add_mset ?old (mset ys)"
    by (rule hmap_nodes_split) blast
  have "mset ?chain = mset (take i ?chain) + add_mset ?old (mset (drop (Suc i) ?chain))"
    using g by (intro mset_take_nth_drop) blast
  then have "mset (hmap_nodes ?new) + mset ?chain = mset ys + mset ?chain"
    using ys(2) [of "take i ?chain @ drop (Suc i) ?chain"] by (simp add: hmap_nodes_def)
  then have ms: "mset (hmap_nodes ?new) = mset ys" by simp
  have key: "node_key ?old = k" using g by blast
  have dist: "distinct (map node_key (hmap_nodes hm))" using inv by (simp add: hmap_inv_def)
  note old = map_of_nodes_add [OF dist ys(1)]
  have dist': "distinct (map node_key (hmap_nodes ?new))"
    using old distinct_keys_mset [OF ms] by simp
  have placed: "hmap_placed (hash_func hm) (hm_nbuckets hm) (hm_buckets ?new)"
    using inv g by (auto simp: hmap_inv_def hmap_placed_def nth_list_update
        dest!: in_set_takeD in_set_dropD)
  have "unat (hm_len hm - 1) = length (hmap_nodes ?new)"
    using inv arg_cong [OF ms, of size] arg_cong [OF ys(1), of size]
    by (subst unat_sub_u64) (simp_all add: hmap_inv_def u64_ord)
  then have "hmap_inv ?new" using inv dist' placed by (simp add: hmap_inv_def)
  moreover have "hmap_abs ?new = (hmap_abs hm)(k := None)"
    using old map_of_nodes_mset [OF dist' ms] key map_of_nodes_None_iff [of ys k]
    by (simp add: hmap_abs_def fun_upd_idem)
  ultimately show ?thesis using g by (auto simp: del hmap_value_def)
qed

lemma hmap_init_ok:
  assumes "key_order_ok cmp" "0 < n" "unat n * 8 < PTRDIFF_LIMIT"
  shows "hmap_inv (hmap_init True ks vs n hf cmp) \<and> hmap_abs (hmap_init True ks vs n hf cmp) = Map.empty"
  using assms
  by (simp add: hmap_init_def calloc_buckets_def hmap_inv_def hmap_placed_def hmap_nodes_def hmap_abs_def)

section \<open>Iteration\<close>

text \<open>The nodes an iterator has still to visit.\<close>

definition it_chain_rest :: "('k, 'v) hmap_iterator \<Rightarrow> ('k, 'v) hmap_node list" where
  "it_chain_rest it = (case it_node it of None \<Rightarrow> [] | Some (b, i) \<Rightarrow> drop (Suc i) (hm_buckets (it_hmap it) ! b))"

definition it_rest :: "('k, 'v) hmap_iterator \<Rightarrow> ('k, 'v) hmap_node list" where
  "it_rest it = it_chain_rest it @ concat (drop (unat (it_bucket_idx it)) (hm_buckets (it_hmap it)))"

lemma hmap_iter_seek_rest:
  assumes "length (hm_buckets hm) = unat (hm_nbuckets hm)"
  shows "case hmap_iter_seek hm idx of
           (idx', Some (b, i)) \<Rightarrow> i = 0 \<and> b < length (hm_buckets hm) \<and> hm_buckets hm ! b \<noteq> [] \<and>
             concat (drop (unat idx) (hm_buckets hm)) = hm_buckets hm ! b @ concat (drop (unat idx') (hm_buckets hm))
         | (idx', None) \<Rightarrow> concat (drop (unat idx) (hm_buckets hm)) = []"
  using assms
proof (induction hm idx rule: hmap_iter_seek.induct)
  case (1 hm idx)
  show ?case
  proof (cases "idx < hm_nbuckets hm")
    case True
    then have lt: "unat idx < length (hm_buckets hm)" using "1.prems" by (simp add: u64_ord)
    have d: "concat (drop (unat idx) (hm_buckets hm)) =
        hm_buckets hm ! unat idx @ concat (drop (unat (idx + 1)) (hm_buckets hm))"
      by (simp add: Cons_nth_drop_Suc [OF lt, symmetric] unat_inc_less [OF True])
    show ?thesis
    proof (cases "hm_buckets hm ! unat idx = []")
      case False
      then show ?thesis using True lt d by (subst hmap_iter_seek.simps) simp
    next
      case empty: True
      then have "hmap_iter_seek hm idx = hmap_iter_seek hm (idx + 1)"
        using True by (subst hmap_iter_seek.simps) simp
      then show ?thesis using "1.IH" [OF True] empty "1.prems" d
        by (simp del: concat_eq_Nil_conv split: prod.splits option.splits)
    qed
  next
    case False
    then show ?thesis using "1.prems" by (subst hmap_iter_seek.simps) (simp add: u64_ord)
  qed
qed

lemma hmap_iter_next_rest:
  assumes "length (hm_buckets (it_hmap it)) = unat (hm_nbuckets (it_hmap it))"
  shows "case it_rest it of
           [] \<Rightarrow> \<not> fst (hmap_iter_next it)
         | n # ns \<Rightarrow> fst (hmap_iter_next it) \<and> it_hmap (snd (hmap_iter_next it)) = it_hmap it \<and>
             hmap_iter_value (snd (hmap_iter_next it)) = Some (node_value n) \<and>
             hmap_iter_key (snd (hmap_iter_next it)) = Some (node_key n) \<and>
             it_rest (snd (hmap_iter_next it)) = ns"
proof (cases "it_chain_rest it")
  case Nil
  then have "hmap_iter_next it =
      (case hmap_iter_seek (it_hmap it) (it_bucket_idx it) of
         (idx, p) \<Rightarrow> (p \<noteq> None, it\<lparr>it_bucket_idx := idx, it_node := p\<rparr>))"
    by (auto simp: hmap_iter_next_def it_chain_rest_def Let_def split: option.splits)
  then show ?thesis
    using hmap_iter_seek_rest [OF assms, of "it_bucket_idx it"] Nil
    by (auto simp: it_rest_def it_chain_rest_def hmap_iter_value_def hmap_iter_key_def hmap_value_def neq_Nil_conv
        simp del: concat_eq_Nil_conv split: prod.splits option.splits)
next
  case (Cons n ns)
  then obtain b i where bi: "it_node it = Some (b, i)" "drop (Suc i) (hm_buckets (it_hmap it) ! b) = n # ns"
    by (auto simp: it_chain_rest_def split: option.splits)
  then have "Suc i < length (hm_buckets (it_hmap it) ! b)" by (metis drop_all list.distinct(1) not_le)
  with bi show ?thesis
    by (auto simp: it_rest_def it_chain_rest_def hmap_iter_next_def hmap_iter_value_def hmap_iter_key_def
        hmap_value_def Cons_nth_drop_Suc [symmetric])
qed

lemma hmap_foreach_rest:
  assumes "length (hm_buckets (it_hmap it)) = unat (hm_nbuckets (it_hmap it))"
  shows "hmap_foreach it = map (Some \<circ> node_value) (it_rest it)"
  using assms
proof (induction it rule: hmap_foreach.induct)
  case (1 it)
  obtain go it' where nx: "hmap_iter_next it = (go, it')" by fastforce
  show ?case
    using "1.IH" [OF nx [symmetric]] hmap_iter_next_rest [OF "1.prems"] "1.prems"
    by (subst hmap_foreach.simps) (simp add: nx split: list.splits if_splits)
qed

lemma hmap_foreach_nodes:
  assumes "hmap_inv hm"
  shows "hmap_foreach (hmap_iter_init hm) = map (Some \<circ> node_value) (hmap_nodes hm)"
  using assms by (subst hmap_foreach_rest)
    (simp_all add: hmap_iter_init_def it_rest_def it_chain_rest_def hmap_nodes_def hmap_inv_def hmap_placed_def)

section \<open>The interface\<close>

definition hmap_put :: "bool \<Rightarrow> ('k, 'v) hmap \<Rightarrow> 'k \<Rightarrow> 'v \<Rightarrow> ('k, 'v) hmap" where
  "hmap_put ok_grow hm k v = snd (hmap_insert ok_grow True hm k v)"

definition hmap_del :: "('k, 'v) hmap \<Rightarrow> 'k \<Rightarrow> ('k, 'v) hmap" where
  "hmap_del hm k = snd (snd (hmap_delete hm k))"

lemma hmap_len_card:
  assumes "hmap_inv hm"
  shows "finite (dom (hmap_abs hm)) \<and> card (dom (hmap_abs hm)) = unat (hm_len hm)"
proof -
  have "dom (hmap_abs hm) = set (map node_key (hmap_nodes hm))"
    by (simp add: hmap_abs_def dom_map_of_conv_image_fst image_image node_pair_def)
  then show ?thesis
    using assms distinct_card [of "map node_key (hmap_nodes hm)"] by (simp add: hmap_inv_def)
qed

interpretation hmap_store: map_store hmap_inv hmap_abs "\<lambda>hm. unat (hm_len hm)" "2 ^ 64 - 1"
  hmap_put hmap_del hmap_get_value
proof unfold_locales
  fix s :: "('a, 'b) hmap" and g k v
  assume "hmap_inv s" "unat (hm_len s) < 2 ^ 64 - 1"
  then have "hmap_inv s" "hmap_room s" by (simp_all add: hmap_room_def)
  note r = hmap_insert_ok [OF this, where ok_grow = g and ok_node = True and k = k and v = v]
  show "hmap_inv (hmap_put g s k v)"
    using r by (auto simp: hmap_put_def split: prod.splits option.splits)
  show "hmap_abs (hmap_put g s k v) = (hmap_abs s)(k \<mapsto> v)"
    using r by (auto simp: hmap_put_def split: prod.splits option.splits)
next
  fix s :: "('a, 'b) hmap" and k
  assume "hmap_inv s"
  note r = hmap_delete_ok [OF this, of k]
  show "hmap_inv (hmap_del s k)" using r by (simp add: hmap_del_def split: prod.splits)
  show "hmap_abs (hmap_del s k) = (hmap_abs s)(k := None)" using r by (simp add: hmap_del_def split: prod.splits)
qed (simp_all add: hmap_get_value_abs hmap_len_card)

section \<open>Properties\<close>

lemma hmap_int_order: "key_order_ok hmap_int_cmp"
  by (auto simp: key_order_ok_def hmap_int_cmp_def word_sless_alt dest!: signed_word_eqI)

lemma hmap_init_int_ok:
  "hmap_inv (hmap_init_int True vs) \<and> hmap_abs (hmap_init_int True vs) = Map.empty \<and>
   hmap_room (hmap_init_int True vs)"
  using hmap_init_ok [OF hmap_int_order, of HMAP_DEFAULT_NBUCKETS]
  by (simp add: hmap_init_int_def HMAP_DEFAULT_NBUCKETS_def PTRDIFF_LIMIT_def hmap_room_def) (simp add: hmap_init_def)

text \<open>
  C11. Starting from an empty map with any number of buckets, after any sequence of insertions
  (with the bucket array growing or failing to grow at each of them) and deletions, a lookup
  returns exactly what the finite map described by the sequence binds the key to, and the
  recorded length is the number of bindings.
\<close>

theorem hmap_refines_finite_map:
  assumes "key_order_ok cmp" "0 < n" "unat n * 8 < PTRDIFF_LIMIT" "length ops < 2 ^ 64"
  shows "let hm = foldl (store_op hmap_put hmap_del) (hmap_init True ks vs n hf cmp) ops;
             m = foldl map_op_apply Map.empty ops
         in hmap_get_value hm k = m k \<and> hmap_contains hm k = (m k \<noteq> None) \<and>
            unat (hmap_size (Some hm)) = card (dom m)"
proof -
  let ?hm = "foldl (store_op hmap_put hmap_del) (hmap_init True ks vs n hf cmp) ops"
  note i = hmap_init_ok [OF assms(1-3), of ks vs hf]
  note i1 = i [THEN conjunct1]
  have l: "unat (hm_len (hmap_init True ks vs n hf cmp)) + length ops \<le> 2 ^ 64 - 1"
    using assms(4) by (simp add: hmap_init_def)
  show ?thesis
    using hmap_store.run_ok [OF i1 l] hmap_store.run_get [OF i1 l, of k] hmap_store.run_len [OF i1 l]
      hmap_contains_abs [of ?hm k]
    by (simp add: i [THEN conjunct2] hmap_size_def Let_def)
qed

text \<open>A map of three buckets that is filled beyond its load factor, and loses an entry again.\<close>

theorem hmap_refines_finite_map_witness:
  "let ops = [Put True 1 10, Put False 9 20, Put True 17 30, Put True 1 11, Del 9 :: (u32, nat) map_op];
       hm = foldl (store_op hmap_put hmap_del) (hmap_init True 4 8 3 hmap_int_hash hmap_int_cmp) ops
   in hmap_get_value hm 1 = Some 11"
  unfolding Let_def
  by (subst hmap_refines_finite_map [OF hmap_int_order, unfolded Let_def, THEN conjunct1])
    (simp_all add: PTRDIFF_LIMIT_def)

text \<open>
  C32. \<^verbatim>\<open>HMAP_FOREACH\<close> visits every binding of the map exactly once: the values its body sees are
  the values of a list of the map's bindings without repeated keys.
\<close>

theorem hmap_foreach_visits_all:
  assumes "hmap_inv hm"
  shows "\<exists>kvs. hmap_foreach (hmap_iter_init hm) = map (Some \<circ> snd) kvs \<and>
     map_of kvs = hmap_abs hm \<and> distinct (map fst kvs) \<and> length kvs = unat (hm_len hm)"
proof (intro exI conjI)
  let ?kvs = "map node_pair (hmap_nodes hm)"
  show "hmap_foreach (hmap_iter_init hm) = map (Some \<circ> snd) ?kvs"
    by (simp add: hmap_foreach_nodes [OF assms] node_pair_def comp_def)
  show "map_of ?kvs = hmap_abs hm" by (simp add: hmap_abs_def)
  show "distinct (map fst ?kvs)" using assms by (simp add: hmap_inv_def)
  show "length ?kvs = unat (hm_len hm)" using assms by (simp add: hmap_inv_def)
qed

theorem hmap_foreach_visits_all_witness:
  "\<exists>r hm kvs. hmap_insert True True (hmap_init_int True 8 :: (u32, nat) hmap) 5 42 = (r, hm) \<and>
     hmap_foreach (hmap_iter_init hm) = map (Some \<circ> snd) kvs \<and>
     map_of kvs = hmap_abs hm \<and> distinct (map fst kvs) \<and> hmap_abs hm 5 = Some 42"
proof -
  obtain r hm where i: "hmap_insert True True (hmap_init_int True 8 :: (u32, nat) hmap) 5 42 = (r, hm)" by fastforce
  have "hmap_room (hmap_init_int True 8 :: (u32, nat) hmap)" by (simp add: hmap_room_def hmap_init_int_def hmap_init_def)
  from hmap_insert_ok [OF _ this, where ok_grow = True and ok_node = True and k = 5 and v = 42] i
  have "hmap_inv hm" "hmap_abs hm 5 = Some 42" by (auto simp: hmap_init_int_ok split: option.splits)
  with hmap_foreach_visits_all [of hm] i show ?thesis by blast
qed

text \<open>
  C33. \<^verbatim>\<open>hmap_insert\<close> under memory exhaustion: if the node cannot be allocated the call returns NULL
  only for a key that was absent, and the map stays well formed with the same bindings; a key
  that is present is updated without needing memory.
\<close>

theorem hmap_insert_exhausted:
  assumes "hmap_inv hm" "hmap_room hm"
  shows "case hmap_insert ok_grow False hm k v of (r, hm') \<Rightarrow>
           hmap_inv hm' \<and> (r = None \<longleftrightarrow> hmap_abs hm k = None) \<and>
           hmap_abs hm' = (if hmap_abs hm k = None then hmap_abs hm else (hmap_abs hm)(k \<mapsto> v))"
proof -
  obtain r hm' where ins: "hmap_insert ok_grow False hm k v = (r, hm')" by fastforce
  show ?thesis
  proof (cases r)
    case None
    then show ?thesis using hmap_insert_ok [OF assms, where ok_grow = ok_grow and ok_node = False and k = k and v = v] by (simp add: ins)
  next
    case (Some p)
    have "hmap_abs hm k \<noteq> None"
    proof
      assume none: "hmap_abs hm k = None"
      let ?h = "if hm_nbuckets hm - drop_bit 2 (hm_nbuckets hm) \<le> hm_len hm then hmap_grow ok_grow hm else hm"
      have "hmap_get ?h k = None"
        using none hmap_grow_ok [OF assms(1), of ok_grow] hmap_get_None_iff [of ?h k] assms(1) by (simp split: if_splits)
      then have "fst (hmap_insert ok_grow False hm k v) = None"
        by (simp add: hmap_insert_def hmap_alloc_node_def hmap_get_def Let_def)
      then show False using Some ins by simp
    qed
    then show ?thesis
      using Some hmap_insert_ok [OF assms, where ok_grow = ok_grow and ok_node = False and k = k and v = v] by (auto simp: ins)
  qed
qed

theorem hmap_insert_exhausted_witness:
  "case hmap_insert False False (hmap_init_int True 8 :: (u32, nat) hmap) 5 7 of (r, hm') \<Rightarrow>
     hmap_inv hm' \<and> (r = None \<longleftrightarrow> hmap_abs (hmap_init_int True 8 :: (u32, nat) hmap) 5 = None) \<and>
     hmap_abs hm' = (if hmap_abs (hmap_init_int True 8 :: (u32, nat) hmap) 5 = None
       then hmap_abs (hmap_init_int True 8) else (hmap_abs (hmap_init_int True 8))(5 \<mapsto> 7))"
  by (rule hmap_insert_exhausted) (simp_all add: hmap_init_int_ok)

end
