(* ===== verification/Catalog.thy ===== *)
theory Catalog
  imports Parser Hmap Slice
begin

text \<open>
  The catalog of schemas and tables (\<^verbatim>\<open>src/catalog/catalog.c\<close>, \<^verbatim>\<open>src/include/catalog.h\<close>).
  Catalog entries are shared and linked into version chains, so they live in an explicit heap:
  a map from addresses to cells. A struct that extends \<^verbatim>\<open>CatalogEntry\<close> is a cell with the base
  part and a body. Strings are values (a NULL name is \<^term>\<open>None\<close>); the copies that
  \<^verbatim>\<open>strdup\<close> makes still need memory. The heap carries the outcomes of the allocator calls to come;
  an address is not given out twice, so a dangling access finds no cell. The result
  \<^term>\<open>None\<close> of an operation is undefined behaviour: a null or dangling pointer is followed.
\<close>

section \<open>Entries and the heap\<close>

type_synonym addr = nat

datatype CatalogType = INVALID | TABLE | SCHEMA | INDEX

record CatalogEntry =
  ce_type :: CatalogType
  ce_name :: "bytes option"
  ce_deleted :: bool
  ce_parent :: "addr option"
  ce_child :: "addr option"
  ce_destroy :: "nat option"

type_synonym CatalogSet = "(bytes, addr) hmap"

record SchemaPart =
  sc_tables :: CatalogSet
  sc_indexes :: CatalogSet

record TablePart =
  tb_schema :: addr
  tb_datatable :: u64
  tb_storage_table :: "u64 option"
  tb_columns :: "ColumnDefinition list"
  tb_column_count :: usize

datatype entry_body = PlainEntry | SchemaCatalogEntry SchemaPart | TableCatalogEntry TablePart

record cell =
  base :: CatalogEntry
  body :: entry_body

record heap =
  h_cells :: "addr \<rightharpoonup> cell"
  h_next :: addr
  h_mem :: "nat \<Rightarrow> allocator"
  h_calls :: nat

record Catalog =
  cat_schemas :: CatalogSet
  cat_storage :: "u64 option"

definition DEFAULT_SCHEMA :: bytes where
  "DEFAULT_SCHEMA = map (of_nat \<circ> of_char) ''main''"

text \<open>The next allocator call, a new cell, the release of a cell, and a store to the base part.\<close>

definition next_mem :: "heap \<Rightarrow> allocator \<times> heap" where
  "next_mem h = (h_mem h (h_calls h), h\<lparr>h_calls := Suc (h_calls h)\<rparr>)"

definition new_cell :: "heap \<Rightarrow> cell \<Rightarrow> addr option \<times> heap" where
  "new_cell h c =
     (case next_mem h of (M, h1) \<Rightarrow>
        if alloc_ok M then (Some (h_next h), h1\<lparr>h_cells := (h_cells h1)(h_next h \<mapsto> c), h_next := Suc (h_next h)\<rparr>)
        else (None, h1))"

definition free_cell :: "addr \<Rightarrow> heap \<Rightarrow> heap option" where
  "free_cell a h = (case h_cells h a of None \<Rightarrow> None | Some c \<Rightarrow> Some (h\<lparr>h_cells := (h_cells h)(a := None)\<rparr>))"

definition store_base :: "addr \<Rightarrow> (CatalogEntry \<Rightarrow> CatalogEntry) \<Rightarrow> heap \<Rightarrow> heap option" where
  "store_base a f h =
     (case h_cells h a of None \<Rightarrow> None | Some c \<Rightarrow> Some (h\<lparr>h_cells := (h_cells h)(a \<mapsto> c\<lparr>base := f (base c)\<rparr>)\<rparr>))"

definition store_body :: "addr \<Rightarrow> entry_body \<Rightarrow> heap \<Rightarrow> heap option" where
  "store_body a b h =
     (case h_cells h a of None \<Rightarrow> None | Some c \<Rightarrow> Some (h\<lparr>h_cells := (h_cells h)(a \<mapsto> c\<lparr>body := b\<rparr>)\<rparr>))"

text \<open>A map whose bucket array could be allocated; every access to another one follows NULL.\<close>

definition hmap_usable :: "('k, 'v) hmap \<Rightarrow> bool" where
  "hmap_usable hm \<longleftrightarrow> length (hm_buckets hm) = unat (hm_nbuckets hm) \<and> 0 < hm_nbuckets hm"

section \<open>Catalog sets\<close>

definition catalogSet_init :: "heap \<Rightarrow> CatalogSet \<times> heap" where
  "catalogSet_init h = (case next_mem h of (M, h1) \<Rightarrow> (hmap_init_str (alloc_ok M) 8, h1))"

definition catalogEntry_init :: "CatalogType \<Rightarrow> bytes option \<Rightarrow> CatalogEntry" where
  "catalogEntry_init type name =
     \<lparr>ce_type = type, ce_name = name, ce_deleted = False, ce_parent = None, ce_child = None, ce_destroy = None\<rparr>"

definition make_entry :: "CatalogType \<Rightarrow> bytes option \<Rightarrow> heap \<Rightarrow> addr option \<times> heap" where
  "make_entry type name h = new_cell h \<lparr>base = catalogEntry_init type name, body = PlainEntry\<rparr>"

text \<open>The end of \<^verbatim>\<open>catalogSet_create_entry\<close>: the value becomes the head of the version chain.\<close>

definition link_head :: "CatalogSet \<Rightarrow> node_ptr \<Rightarrow> addr \<Rightarrow> heap \<Rightarrow> (bool \<times> CatalogSet \<times> heap) option" where
  "link_head cs node value h =
     do {
       let old = hmap_value cs node;
       h1 \<leftarrow> store_base value (ce_child_update (\<lambda>_. Some old)) h;
       h2 \<leftarrow> store_base old (ce_parent_update (\<lambda>_. Some value)) h1;
       Some (True, hmap_set_value cs node value, h2)
     }"

definition catalogSet_create_entry ::
  "CatalogSet \<Rightarrow> bytes \<Rightarrow> addr \<Rightarrow> heap \<Rightarrow> (bool \<times> CatalogSet \<times> heap) option" where
  "catalogSet_create_entry cs name value h =
     (if \<not> hmap_usable cs then None
      else case hmap_get cs name of
        None \<Rightarrow>
          (case next_mem h of (M1, h1) \<Rightarrow>
           if \<not> alloc_ok M1 then Some (False, cs, h1)
           else case make_entry INVALID (Some name) h1 of
             (None, h2) \<Rightarrow> Some (False, cs, h2)
           | (Some dummy, h2) \<Rightarrow>
               (case next_mem h2 of (M2, h3) \<Rightarrow>
                case next_mem h3 of (M3, h4) \<Rightarrow>
                case hmap_insert (alloc_ok M2) (alloc_ok M3) cs name dummy of
                  (None, cs1) \<Rightarrow> do { h5 \<leftarrow> free_cell dummy h4; Some (False, cs1, h5) }
                | (Some node, cs1) \<Rightarrow> link_head cs1 node value h4))
      | Some node \<Rightarrow>
          do {
            current \<leftarrow> h_cells h (hmap_value cs node);
            if \<not> ce_deleted (base current) then Some (False, cs, h)
            else link_head cs node value h
          })"

definition catalogSet_get_entry :: "CatalogSet \<Rightarrow> bytes \<Rightarrow> heap \<Rightarrow> addr option option" where
  "catalogSet_get_entry cs name h =
     (if \<not> hmap_usable cs then None
      else case hmap_get cs name of
        None \<Rightarrow> Some None
      | Some node \<Rightarrow>
          do {
            entry \<leftarrow> h_cells h (hmap_value cs node);
            Some (if ce_deleted (base entry) then None else Some (hmap_value cs node))
          })"

fun scan_values :: "(addr \<Rightarrow> 'c \<Rightarrow> heap \<Rightarrow> ('c \<times> heap) option) \<Rightarrow> addr option list \<Rightarrow> 'c \<Rightarrow> heap \<Rightarrow> ('c \<times> heap) option" where
  "scan_values scan_fn [] ctx h = Some (ctx, h)"
| "scan_values scan_fn (v # vs) ctx h =
     do {
       entry \<leftarrow> v;
       (ctx1, h1) \<leftarrow> scan_fn entry ctx h;
       scan_values scan_fn vs ctx1 h1
     }"

definition catalogSet_scan ::
  "CatalogSet \<Rightarrow> (addr \<Rightarrow> 'c \<Rightarrow> heap \<Rightarrow> ('c \<times> heap) option) \<Rightarrow> 'c \<Rightarrow> heap \<Rightarrow> ('c \<times> heap) option" where
  "catalogSet_scan cs scan_fn ctx h =
     (if \<not> hmap_usable cs then None else scan_values scan_fn (hmap_foreach (hmap_iter_init cs)) ctx h)"

definition catalogSet_drop_entry_impl :: "CatalogSet \<Rightarrow> node_ptr \<Rightarrow> heap \<Rightarrow> (CatalogSet \<times> heap) option" where
  "catalogSet_drop_entry_impl cs node h =
     do {
       let entry = hmap_value cs node;
       c \<leftarrow> h_cells h entry;
       name \<leftarrow> ce_name (base c);
       let (M1, h1) = next_mem h;
       case make_entry INVALID (if alloc_ok M1 then Some name else None) h1 of
         (None, h2) \<Rightarrow> Some (cs, h2)
       | (Some value, h2) \<Rightarrow>
           do {
             h3 \<leftarrow> store_base value (ce_child_update (\<lambda>_. Some entry)) h2;
             h4 \<leftarrow> store_base entry (ce_parent_update (\<lambda>_. Some value)) h3;
             h5 \<leftarrow> store_base value (ce_deleted_update (\<lambda>_. True)) h4;
             Some (hmap_set_value cs node value, h5)
           }
     }"

definition catalogSet_drop_entry :: "CatalogSet \<Rightarrow> bytes \<Rightarrow> heap \<Rightarrow> (bool \<times> CatalogSet \<times> heap) option" where
  "catalogSet_drop_entry cs name h =
     (if \<not> hmap_usable cs then None
      else case hmap_get cs name of
        None \<Rightarrow> Some (False, cs, h)
      | Some node \<Rightarrow>
          do {
            (cs1, h1) \<leftarrow> catalogSet_drop_entry_impl cs node h;
            Some (True, cs1, h1)
          })"

definition count_entry_callback :: "addr \<Rightarrow> u32 \<Rightarrow> heap \<Rightarrow> (u32 \<times> heap) option" where
  "count_entry_callback entry ctx h =
     do {
       c \<leftarrow> h_cells h entry;
       Some (if \<not> ce_deleted (base c) then ctx + 1 else ctx, h)
     }"

definition catalogSet_get_entry_count :: "CatalogSet \<Rightarrow> heap \<Rightarrow> u32 option" where
  "catalogSet_get_entry_count cs h = map_option fst (catalogSet_scan cs count_entry_callback 0 h)"

section \<open>Releasing entries\<close>

text \<open>
  \<^verbatim>\<open>catalogSet_deinit\<close> and \<^verbatim>\<open>schemacatalogEntry_destroy\<close> call each other, and the callback of an entry is
  foreign code: \<open>cb\<close> gives what callback number \<open>f\<close> does. The first argument bounds the calls and
  loop rounds.
\<close>

definition tablecatalogEntry_destroy :: "addr \<Rightarrow> heap \<Rightarrow> heap option" where
  "tablecatalogEntry_destroy entry h =
     (case h_cells h entry of
        Some c \<Rightarrow> (case body c of TableCatalogEntry t \<Rightarrow> free_cell entry h | _ \<Rightarrow> None)
      | None \<Rightarrow> None)"

fun deinit_chain :: "(nat \<Rightarrow> addr \<Rightarrow> heap \<Rightarrow> heap option) \<Rightarrow> nat \<Rightarrow> addr option \<Rightarrow> heap \<Rightarrow> heap option"
  and deinit_values :: "(nat \<Rightarrow> addr \<Rightarrow> heap \<Rightarrow> heap option) \<Rightarrow> nat \<Rightarrow> addr option list \<Rightarrow> heap \<Rightarrow> heap option"
  and schemacatalogEntry_destroy :: "(nat \<Rightarrow> addr \<Rightarrow> heap \<Rightarrow> heap option) \<Rightarrow> nat \<Rightarrow> addr \<Rightarrow> heap \<Rightarrow> heap option"
where
  "deinit_chain cb 0 entry h = None"
| "deinit_chain cb (Suc n) None h = Some h"
| "deinit_chain cb (Suc n) (Some entry) h =
     do {
       c \<leftarrow> h_cells h entry;
       h1 \<leftarrow> store_base entry (\<lambda>b. b\<lparr>ce_child := None, ce_parent := None\<rparr>) h;
       h2 \<leftarrow> (case ce_destroy (base c) of
                Some f \<Rightarrow> cb f entry h1
              | None \<Rightarrow>
                  (case ce_type (base c) of
                     SCHEMA \<Rightarrow> schemacatalogEntry_destroy cb n entry h1
                   | TABLE \<Rightarrow> tablecatalogEntry_destroy entry h1
                   | _ \<Rightarrow> free_cell entry h1));
       deinit_chain cb n (ce_child (base c)) h2
     }"
| "deinit_values cb 0 vs h = None"
| "deinit_values cb (Suc n) [] h = Some h"
| "deinit_values cb (Suc n) (v # vs) h =
     do {
       entry \<leftarrow> v;
       h1 \<leftarrow> deinit_chain cb n (Some entry) h;
       deinit_values cb n vs h1
     }"
| "schemacatalogEntry_destroy cb 0 entry h = None"
| "schemacatalogEntry_destroy cb (Suc n) entry h =
     do {
       c \<leftarrow> h_cells h entry;
       case body c of
         SchemaCatalogEntry s \<Rightarrow>
           if hmap_usable (sc_tables s) \<and> hmap_usable (sc_indexes s)
           then do {
             h1 \<leftarrow> deinit_values cb n (hmap_foreach (hmap_iter_init (sc_tables s))) h;
             h2 \<leftarrow> deinit_values cb n (hmap_foreach (hmap_iter_init (sc_indexes s))) h1;
             free_cell entry h2
           }
           else None
       | _ \<Rightarrow> None
     }"

definition catalogSet_deinit ::
  "(nat \<Rightarrow> addr \<Rightarrow> heap \<Rightarrow> heap option) \<Rightarrow> nat \<Rightarrow> CatalogSet \<Rightarrow> heap \<Rightarrow> (CatalogSet \<times> heap) option" where
  "catalogSet_deinit cb fuel cs h =
     (if \<not> hmap_usable cs then None
      else map_option (Pair (hmap_deinit cs)) (deinit_values cb fuel (hmap_foreach (hmap_iter_init cs)) h))"

section \<open>Schemas and tables\<close>

definition make_schema_entry :: "bytes \<Rightarrow> heap \<Rightarrow> addr option \<times> heap" where
  "make_schema_entry name h =
     (case new_cell h \<lparr>base = catalogEntry_init SCHEMA (Some name), body = PlainEntry\<rparr> of
        (None, h1) \<Rightarrow> (None, h1)
      | (Some entry, h1) \<Rightarrow>
          (case catalogSet_init h1 of (tables, h2) \<Rightarrow>
           case catalogSet_init h2 of (indexes, h3) \<Rightarrow>
             (case store_body entry (SchemaCatalogEntry \<lparr>sc_tables = tables, sc_indexes = indexes\<rparr>) h3 of
                None \<Rightarrow> (None, h3)
              | Some h4 \<Rightarrow> (Some entry, h4))))"

primrec typeid_value :: "TypeID \<Rightarrow> u32" where
  "typeid_value TYPE_INVALID = 0"
| "typeid_value TYPE_INT8 = 1"
| "typeid_value TYPE_INT16 = 2"
| "typeid_value TYPE_INT32 = 3"
| "typeid_value TYPE_INT64 = 4"
| "typeid_value TYPE_FLOAT32 = 5"
| "typeid_value TYPE_FLOAT64 = 6"

text \<open>A loop that pushes 4-byte values onto a slice; the results of the pushes are ignored.\<close>

fun push_values :: "u32 list \<Rightarrow> Slice \<Rightarrow> heap \<Rightarrow> Slice \<times> heap" where
  "push_values [] types h = (types, h)"
| "push_values (t # ts) types h =
     (case next_mem h of (M, h1) \<Rightarrow>
        push_values ts (case snd (slice_push_back M (Some types) (Some (word_bytes t))) of Some s \<Rightarrow> s | None \<Rightarrow> types) h1)"

text \<open>
  The loop counter of \<^verbatim>\<open>make_table_entry\<close> is an \<^verbatim>\<open>int\<close>: from $2^{31}$ columns on it overflows. The
  function \<^verbatim>\<open>Datatable_create\<close> is not part of the sources: \<open>dt\<close> is the pointer it returns.
\<close>

definition make_table_entry ::
  "(u64 option \<Rightarrow> bytes \<Rightarrow> bytes \<Rightarrow> usize \<Rightarrow> bytes option \<Rightarrow> u64) \<Rightarrow> Catalog \<Rightarrow> addr \<Rightarrow> bytes \<Rightarrow> CreateTableInfo \<Rightarrow> heap \<Rightarrow>
     (addr option \<times> heap) option" where
  "make_table_entry dt cat schema name info h =
     (case new_cell h \<lparr>base = catalogEntry_init TABLE (Some name), body = PlainEntry\<rparr> of
        (None, h1) \<Rightarrow> Some (None, h1)
      | (Some entry, h1) \<Rightarrow>
          if length (cti_columns info) < unat (cti_col_count info) \<or> 2 ^ 31 \<le> unat (cti_col_count info) then None
          else
            let cols = take (unat (cti_col_count info)) (cti_columns info);
                (M1, h2) = next_mem h1;
                (types, h3) = push_values (map (\<lambda>c. typeid_value (get_internal_type (col_type c))) cols)
                                (SLICE M1 4 (cti_col_count info)) h2;
                datatable = dt (cat_storage cat) (cti_schema_name info) name (cti_col_count info) (sl_data types);
                (M2, h4) = next_mem h3
            in if c_malloc M2 (cti_col_count info * SIZEOF_ColumnDefinition) = None
               then map_option (Pair None) (free_cell entry h4)
               else map_option (Pair (Some entry))
                 (store_body entry (TableCatalogEntry
                    \<lparr>tb_schema = schema, tb_datatable = datatable, tb_storage_table = None, tb_columns = cols,
                     tb_column_count = cti_col_count info\<rparr>) h4))"

text \<open>
  \<open>fuel\<close> and \<open>cb\<close> are those of the release of a schema entry that could not be linked. The pointer
  to the catalog set of a schema is the address of the schema's cell.
\<close>

definition catalog_create_schema ::
  "(nat \<Rightarrow> addr \<Rightarrow> heap \<Rightarrow> heap option) \<Rightarrow> nat \<Rightarrow> Catalog \<Rightarrow> CreateSchemaInfo \<Rightarrow> heap \<Rightarrow> (int \<times> Catalog \<times> heap) option" where
  "catalog_create_schema cb fuel cat info h =
     (case next_mem h of (M, h1) \<Rightarrow>
      if \<not> alloc_ok M then Some (-1, cat, h1)
      else case make_schema_entry (csi_schema_name info) h1 of
        (None, h2) \<Rightarrow> Some (-1, cat, h2)
      | (Some entry, h2) \<Rightarrow>
          do {
            (created, cs, h3) \<leftarrow> catalogSet_create_entry (cat_schemas cat) (csi_schema_name info) entry h2;
            let cat1 = cat\<lparr>cat_schemas := cs\<rparr>;
            if created then Some (0, cat1, h3)
            else do {
              h4 \<leftarrow> schemacatalogEntry_destroy cb fuel entry h3;
              Some (if \<not> csi_if_not_exists info then -2 else 0, cat1, h4)
            }
          })"

definition catalog_get_schema :: "Catalog \<Rightarrow> bytes \<Rightarrow> heap \<Rightarrow> addr option option" where
  "catalog_get_schema cat schema_name h = catalogSet_get_entry (cat_schemas cat) schema_name h"

definition catalog_drop_schema :: "Catalog \<Rightarrow> bytes \<Rightarrow> heap \<Rightarrow> (int \<times> Catalog \<times> heap) option" where
  "catalog_drop_schema cat schema_name h =
     (if strcmp schema_name DEFAULT_SCHEMA = 0 then Some (-1, cat, h)
      else do {
        (dropped, cs, h1) \<leftarrow> catalogSet_drop_entry (cat_schemas cat) schema_name h;
        Some (0, cat\<lparr>cat_schemas := cs\<rparr>, h1)
      })"

definition schema_part :: "heap \<Rightarrow> addr \<Rightarrow> SchemaPart option" where
  "schema_part h a =
     (case h_cells h a of
        Some c \<Rightarrow> (case body c of SchemaCatalogEntry s \<Rightarrow> Some s | _ \<Rightarrow> None)
      | None \<Rightarrow> None)"

definition catalog_create_table ::
  "(u64 option \<Rightarrow> bytes \<Rightarrow> bytes \<Rightarrow> usize \<Rightarrow> bytes option \<Rightarrow> u64) \<Rightarrow> Catalog \<Rightarrow> CreateTableInfo \<Rightarrow> heap \<Rightarrow>
     (int \<times> heap) option" where
  "catalog_create_table dt cat info h =
     do {
       schema \<leftarrow> catalog_get_schema cat (cti_schema_name info) h;
       case schema of
         None \<Rightarrow> Some (-1, h)
       | Some schema_entry \<Rightarrow>
           (case next_mem h of (M, h1) \<Rightarrow>
            if \<not> alloc_ok M then Some (-1, h1)
            else do {
              (made, h2) \<leftarrow> make_table_entry dt cat schema_entry (cti_table_name info) info h1;
              case made of
                None \<Rightarrow> Some (-1, h2)
              | Some entry \<Rightarrow>
                  do {
                    s \<leftarrow> schema_part h2 schema_entry;
                    (created, tables, h3) \<leftarrow> catalogSet_create_entry (sc_tables s) (cti_table_name info) entry h2;
                    s' \<leftarrow> schema_part h3 schema_entry;
                    h4 \<leftarrow> store_body schema_entry (SchemaCatalogEntry (s'\<lparr>sc_tables := tables\<rparr>)) h3;
                    if created then Some (0, h4)
                    else do {
                      h5 \<leftarrow> tablecatalogEntry_destroy entry h4;
                      Some (if \<not> cti_if_not_exists info then -2 else 0, h5)
                    }
                  }
            })
     }"

definition catalog_get_table :: "Catalog \<Rightarrow> bytes \<Rightarrow> bytes \<Rightarrow> heap \<Rightarrow> addr option option" where
  "catalog_get_table cat schema_name table_name h =
     do {
       schema \<leftarrow> catalog_get_schema cat schema_name h;
       case schema of
         None \<Rightarrow> Some None
       | Some a \<Rightarrow> do { s \<leftarrow> schema_part h a; catalogSet_get_entry (sc_tables s) table_name h }
     }"

definition table_part :: "heap \<Rightarrow> addr \<Rightarrow> TablePart option" where
  "table_part h a =
     (case h_cells h a of
        Some c \<Rightarrow> (case body c of TableCatalogEntry t \<Rightarrow> Some t | _ \<Rightarrow> None)
      | None \<Rightarrow> None)"

definition catalog_get_storage_table :: "Catalog \<Rightarrow> bytes \<Rightarrow> bytes \<Rightarrow> heap \<Rightarrow> u64 option option" where
  "catalog_get_storage_table cat schema_name table_name h =
     do {
       entry \<leftarrow> catalog_get_table cat schema_name table_name h;
       case entry of
         None \<Rightarrow> Some None
       | Some a \<Rightarrow> map_option tb_storage_table (table_part h a)
     }"

definition tableCatalogEntry_get_types :: "addr \<Rightarrow> heap \<Rightarrow> (Slice \<times> heap) option" where
  "tableCatalogEntry_get_types entry h =
     do {
       t \<leftarrow> table_part h entry;
       if length (tb_columns t) < unat (tb_column_count t) then None
       else let (M, h1) = next_mem h
            in Some (push_values (map col_type (take (unat (tb_column_count t)) (tb_columns t)))
                 (SLICE M 4 (tb_column_count t)) h1)
     }"

definition catalog_create :: "heap \<Rightarrow> Catalog option \<times> heap" where
  "catalog_create h =
     (case next_mem h of (M, h1) \<Rightarrow>
      if \<not> alloc_ok M then (None, h1)
      else (case catalogSet_init h1 of (cs, h2) \<Rightarrow> (Some \<lparr>cat_schemas = cs, cat_storage = None\<rparr>, h2)))"

definition catalog_destroy ::
  "(nat \<Rightarrow> addr \<Rightarrow> heap \<Rightarrow> heap option) \<Rightarrow> nat \<Rightarrow> Catalog option \<Rightarrow> heap \<Rightarrow> heap option" where
  "catalog_destroy cb fuel cat h =
     (case cat of
        None \<Rightarrow> Some h
      | Some c \<Rightarrow> map_option snd (catalogSet_deinit cb fuel (cat_schemas c) h))"

section \<open>Version chains\<close>

text \<open>
  A catalog set stands for a history of every name: the addresses of its versions, newest first.
  The chain of child pointers from the head is the history, the parent pointers lead back, and
  no entry is in two places.
\<close>

type_synonym history = "bytes \<Rightarrow> addr list"

fun version_chain :: "heap \<Rightarrow> addr option \<Rightarrow> addr option \<Rightarrow> addr list \<Rightarrow> bool" where
  "version_chain h parent cur [] \<longleftrightarrow> cur = None"
| "version_chain h parent cur (a # as) \<longleftrightarrow>
     cur = Some a \<and>
     (case h_cells h a of
        None \<Rightarrow> False
      | Some c \<Rightarrow> ce_parent (base c) = parent \<and> version_chain h (Some a) (ce_child (base c)) as)"

definition versions :: "history \<Rightarrow> addr set" where
  "versions H = (\<Union>k. set (H k))"

definition set_versions :: "CatalogSet \<Rightarrow> heap \<Rightarrow> history \<Rightarrow> bool" where
  "set_versions cs h H \<longleftrightarrow> hmap_inv cs \<and>
     (\<forall>k. version_chain h None (hmap_abs cs k) (H k) \<and> distinct (H k)) \<and>
     (\<forall>k l. k \<noteq> l \<longrightarrow> set (H k) \<inter> set (H l) = {})"

definition entry_deleted :: "heap \<Rightarrow> addr \<Rightarrow> bool" where
  "entry_deleted h a \<longleftrightarrow> (case h_cells h a of None \<Rightarrow> True | Some c \<Rightarrow> ce_deleted (base c))"

text \<open>The entry a name currently stands for.\<close>

definition live_entry :: "heap \<Rightarrow> history \<Rightarrow> bytes \<Rightarrow> addr option" where
  "live_entry h H k = (case H k of [] \<Rightarrow> None | a # as \<Rightarrow> if entry_deleted h a then None else Some a)"

lemma version_chain_base:
  assumes "version_chain h p c xs" "\<forall>a \<in> set xs. map_option base (h_cells h' a) = map_option base (h_cells h a)"
  shows "version_chain h' p c xs"
  using assms
proof (induction xs arbitrary: p c)
  case (Cons a xs)
  then obtain d d' where "h_cells h a = Some d" "h_cells h' a = Some d'" "base d' = base d" by (auto split: option.splits)
  then show ?case using Cons by simp
qed simp

lemma version_chain_frame:
  assumes "version_chain h p c xs" "\<forall>a \<in> set xs. h_cells h' a = h_cells h a"
  shows "version_chain h' p c xs"
  using assms by (intro version_chain_base [OF assms(1)]) simp

lemma version_chain_head: "version_chain h p c xs \<Longrightarrow> c = (case xs of [] \<Rightarrow> None | a # as \<Rightarrow> Some a)"
  by (cases xs) auto

lemma version_chain_cells: "version_chain h p c xs \<Longrightarrow> a \<in> set xs \<Longrightarrow> h_cells h a \<noteq> None"
  by (induction xs arbitrary: p c) (auto split: option.splits)

lemma set_versions_head: "set_versions cs h H \<Longrightarrow> hmap_abs cs k = (case H k of [] \<Rightarrow> None | a # as \<Rightarrow> Some a)"
  using version_chain_head unfolding set_versions_def by blast

lemma set_versions_cells: "set_versions cs h H \<Longrightarrow> a \<in> versions H \<Longrightarrow> h_cells h a \<noteq> None"
  using version_chain_cells unfolding set_versions_def versions_def by blast

lemma set_versions_frame:
  assumes "set_versions cs h H" "\<And>a. a \<in> versions H \<Longrightarrow> h_cells h' a = h_cells h a"
  shows "set_versions cs h' H"
proof -
  have "version_chain h' None (hmap_abs cs k) (H k)" for k
    by (rule version_chain_frame [of h]) (use assms in \<open>auto simp: set_versions_def versions_def\<close>)
  then show ?thesis using assms(1) by (simp add: set_versions_def)
qed

lemma set_versions_base:
  assumes "set_versions cs h H" "\<And>a. map_option base (h_cells h' a) = map_option base (h_cells h a)"
  shows "set_versions cs h' H"
  using assms(1) version_chain_base [of h _ _ _ h'] assms(2) unfolding set_versions_def by simp

lemma set_versions_usable: "set_versions cs h H \<Longrightarrow> hmap_usable cs"
  by (simp add: set_versions_def hmap_usable_def hmap_inv_def hmap_placed_def)

text \<open>A new head is put on the chain of a name that has one.\<close>

lemma set_versions_push:
  assumes sv: "set_versions cs h H" and get: "hmap_get cs k = Some node"
    and v: "v \<notin> versions H" "ce_parent (base cv) = None" "ce_child (base cv) = Some (hmap_value cs node)"
    and co: "h_cells h (hmap_value cs node) = Some co"
    and h': "h_cells h' = (h_cells h)(v \<mapsto> cv, hmap_value cs node \<mapsto> co\<lparr>base := (base co)\<lparr>ce_parent := Some v\<rparr>\<rparr>)"
  shows "set_versions (hmap_set_value cs node v) h' (H(k := v # H k))"
proof -
  have inv: "hmap_inv cs" using sv by (simp add: set_versions_def)
  note g = hmap_get_Some [OF inv get]
  note st = hmap_set_value_ok [OF inv get, of v]
  obtain old rest where old: "H k = old # rest" "hmap_value cs node = old"
    using g set_versions_head [OF sv, of k] by (auto split: list.splits)
  have d: "distinct (H l)" for l using sv by (simp add: set_versions_def)
  have disj: "k \<noteq> l \<Longrightarrow> set (H k) \<inter> set (H l) = {}" for k l using sv unfolding set_versions_def by blast
  have notv: "v \<notin> set (H l)" for l using v(1) by (auto simp: versions_def)
  have ch: "version_chain h None (Some old) (old # rest)"
    using sv g old unfolding set_versions_def by metis
  have rest: "version_chain h (Some old) (ce_child (base co)) rest" using ch co old(2) by simp
  have frame: "h_cells h' a = h_cells h a" if "a \<noteq> v" "a \<noteq> old" for a using that h' old(2) by simp
  have "version_chain h' (Some old) (ce_child (base co)) rest"
    by (rule version_chain_frame [OF rest]) (use d [of k] notv [of k] old(1) frame in fastforce)
  then have new: "version_chain h' None (Some v) (v # H k)"
    using h' old v(2,3) notv [of k] by simp
  have "version_chain h' None (hmap_abs cs l) (H l)" if "l \<noteq> k" for l
  proof (rule version_chain_frame)
    show "version_chain h None (hmap_abs cs l) (H l)" using sv by (simp add: set_versions_def)
    show "\<forall>a \<in> set (H l). h_cells h' a = h_cells h a"
    proof
      fix a assume "a \<in> set (H l)"
      then have "a \<noteq> v" "a \<noteq> old" using disj [OF that] notv [of l] old(1) by auto
      then show "h_cells h' a = h_cells h a" by (rule frame)
    qed
  qed
  then have chains: "version_chain h' None (hmap_abs (hmap_set_value cs node v) l) ((H(k := v # H k)) l)" for l
    using st new by simp
  show ?thesis
    unfolding set_versions_def
  proof (intro conjI allI impI)
    fix l m :: bytes assume lm: "l \<noteq> m"
    show "set ((H(k := v # H k)) l) \<inter> set ((H(k := v # H k)) m) = {}"
      using disj [OF lm] lm notv by auto
  qed (use st chains d notv in auto)
qed

lemma set_versions_insert:
  assumes sv: "set_versions cs h H" and k: "hmap_abs cs k = None" and d: "d \<notin> versions H"
    and cs1: "hmap_inv cs1" "hmap_abs cs1 = (hmap_abs cs)(k \<mapsto> d)"
    and h': "h_cells h' = (h_cells h)(d \<mapsto> cd)" "ce_parent (base cd) = None" "ce_child (base cd) = None"
  shows "set_versions cs1 h' (H(k := [d]))"
proof -
  have notd: "d \<notin> set (H l)" for l using d by (auto simp: versions_def)
  have "H k = []" using set_versions_head [OF sv, of k] k by (simp split: list.splits)
  have "set_versions cs h' H" using sv by (rule set_versions_frame) (use d h'(1) in auto)
  then have ch: "version_chain h' None (hmap_abs cs l) (H l)" for l by (simp add: set_versions_def)
  have "version_chain h' None (hmap_abs cs1 l) ((H(k := [d])) l)" for l
    using ch [of l] h' cs1 by simp
  then show ?thesis using sv cs1(1) notd unfolding set_versions_def by auto
qed

section \<open>What the operations on sets leave alone\<close>

definition heap_ok :: "heap \<Rightarrow> bool" where
  "heap_ok h \<longleftrightarrow> (\<forall>a. h_cells h a \<noteq> None \<longrightarrow> a < h_next h)"

lemma heap_ok_fresh: "heap_ok h \<Longrightarrow> h_cells h (h_next h) = None"
  unfolding heap_ok_def by blast

definition memory_left :: "heap \<Rightarrow> bool" where
  "memory_left h \<longleftrightarrow> (\<forall>n. alloc_ok (h_mem h n))"

text \<open>Everything in a cell except the links.\<close>

definition payload :: "heap \<Rightarrow> addr \<Rightarrow> cell option" where
  "payload h a = map_option (\<lambda>c. c\<lparr>base := (base c)\<lparr>ce_parent := None, ce_child := None\<rparr>\<rparr>) (h_cells h a)"

text \<open>
  From \<open>h\<close> to \<open>h'\<close>, the cells of \<open>h\<close> keep their payload and only those in \<open>A\<close> may be linked anew.
\<close>

definition relinked :: "addr set \<Rightarrow> heap \<Rightarrow> heap \<Rightarrow> bool" where
  "relinked A h h' \<longleftrightarrow> h_mem h' = h_mem h \<and> h_next h \<le> h_next h' \<and> heap_ok h' \<and>
     (\<forall>a < h_next h. payload h' a = payload h a \<and> (a \<notin> A \<longrightarrow> h_cells h' a = h_cells h a))"

lemma relinked_refl: "heap_ok h \<Longrightarrow> relinked A h h"
  by (simp add: relinked_def)

lemma relinked_trans: "relinked A h h1 \<Longrightarrow> relinked A h1 h2 \<Longrightarrow> relinked A h h2"
  unfolding relinked_def by (metis le_trans order_less_le_trans)

lemma relinked_mono: "relinked A h h' \<Longrightarrow> A \<subseteq> B \<Longrightarrow> relinked B h h'"
  by (auto simp: relinked_def)

lemma relinked_calls: "relinked A h h' \<Longrightarrow> relinked A h (h'\<lparr>h_calls := n\<rparr>)"
  by (simp add: relinked_def heap_ok_def payload_def)

lemma relinked_memory: "relinked A h h' \<Longrightarrow> memory_left h' = memory_left h"
  by (simp add: relinked_def memory_left_def)

lemma entry_deleted_payload:
  "entry_deleted h a = (case payload h a of None \<Rightarrow> True | Some c \<Rightarrow> ce_deleted (base c))"
  by (simp add: entry_deleted_def payload_def split: option.splits)

lemma relinked_deleted: "relinked A h h' \<Longrightarrow> a < h_next h \<Longrightarrow> entry_deleted h' a = entry_deleted h a"
  by (simp add: relinked_def entry_deleted_payload)

lemma relinked_versions:
  assumes "relinked A h h'" "set_versions cs h H" "heap_ok h" "versions H \<inter> A = {}"
  shows "set_versions cs h' H"
  using assms(2)
proof (rule set_versions_frame)
  fix a assume "a \<in> versions H"
  then have "a \<notin> A" "h_cells h a \<noteq> None" using assms(4) set_versions_cells [OF assms(2)] by blast+
  then show "h_cells h' a = h_cells h a" using assms(1,3) by (simp add: relinked_def heap_ok_def)
qed

lemma relinked_bodies:
  assumes "relinked A h h'" "a < h_next h"
  shows "schema_part h' a = schema_part h a" "table_part h' a = table_part h a"
proof -
  have "map_option body (payload h' a) = map_option body (payload h a)" using assms by (simp add: relinked_def)
  then have b: "map_option body (h_cells h' a) = map_option body (h_cells h a)"
    by (simp add: payload_def option.map_comp comp_def)
  then show "schema_part h' a = schema_part h a" "table_part h' a = table_part h a"
    by (auto simp: schema_part_def table_part_def split: option.splits)
qed

lemma set_versions_below: "heap_ok h \<Longrightarrow> set_versions cs h H \<Longrightarrow> a \<in> versions H \<Longrightarrow> a < h_next h"
  using set_versions_cells by (auto simp: heap_ok_def)

lemma live_entry_relinked:
  assumes "relinked A h h'" "set_versions cs h H" "heap_ok h"
  shows "live_entry h' H k = live_entry h H k"
proof (cases "H k")
  case (Cons a as)
  then have "a \<in> versions H" unfolding versions_def by (metis UN_I UNIV_I list.set_intros(1))
  then have "a < h_next h" by (rule set_versions_below [OF assms(3,2)])
  then show ?thesis using relinked_deleted [OF assms(1)] Cons by (simp add: live_entry_def)
qed (simp add: live_entry_def)

lemma new_cell_cases:
  assumes "new_cell h c = (r, h')" "heap_ok h"
  shows "heap_ok h' \<and> relinked {} h h' \<and>
    (case r of
       None \<Rightarrow> h_cells h' = h_cells h \<and> h_next h' = h_next h \<and> \<not> memory_left h
     | Some a \<Rightarrow> a = h_next h \<and> h_cells h' = (h_cells h)(a \<mapsto> c) \<and> h_next h' = Suc (h_next h))"
  using assms
  by (auto simp: new_cell_def next_mem_def relinked_def heap_ok_def payload_def memory_left_def less_Suc_eq split: if_splits)

lemma link_head_ok:
  assumes sv: "set_versions cs h H" and get: "hmap_get cs k = Some node" and ok: "heap_ok h"
    and v: "v \<notin> versions H" "h_cells h v = Some cv" "ce_parent (base cv) = None"
  shows "\<exists>cs' h'. link_head cs node v h = Some (True, cs', h') \<and> set_versions cs' h' (H(k := v # H k)) \<and>
     relinked (insert v (set (H k))) h h' \<and> hm_len cs' = hm_len cs \<and> h_next h' = h_next h"
proof -
  have inv: "hmap_inv cs" using sv by (simp add: set_versions_def)
  let ?old = "hmap_value cs node"
  have "hmap_abs cs k = Some ?old" using hmap_get_Some [OF inv get] by blast
  then have old: "?old \<in> set (H k)" using set_versions_head [OF sv, of k] by (auto split: list.splits)
  then obtain co where co: "h_cells h ?old = Some co"
    using set_versions_cells [OF sv, of ?old] by (auto simp: versions_def)
  have ne: "?old \<noteq> v" using old v(1) by (auto simp: versions_def)
  let ?cv = "cv\<lparr>base := (base cv)\<lparr>ce_child := Some ?old\<rparr>\<rparr>"
  let ?co = "co\<lparr>base := (base co)\<lparr>ce_parent := Some v\<rparr>\<rparr>"
  let ?h' = "h\<lparr>h_cells := (h_cells h)(v \<mapsto> ?cv, ?old \<mapsto> ?co)\<rparr>"
  have lh: "link_head cs node v h = Some (True, hmap_set_value cs node v, ?h')"
    using v(2) co ne by (simp add: link_head_def store_base_def Let_def)
  have "set_versions (hmap_set_value cs node v) ?h' (H(k := v # H k))"
    by (rule set_versions_push [OF sv get v(1) _ _ co, where cv = ?cv]) (simp_all add: v(3))
  moreover have "relinked (insert v (set (H k))) h ?h'"
    using old ok v(2) co by (auto simp: relinked_def heap_ok_def payload_def)
  moreover have "hm_len (hmap_set_value cs node v) = hm_len cs" using hmap_set_value_ok [OF inv get] by blast
  ultimately show ?thesis using lh by auto
qed

section \<open>Behaviour of the operations on sets\<close>

lemma get_entry_ok:
  assumes "set_versions cs h H"
  shows "catalogSet_get_entry cs k h = Some (live_entry h H k)"
proof -
  have inv: "hmap_inv cs" using assms by (simp add: set_versions_def)
  show ?thesis
  proof (cases "hmap_get cs k")
    case None
    then have "H k = []"
      using hmap_get_None_iff [OF inv] set_versions_head [OF assms, of k] by (simp split: list.splits)
    then show ?thesis
      using None set_versions_usable [OF assms] by (simp add: catalogSet_get_entry_def live_entry_def)
  next
    case (Some node)
    then have "hmap_abs cs k = Some (hmap_value cs node)" using hmap_get_Some [OF inv Some] by blast
    then obtain as where as: "H k = hmap_value cs node # as"
      using set_versions_head [OF assms, of k] by (auto split: list.splits)
    then have "hmap_value cs node \<in> versions H" unfolding versions_def by (metis UN_I UNIV_I list.set_intros(1))
    from set_versions_cells [OF assms this] show ?thesis
      using Some as set_versions_usable [OF assms]
      by (auto simp: catalogSet_get_entry_def live_entry_def entry_deleted_def)
  qed
qed

lemma hmap_len_insert:
  assumes "hmap_inv hm" "hmap_inv hm'" "hmap_abs hm' = (hmap_abs hm)(k \<mapsto> v)"
  shows "unat (hm_len hm') \<le> Suc (unat (hm_len hm))"
  using hmap_len_card [OF assms(1)] hmap_len_card [OF assms(2)]
  by (simp add: assms(3) card_insert_if split: if_splits)

text \<open>The history after a successful creation; the first one of a name puts a dummy below it.\<close>

definition created_history :: "heap \<Rightarrow> history \<Rightarrow> bytes \<Rightarrow> addr \<Rightarrow> history" where
  "created_history h H k v = H(k := v # (if H k = [] then [h_next h] else H k))"

text \<open>An entry without a body: the dummy under a first version, or the mark of a deletion.\<close>

definition plain_entry :: "heap \<Rightarrow> addr \<Rightarrow> bool" where
  "plain_entry h a \<longleftrightarrow>
     (case payload h a of
        None \<Rightarrow> False
      | Some c \<Rightarrow> ce_type (base c) = INVALID \<and> ce_name (base c) \<noteq> None \<and> ce_destroy (base c) = None \<and> body c = PlainEntry)"

lemma insert_and_link_ok:
  assumes sv: "set_versions cs h H" and ok: "heap_ok h" and room: "hmap_room cs" and none: "hmap_abs cs k = None"
    and v: "v \<notin> versions H" "h_cells h v = Some cv" "ce_parent (base cv) = None"
    and h4: "h_cells h4 = (h_cells h)(h_next h \<mapsto> \<lparr>base = catalogEntry_init INVALID (Some name), body = PlainEntry\<rparr>)"
      "h_next h4 = Suc (h_next h)" "h_mem h4 = h_mem h"
  shows "\<exists>r cs' h'. (case hmap_insert g ok_node cs k (h_next h) of
                     (None, cs1) \<Rightarrow> do { h5 \<leftarrow> free_cell (h_next h) h4; Some (False, cs1, h5) }
                   | (Some node, cs1) \<Rightarrow> link_head cs1 node v h4) = Some (r, cs', h') \<and>
     relinked (insert v (set (H k))) h h' \<and> set_versions cs' h' (if r then created_history h H k v else H) \<and>
     unat (hm_len cs') \<le> Suc (unat (hm_len cs)) \<and> (ok_node \<longrightarrow> r) \<and>
     (r \<longrightarrow> plain_entry h' (h_next h))"
proof -
  let ?a = "h_next h" and ?A = "insert v (set (H k))"
  have inv: "hmap_inv cs" and Hk: "H k = []"
    using sv none set_versions_head [OF sv, of k] by (auto simp: set_versions_def split: list.splits)
  have anot: "?a \<notin> versions H" using set_versions_below [OF ok sv, of ?a] by auto
  obtain r cs1 where ins: "hmap_insert g ok_node cs k ?a = (r, cs1)" by fastforce
  note hi = hmap_insert_ok [OF inv room, where ok_grow = g and ok_node = ok_node and k = k and v = ?a, unfolded ins, simplified]
  show ?thesis
  proof (cases r)
    case None
    let ?h5 = "h4\<lparr>h_cells := (h_cells h4)(?a := None)\<rparr>"
    have c5: "h_cells ?h5 = h_cells h" using h4 heap_ok_fresh [OF ok] by (auto simp: fun_eq_iff)
    have "relinked ?A h ?h5" using c5 h4 ok by (simp add: relinked_def heap_ok_def payload_def less_Suc_eq)
    moreover have "hmap_inv cs1" "hmap_abs cs1 = hmap_abs cs" "\<not> ok_node" using hi None by simp_all
    moreover from this have "set_versions cs1 ?h5 H" "unat (hm_len cs1) = unat (hm_len cs)"
      using set_versions_frame [OF sv, of ?h5] c5 hmap_len_card [OF inv] hmap_len_card [of cs1] by (auto simp: set_versions_def)
    ultimately show ?thesis using None ins h4 by (auto simp: free_cell_def)
  next
    case (Some node)
    then have cs1: "hmap_inv cs1" "hmap_abs cs1 = (hmap_abs cs)(k \<mapsto> ?a)" "hmap_get cs1 k = Some node" using hi by simp_all
    have sv4: "set_versions cs1 h4 (H(k := [?a]))"
      by (rule set_versions_insert [OF sv none anot cs1(1,2) h4(1)]) (simp_all add: catalogEntry_init_def)
    have vlt: "v < ?a" using ok v(2) by (auto simp: heap_ok_def)
    have h4': "heap_ok h4" "relinked ?A h h4"
      using h4 ok by (auto simp: relinked_def heap_ok_def payload_def less_Suc_eq)
    have "v \<notin> versions (H(k := [?a]))" "h_cells h4 v = Some cv" using v vlt h4 by (auto simp: versions_def)
    from link_head_ok [OF sv4 cs1(3) h4'(1) this v(3)] obtain cs' h' where
      lh: "link_head cs1 node v h4 = Some (True, cs', h')" "set_versions cs' h' (H(k := v # [?a]))"
          "relinked {v, ?a} h4 h'" "hm_len cs' = hm_len cs1" by (auto simp: insert_commute)
    have "relinked ?A h h'" using h4'(2) lh(3) h4(2) by (auto simp: relinked_def)
    moreover have "payload h' ?a = payload h4 ?a" using lh(3) h4(2) by (simp add: relinked_def)
    moreover have "plain_entry h4 ?a" using h4(1) by (simp add: plain_entry_def payload_def catalogEntry_init_def)
    ultimately have "relinked ?A h h'" "plain_entry h' ?a" by (simp_all add: plain_entry_def)
    then show ?thesis
      using lh Some ins Hk hmap_len_insert [OF inv cs1(1,2)] by (auto simp: created_history_def)
  qed
qed

lemma create_entry_first:
  assumes sv: "set_versions cs h H" and ok: "heap_ok h" and room: "hmap_room cs" and k: "hmap_get cs k = None"
    and v: "v \<notin> versions H" "h_cells h v = Some cv" "ce_parent (base cv) = None"
  shows "\<exists>r cs' h'. catalogSet_create_entry cs k v h = Some (r, cs', h') \<and> relinked (insert v (set (H k))) h h' \<and>
     set_versions cs' h' (if r then created_history h H k v else H) \<and>
     unat (hm_len cs') \<le> Suc (unat (hm_len cs)) \<and> (memory_left h \<longrightarrow> r) \<and>
     (r \<longrightarrow> plain_entry h' (h_next h))"
proof -
  have inv: "hmap_inv cs" and none: "hmap_abs cs k = None"
    using sv k hmap_get_None_iff [of cs k] by (auto simp: set_versions_def)
  let ?A = "insert v (set (H k))"
  note us = set_versions_usable [OF sv]
  obtain M1 h1 where n1: "next_mem h = (M1, h1)" by fastforce
  then have h1: "h_cells h1 = h_cells h" "h_next h1 = h_next h" "heap_ok h1" "relinked ?A h h1" "memory_left h1 = memory_left h"
    using ok relinked_calls [OF relinked_refl [OF ok]] by (auto simp: next_mem_def heap_ok_def memory_left_def)
  have sv1: "set_versions cs h1 H" using sv by (rule set_versions_frame) (simp add: h1)
  obtain d h2 where n2: "make_entry INVALID (Some k) h1 = (d, h2)" by fastforce
  note nc = new_cell_cases [OF n2 [unfolded make_entry_def] h1(3)]
  consider "\<not> alloc_ok M1" | "alloc_ok M1" "d = None" | a where "alloc_ok M1" "d = Some a" by auto
  then show ?thesis
  proof cases
    case 1
    then have "\<not> memory_left h" using n1 by (auto simp: next_mem_def memory_left_def)
    then show ?thesis using 1 k us n1 h1 sv1 by (auto simp: catalogSet_create_entry_def)
  next
    case 2
    then have h2: "h_cells h2 = h_cells h1" "\<not> memory_left h" "relinked ?A h h2"
      using nc h1 ok by (auto simp: relinked_def)
    have "set_versions cs h2 H" using sv1 by (rule set_versions_frame) (simp add: h2)
    then show ?thesis using 2 k us n1 n2 h2 by (auto simp: catalogSet_create_entry_def)
  next
    case (3 a)
    let ?cd = "\<lparr>base = catalogEntry_init INVALID (Some k), body = PlainEntry\<rparr>"
    obtain M2 h3 M3 h4 where n3: "next_mem h2 = (M2, h3)" "next_mem h3 = (M3, h4)" by fastforce
    have h4: "h_cells h4 = (h_cells h)(h_next h \<mapsto> ?cd)" "h_next h4 = Suc (h_next h)" "h_mem h4 = h_mem h"
        "M3 = h_mem h (h_calls h3)" "a = h_next h"
      using nc 3 h1 n1 n3 by (auto simp: next_mem_def relinked_def)
    from insert_and_link_ok [OF sv ok room none v h4(1-3), of "alloc_ok M2" "alloc_ok M3"]
    obtain r cs' h' where
      r: "(case hmap_insert (alloc_ok M2) (alloc_ok M3) cs k a of
             (None, cs1) \<Rightarrow> do { h5 \<leftarrow> free_cell a h4; Some (False, cs1, h5) }
           | (Some node, cs1) \<Rightarrow> link_head cs1 node v h4) = Some (r, cs', h')"
         "relinked ?A h h'" "set_versions cs' h' (if r then created_history h H k v else H)"
         "unat (hm_len cs') \<le> Suc (unat (hm_len cs))" "alloc_ok M3 \<longrightarrow> r" "r \<longrightarrow> plain_entry h' (h_next h)"
      unfolding h4(5) by blast
    have "catalogSet_create_entry cs k v h = Some (r, cs', h')"
      using 3 k us n1 n2 n3 r(1) by (simp add: catalogSet_create_entry_def)
    then show ?thesis using r(2-6) h4(4) unfolding memory_left_def by blast
  qed
qed

text \<open>
  \<^verbatim>\<open>catalogSet_create_entry\<close>: it fails on a live name, changing nothing, and when memory runs out, leaving
  every history as it was; otherwise the new entry is the newest version of the name.
\<close>

lemma create_entry_ok:
  assumes sv: "set_versions cs h H" and ok: "heap_ok h" and room: "hmap_room cs"
    and v: "v \<notin> versions H" "h_cells h v = Some cv" "ce_parent (base cv) = None"
  shows "\<exists>r cs' h'. catalogSet_create_entry cs k v h = Some (r, cs', h') \<and> relinked (insert v (set (H k))) h h' \<and>
     set_versions cs' h' (if r then created_history h H k v else H) \<and>
     unat (hm_len cs') \<le> Suc (unat (hm_len cs)) \<and> (memory_left h \<longrightarrow> r = (live_entry h H k = None)) \<and>
     (live_entry h H k \<noteq> None \<longrightarrow> \<not> r \<and> cs' = cs \<and> h' = h) \<and> (r \<and> H k = [] \<longrightarrow> plain_entry h' (h_next h))"
proof (cases "hmap_get cs k")
  case None
  have "H k = []" using None sv hmap_get_None_iff [of cs k] set_versions_head [OF sv, of k]
    by (auto simp: set_versions_def split: list.splits)
  then have "live_entry h H k = None" by (simp add: live_entry_def)
  moreover from create_entry_first [OF sv ok room None v] obtain r cs' h' where
    "catalogSet_create_entry cs k v h = Some (r, cs', h')" "relinked (insert v (set (H k))) h h'"
    "set_versions cs' h' (if r then created_history h H k v else H)" "unat (hm_len cs') \<le> Suc (unat (hm_len cs))"
    "memory_left h \<longrightarrow> r" "r \<longrightarrow> plain_entry h' (h_next h)" by blast
  ultimately show ?thesis by (intro exI [of _ r] exI [of _ cs'] exI [of _ h']) simp
next
  case (Some node)
  have inv: "hmap_inv cs" using sv by (simp add: set_versions_def)
  have "hmap_abs cs k = Some (hmap_value cs node)" using hmap_get_Some [OF inv Some] by blast
  then obtain as where as: "H k = hmap_value cs node # as"
    using set_versions_head [OF sv, of k] by (auto split: list.splits)
  then have "hmap_value cs node \<in> versions H" unfolding versions_def by (metis UN_I UNIV_I list.set_intros(1))
  from set_versions_cells [OF sv this] obtain c where c: "h_cells h (hmap_value cs node) = Some c" by auto
  have live: "live_entry h H k = (if ce_deleted (base c) then None else Some (hmap_value cs node))"
    using as c by (simp add: live_entry_def entry_deleted_def)
  have step: "catalogSet_create_entry cs k v h =
      (if \<not> ce_deleted (base c) then Some (False, cs, h) else link_head cs node v h)"
    using Some c set_versions_usable [OF sv] by (simp add: catalogSet_create_entry_def)
  show ?thesis
  proof (cases "ce_deleted (base c)")
    case False
    then show ?thesis using step live sv relinked_refl [OF ok] by auto
  next
    case True
    from link_head_ok [OF sv Some ok v] obtain cs' h' where
      "link_head cs node v h = Some (True, cs', h')" "set_versions cs' h' (H(k := v # H k))"
      "relinked (insert v (set (H k))) h h'" "hm_len cs' = hm_len cs" by blast
    then show ?thesis using True step live as by (auto simp: created_history_def)
  qed
qed

text \<open>
  \<^verbatim>\<open>catalogSet_drop_entry\<close> puts a deleted version on top of whatever the newest version is.
\<close>

lemma drop_entry_ok:
  assumes sv: "set_versions cs h H" and ok: "heap_ok h" and mem: "memory_left h"
    and named: "\<And>c. H k \<noteq> [] \<Longrightarrow> h_cells h (hd (H k)) = Some c \<Longrightarrow> ce_name (base c) \<noteq> None"
  shows "\<exists>cs' h'. catalogSet_drop_entry cs k h = Some (H k \<noteq> [], cs', h') \<and> relinked (set (H k)) h h' \<and>
     set_versions cs' h' (if H k = [] then H else H(k := h_next h # H k)) \<and> hm_len cs' = hm_len cs \<and>
     (H k \<noteq> [] \<longrightarrow> plain_entry h' (h_next h) \<and> entry_deleted h' (h_next h))"
proof (cases "hmap_get cs k")
  case None
  have "H k = []" using None sv hmap_get_None_iff [of cs k] set_versions_head [OF sv, of k]
    by (auto simp: set_versions_def split: list.splits)
  then show ?thesis
    using None sv set_versions_usable [OF sv] relinked_refl [OF ok] by (simp add: catalogSet_drop_entry_def)
next
  case (Some node)
  let ?old = "hmap_value cs node" and ?v = "h_next h"
  have inv: "hmap_inv cs" using sv by (simp add: set_versions_def)
  have "hmap_abs cs k = Some ?old" using hmap_get_Some [OF inv Some] by blast
  then obtain as where as: "H k = ?old # as"
    using set_versions_head [OF sv, of k] by (auto split: list.splits)
  then have old: "?old \<in> versions H" unfolding versions_def by (metis UN_I UNIV_I list.set_intros(1))
  from set_versions_cells [OF sv this] obtain co where co: "h_cells h ?old = Some co" by auto
  obtain name where name: "ce_name (base co) = Some name" using named [of co] as co by auto
  have lt: "?old < ?v" using set_versions_below [OF ok sv old] .
  have vnot: "?v \<notin> versions H" using set_versions_below [OF ok sv, of ?v] by auto
  let ?cv = "\<lparr>base = (catalogEntry_init INVALID (Some name))\<lparr>ce_child := Some ?old, ce_deleted := True\<rparr>, body = PlainEntry\<rparr>"
  let ?co = "co\<lparr>base := (base co)\<lparr>ce_parent := Some ?v\<rparr>\<rparr>"
  let ?h' = "h\<lparr>h_cells := (h_cells h)(?v \<mapsto> ?cv, ?old \<mapsto> ?co), h_next := Suc ?v, h_calls := Suc (Suc (h_calls h))\<rparr>"
  have "catalogSet_drop_entry_impl cs node h = Some (hmap_set_value cs node ?v, ?h')"
    using co name lt mem
    by (simp add: catalogSet_drop_entry_impl_def Let_def next_mem_def make_entry_def new_cell_def store_base_def
        memory_left_def catalogEntry_init_def fun_upd_twist)
  then have step: "catalogSet_drop_entry cs k h = Some (True, hmap_set_value cs node ?v, ?h')"
    using Some set_versions_usable [OF sv] by (simp add: catalogSet_drop_entry_def)
  have "set_versions (hmap_set_value cs node ?v) ?h' (H(k := ?v # H k))"
    by (rule set_versions_push [OF sv Some vnot _ _ co, where cv = ?cv]) (simp_all add: catalogEntry_init_def)
  moreover have "relinked (set (H k)) h ?h'"
    using as ok co lt by (auto simp: relinked_def heap_ok_def payload_def less_Suc_eq)
  moreover have "hm_len (hmap_set_value cs node ?v) = hm_len cs" using hmap_set_value_ok [OF inv Some] by blast
  moreover have "plain_entry ?h' ?v" "entry_deleted ?h' ?v"
    using lt by (simp_all add: plain_entry_def payload_def entry_deleted_def catalogEntry_init_def)
  ultimately show ?thesis using step as by auto
qed

end
