(* ===== verification/CatalogRefine.thy ===== *)
theory CatalogRefine
  imports Catalog
begin

text \<open>
  The catalog as a whole refines a finite map from schema names to finite maps from table names
  to columns. \<open>catalog_rep\<close> is the invariant that ties a catalog and its heap to the histories of all
  names; each operation keeps it and answers as the specification does.
\<close>

section \<open>The catalog\<close>

text \<open>
  \<open>table_ok\<close> and \<open>schema_ok\<close> describe an entry of a schema's table set and of the set of schemas; \<open>ts\<close> is
  the history of the tables of the schema. The sets have at most \<open>n\<close> names.
\<close>

definition table_ok :: "heap \<Rightarrow> addr \<Rightarrow> bool" where
  "table_ok h b \<longleftrightarrow>
     (case payload h b of
        None \<Rightarrow> False
      | Some c \<Rightarrow> ce_name (base c) \<noteq> None \<and> ce_destroy (base c) = None \<and>
          (case body c of
             TableCatalogEntry t \<Rightarrow> ce_type (base c) = TABLE
           | PlainEntry \<Rightarrow> ce_type (base c) = INVALID
           | SchemaCatalogEntry s \<Rightarrow> False))"

definition schema_ok :: "nat \<Rightarrow> heap \<Rightarrow> addr \<Rightarrow> history \<Rightarrow> bool" where
  "schema_ok n h a ts \<longleftrightarrow>
     (case payload h a of
        None \<Rightarrow> False
      | Some c \<Rightarrow> ce_name (base c) \<noteq> None \<and> ce_destroy (base c) = None \<and>
          (case body c of
             SchemaCatalogEntry s \<Rightarrow> ce_type (base c) = SCHEMA \<and> set_versions (sc_tables s) h ts \<and>
               set_versions (sc_indexes s) h (\<lambda>_. []) \<and> unat (hm_len (sc_tables s)) \<le> n
           | PlainEntry \<Rightarrow> ce_type (base c) = INVALID \<and> ts = (\<lambda>_. [])
           | TableCatalogEntry t \<Rightarrow> False)) \<and>
     (\<forall>b \<in> versions ts. table_ok h b) \<and>
     (\<forall>k b. live_entry h ts k = Some b \<longrightarrow> table_part h b \<noteq> None)"

definition catalog_rep :: "nat \<Rightarrow> Catalog \<Rightarrow> heap \<Rightarrow> history \<Rightarrow> (addr \<Rightarrow> history) \<Rightarrow> bool" where
  "catalog_rep n cat h H T \<longleftrightarrow> heap_ok h \<and> set_versions (cat_schemas cat) h H \<and> unat (hm_len (cat_schemas cat)) \<le> n \<and>
     (\<forall>a \<in> versions H. schema_ok n h a (T a) \<and> versions (T a) \<inter> versions H = {}) \<and>
     (\<forall>a \<in> versions H. \<forall>b \<in> versions H. a \<noteq> b \<longrightarrow> versions (T a) \<inter> versions (T b) = {}) \<and>
     (\<forall>k a. live_entry h H k = Some a \<longrightarrow> schema_part h a \<noteq> None)"

text \<open>What the catalog means: for every schema, for every table, its columns.\<close>

type_synonym catalog_spec = "bytes \<rightharpoonup> (bytes \<rightharpoonup> ColumnDefinition list)"

definition tables_spec :: "heap \<Rightarrow> history \<Rightarrow> bytes \<rightharpoonup> ColumnDefinition list" where
  "tables_spec h ts t = map_option (\<lambda>b. tb_columns (the (table_part h b))) (live_entry h ts t)"

definition catalog_abs :: "heap \<Rightarrow> history \<Rightarrow> (addr \<Rightarrow> history) \<Rightarrow> catalog_spec" where
  "catalog_abs h H T s = map_option (\<lambda>a. tables_spec h (T a)) (live_entry h H s)"

lemma in_versionsI: "a \<in> set (H k) \<Longrightarrow> a \<in> versions H"
  by (auto simp: versions_def)

lemma versions_empty [simp]: "versions (\<lambda>_. []) = {}"
  by (simp add: versions_def)

lemma live_entry_in: "live_entry h H k = Some a \<Longrightarrow> a \<in> versions H"
  by (auto simp: live_entry_def versions_def split: list.splits if_splits intro: exI [of _ k])

lemma schema_part_payload:
  "schema_part h a = (case payload h a of Some c \<Rightarrow> (case body c of SchemaCatalogEntry s \<Rightarrow> Some s | _ \<Rightarrow> None) | None \<Rightarrow> None)"
  by (simp add: schema_part_def payload_def split: option.splits)

lemma table_ok_relinked: "relinked A h h' \<Longrightarrow> b < h_next h \<Longrightarrow> table_ok h b \<Longrightarrow> table_ok h' b"
  by (simp add: table_ok_def relinked_def)

lemma schema_ok_below:
  assumes "schema_ok n h a ts" "heap_ok h" "b \<in> versions ts"
  shows "b < h_next h"
proof -
  have "table_ok h b" using assms by (simp add: schema_ok_def)
  then have "h_cells h b \<noteq> None" by (auto simp: table_ok_def payload_def split: option.splits)
  then show ?thesis using assms(2) by (simp add: heap_ok_def)
qed

lemma live_entry_cong:
  assumes "\<And>a. a \<in> versions ts \<Longrightarrow> entry_deleted h' a = entry_deleted h a"
  shows "live_entry h' ts k = live_entry h ts k"
proof (cases "ts k")
  case (Cons a as)
  then have "a \<in> versions ts" by (intro in_versionsI [of _ _ k]) simp
  then show ?thesis using Cons assms by (simp add: live_entry_def)
qed (simp add: live_entry_def)

text \<open>A schema whose tables are not touched stays as it is, and so does what it means.\<close>

lemma schema_ok_relinked:
  assumes r: "relinked A h h'" and ok: "heap_ok h" and s: "schema_ok n h a ts" and a: "a < h_next h"
    and d: "versions ts \<inter> A = {}"
  shows "schema_ok n h' a ts \<and> tables_spec h' ts = tables_spec h ts"
proof -
  have below: "b < h_next h" if "b \<in> versions ts" for b using schema_ok_below [OF s ok that] .
  have live: "live_entry h' ts k = live_entry h ts k" for k
    using relinked_deleted [OF r below] by (rule live_entry_cong)
  have tp: "table_part h' b = table_part h b" if "b \<in> versions ts" for b using relinked_bodies [OF r below [OF that]] by simp
  have p: "payload h' a = payload h a" using r a by (simp add: relinked_def)
  have "\<forall>b \<in> versions ts. table_ok h' b" using s table_ok_relinked [OF r below] by (simp add: schema_ok_def)
  moreover have "\<forall>k b. live_entry h' ts k = Some b \<longrightarrow> table_part h' b \<noteq> None"
    using s tp live_entry_in [of h ts] by (simp add: schema_ok_def live)
  moreover have "set_versions cs h' ts" if "set_versions cs h ts" for cs
    using relinked_versions [OF r that ok d] .
  moreover have "set_versions cs h' (\<lambda>_. [])" if "set_versions cs h (\<lambda>_. [])" for cs
    using relinked_versions [OF r that ok] by simp
  ultimately have "schema_ok n h' a ts"
    using s unfolding schema_ok_def p by (auto split: option.splits entry_body.splits)
  moreover have "tables_spec h' ts = tables_spec h ts"
    using tp live_entry_in [of h ts] by (force simp: tables_spec_def live fun_eq_iff intro: map_option_cong)
  ultimately show ?thesis ..
qed

lemma schema_ok_plain:
  assumes "plain_entry h a"
  shows "schema_ok n h a (\<lambda>_. [])" "table_ok h a"
  using assms by (auto simp: schema_ok_def table_ok_def plain_entry_def live_entry_def split: option.splits)

lemma schema_ok_mono: "schema_ok n h a ts \<Longrightarrow> n \<le> m \<Longrightarrow> schema_ok m h a ts"
  by (auto simp: schema_ok_def split: option.splits entry_body.splits)

lemma catalog_rep_step:
  assumes rep: "catalog_rep n cat h H T" and r: "relinked A h h'" and A: "A \<subseteq> versions H \<union> {h_next h..}"
    and sv: "set_versions cs h' H'" and len: "unat (hm_len cs) \<le> m" "n \<le> m"
    and new: "\<And>a. a \<in> versions H' \<Longrightarrow> a \<notin> versions H \<Longrightarrow> h_next h \<le> a \<and> schema_ok m h' a (\<lambda>_. [])"
    and heads: "\<And>k a. live_entry h' H' k = Some a \<Longrightarrow> schema_part h' a \<noteq> None"
  shows "catalog_rep m (cat\<lparr>cat_schemas := cs\<rparr>) h' H' (\<lambda>a. if a < h_next h then T a else (\<lambda>_. []))"
    and "a \<in> versions H \<Longrightarrow> tables_spec h' (T a) = tables_spec h (T a)"
proof -
  have ok: "heap_ok h" "heap_ok h'" using rep r by (auto simp: catalog_rep_def relinked_def)
  have sok: "schema_ok n h a (T a)" "versions (T a) \<inter> versions H = {}" if "a \<in> versions H" for a
    using rep that unfolding catalog_rep_def by blast+
  have below: "a < h_next h" if "a \<in> versions H" for a
    using set_versions_below [OF ok(1) _ that] rep unfolding catalog_rep_def by blast
  have dA: "versions (T a) \<inter> A = {}" if "a \<in> versions H" for a
    using A sok [OF that] schema_ok_below [OF sok(1) [OF that] ok(1)] by force
  have keep: "schema_ok m h' a (T a)" "tables_spec h' (T a) = tables_spec h (T a)" if "a \<in> versions H" for a
    using schema_ok_relinked [OF r ok(1) sok(1) [OF that] below [OF that] dA [OF that]] schema_ok_mono len(2) by blast+
  show "a \<in> versions H \<Longrightarrow> tables_spec h' (T a) = tables_spec h (T a)" by (rule keep)
  let ?T = "\<lambda>a. if a < h_next h then T a else (\<lambda>_. [])"
  have T: "?T a = (if a \<in> versions H then T a else (\<lambda>_. []))" if "a \<in> versions H'" for a
    using new [OF that] below [of a] by auto
  have sep: "versions (?T a) \<inter> versions H' = {}" if a: "a \<in> versions H'" for a
  proof (cases "a \<in> versions H")
    case True
    have "b \<notin> versions H'" if "b \<in> versions (T a)" for b
      using sok [OF True] schema_ok_below [OF sok(1) [OF True] ok(1) that] new [of b] that by auto
    then show ?thesis using True T [OF a] by auto
  qed (use T [OF a] in simp)
  show "catalog_rep m (cat\<lparr>cat_schemas := cs\<rparr>) h' H' ?T"
    unfolding catalog_rep_def
  proof (intro conjI ballI allI impI)
    fix a assume a: "a \<in> versions H'"
    then show "schema_ok m h' a (?T a)" using T [OF a] keep new [OF a] by auto
    show "versions (?T a) \<inter> versions H' = {}" by (rule sep [OF a])
    fix b assume b: "b \<in> versions H'" "a \<noteq> b"
    then show "versions (?T a) \<inter> versions (?T b) = {}"
      using rep T [OF a] T [OF b(1)] unfolding catalog_rep_def by simp
  qed (use ok sv len heads in simp_all)
qed

text \<open>A name whose history is the same means the same.\<close>

lemma catalog_abs_same:
  assumes rep: "catalog_rep n cat h H T" and r: "relinked A h h'" and same: "H' s = H s"
    and T: "\<And>a. a \<in> versions H \<Longrightarrow> T' a = T a" and spec: "\<And>a. a \<in> versions H \<Longrightarrow> tables_spec h' (T a) = tables_spec h (T a)"
  shows "catalog_abs h' H' T' s = catalog_abs h H T s"
proof -
  have "set_versions (cat_schemas cat) h H" "heap_ok h" using rep by (simp_all add: catalog_rep_def)
  then have "live_entry h' H s = live_entry h H s" by (rule live_entry_relinked [OF r])
  then have "live_entry h' H' s = live_entry h H s" using same by (simp add: live_entry_def)
  moreover have "tables_spec h' (T' a) = tables_spec h (T a)" if "live_entry h H s = Some a" for a
    using T spec live_entry_in [OF that] by simp
  ultimately show ?thesis by (cases "live_entry h H s") (simp_all add: catalog_abs_def)
qed

lemma catalog_heads_kept:
  assumes rep: "catalog_rep n cat h H T" and r: "relinked A h h'" and l: "live_entry h' H k = Some a"
  shows "schema_part h' a \<noteq> None"
proof -
  have ok: "heap_ok h" and sv: "set_versions (cat_schemas cat) h H" using rep by (simp_all add: catalog_rep_def)
  have "live_entry h H k = Some a" using l live_entry_relinked [OF r sv ok] by simp
  then show ?thesis
    using rep relinked_bodies [OF r set_versions_below [OF ok sv live_entry_in]] by (simp add: catalog_rep_def)
qed

abbreviation grown_tables :: "heap \<Rightarrow> (addr \<Rightarrow> history) \<Rightarrow> addr \<Rightarrow> history" where
  "grown_tables h T \<equiv> (\<lambda>a. if a < h_next h then T a else (\<lambda>_. []))"

text \<open>The catalog when only new cells outside it came up, and when a version is put on one name.\<close>

lemma catalog_same:
  assumes rep: "catalog_rep n cat h H T" and r: "relinked {} h h'" and n: "n \<le> m"
  shows "catalog_rep m cat h' H (grown_tables h T) \<and> catalog_abs h' H (grown_tables h T) = catalog_abs h H T"
proof -
  have ok: "heap_ok h" and sv: "set_versions (cat_schemas cat) h H" and len: "unat (hm_len (cat_schemas cat)) \<le> m"
    using rep n by (auto simp: catalog_rep_def)
  have sv': "set_versions (cat_schemas cat) h' H" by (rule relinked_versions [OF r sv ok]) simp
  note st = catalog_rep_step [OF rep r _ sv' len n _ catalog_heads_kept [OF rep r]]
  have "catalog_rep m cat h' H (grown_tables h T)" using st(1) by simp
  moreover have "catalog_abs h' H (grown_tables h T) s = catalog_abs h H T s" for s
    using catalog_abs_same [OF rep r, where H' = H and s = s] st(2) set_versions_below [OF ok sv] by simp
  ultimately show ?thesis by (simp add: fun_eq_iff)
qed

lemma catalog_push:
  assumes rep: "catalog_rep n cat h H T" and r: "relinked A h h'" and A: "A \<subseteq> versions H \<union> {h_next h..}"
    and sv': "set_versions cs h' H'" and len: "unat (hm_len cs) \<le> m" "n \<le> m"
    and others: "\<And>s. s \<noteq> k \<Longrightarrow> H' s = H s"
    and new: "\<And>a. a \<in> versions H' \<Longrightarrow> a \<notin> versions H \<Longrightarrow> h_next h \<le> a \<and> schema_ok m h' a (\<lambda>_. [])"
    and head: "live_entry h' H' k = v" "\<And>e. v = Some e \<Longrightarrow> h_next h \<le> e \<and> schema_part h' e \<noteq> None"
  shows "catalog_rep m (cat\<lparr>cat_schemas := cs\<rparr>) h' H' (grown_tables h T) \<and>
    catalog_abs h' H' (grown_tables h T) = (catalog_abs h H T)(k := map_option (\<lambda>_. Map.empty) v)"
proof
  have ok: "heap_ok h" and sv: "set_versions (cat_schemas cat) h H" using rep by (auto simp: catalog_rep_def)
  have "schema_part h' a \<noteq> None" if "live_entry h' H' s = Some a" for s a
  proof (cases "s = k")
    case True
    then show ?thesis using that head by simp
  next
    case False
    then have "live_entry h' H s = Some a" using that others by (simp add: live_entry_def)
    then show ?thesis by (rule catalog_heads_kept [OF rep r])
  qed
  note st = catalog_rep_step [OF rep r A sv' len new this]
  show "catalog_rep m (cat\<lparr>cat_schemas := cs\<rparr>) h' H' (grown_tables h T)" by (rule st(1))
  show "catalog_abs h' H' (grown_tables h T) = (catalog_abs h H T)(k := map_option (\<lambda>_. Map.empty) v)"
  proof
    fix s
    show "catalog_abs h' H' (grown_tables h T) s = ((catalog_abs h H T)(k := map_option (\<lambda>_. Map.empty) v)) s"
    proof (cases "s = k")
      case True
      then show ?thesis
        using head by (cases v) (auto simp: catalog_abs_def live_entry_def [of h' "\<lambda>_. []"] tables_spec_def dest: leD)
    next
      case False
      then show ?thesis
        using catalog_abs_same [OF rep r, of H' s "grown_tables h T"] others st(2) set_versions_below [OF ok sv] by simp
    qed
  qed
qed

subsection \<open>Schemas\<close>

datatype catalog_op = CreateSchema CreateSchemaInfo | DropSchema bytes | CreateTable CreateTableInfo

fun catalog_spec_step :: "catalog_op \<Rightarrow> catalog_spec \<Rightarrow> int \<times> catalog_spec" where
  "catalog_spec_step (CreateSchema info) m =
     (if m (csi_schema_name info) \<noteq> None then (if csi_if_not_exists info then 0 else -2, m)
      else (0, m(csi_schema_name info \<mapsto> Map.empty)))"
| "catalog_spec_step (DropSchema s) m = (if s = DEFAULT_SCHEMA then (-1, m) else (0, m(s := None)))"
| "catalog_spec_step (CreateTable info) m =
     (case m (cti_schema_name info) of
        None \<Rightarrow> (-1, m)
      | Some ts \<Rightarrow>
          if ts (cti_table_name info) \<noteq> None then (if cti_if_not_exists info then 0 else -2, m)
          else (0, m(cti_schema_name info \<mapsto> ts(cti_table_name info \<mapsto>
                 take (unat (cti_col_count info)) (cti_columns info)))))"

definition catalog_step ::
  "(nat \<Rightarrow> addr \<Rightarrow> heap \<Rightarrow> heap option) \<Rightarrow> (u64 option \<Rightarrow> bytes \<Rightarrow> bytes \<Rightarrow> usize \<Rightarrow> bytes option \<Rightarrow> u64) \<Rightarrow>
     catalog_op \<Rightarrow> Catalog \<times> heap \<Rightarrow> (int \<times> Catalog \<times> heap) option" where
  "catalog_step cb dt op ch =
     (case (op, ch) of
        (CreateSchema info, cat, h) \<Rightarrow> catalog_create_schema cb 2 cat info h
      | (DropSchema s, cat, h) \<Rightarrow> catalog_drop_schema cat s h
      | (CreateTable info, cat, h) \<Rightarrow>
          map_option (\<lambda>(rc, h'). (rc, cat, h')) (catalog_create_table dt cat info h))"

lemma hmap_str_order: "key_order_ok hmap_str_cmp"
  by (simp add: key_order_ok_def)

lemma empty_set_ok:
  "set_versions (hmap_init_str True 8) h (\<lambda>_. [])" "hm_len (hmap_init_str True 8 :: CatalogSet) = 0"
  "hmap_foreach (hmap_iter_init (hmap_init_str True 8 :: CatalogSet)) = []"
proof -
  have i: "hmap_inv (hmap_init_str True 8 :: CatalogSet)" "hmap_abs (hmap_init_str True 8 :: CatalogSet) = Map.empty"
    unfolding hmap_init_str_def
    by (rule hmap_init_ok [OF hmap_str_order, THEN conjunct1] hmap_init_ok [OF hmap_str_order, THEN conjunct2],
        simp_all add: HMAP_DEFAULT_NBUCKETS_def PTRDIFF_LIMIT_def)+
  show l: "hm_len (hmap_init_str True 8 :: CatalogSet) = 0" by (simp add: hmap_init_str_def hmap_init_def)
  show "set_versions (hmap_init_str True 8) h (\<lambda>_. [])" using i by (simp add: set_versions_def)
  have "it_rest (hmap_iter_init (hmap_init_str True 8 :: CatalogSet)) = hmap_nodes (hmap_init_str True 8)"
    by (simp add: it_rest_def it_chain_rest_def hmap_iter_init_def hmap_nodes_def)
  moreover have "hmap_nodes (hmap_init_str True 8 :: CatalogSet) = []" using i l by (simp add: hmap_inv_def)
  ultimately show "hmap_foreach (hmap_iter_init (hmap_init_str True 8 :: CatalogSet)) = []"
    using i by (subst hmap_foreach_rest) (simp_all add: hmap_iter_init_def hmap_inv_def hmap_placed_def)
qed

definition empty_schema_cell :: "bytes \<Rightarrow> cell" where
  "empty_schema_cell name =
     \<lparr>base = catalogEntry_init SCHEMA (Some name),
      body = SchemaCatalogEntry \<lparr>sc_tables = hmap_init_str True 8, sc_indexes = hmap_init_str True 8\<rparr>\<rparr>"

lemma make_schema_entry_ok:
  assumes ok: "heap_ok h" and mem: "memory_left h"
  obtains h' where "make_schema_entry name h = (Some (h_next h), h')" "relinked {} h h'" "heap_ok h'" "memory_left h'"
    "h_next h' = Suc (h_next h)" "h_cells h' = (h_cells h)(h_next h \<mapsto> empty_schema_cell name)"
    "schema_ok 0 h' (h_next h) (\<lambda>_. [])"
proof
  let ?h' = "h\<lparr>h_cells := (h_cells h)(h_next h \<mapsto> empty_schema_cell name), h_next := Suc (h_next h),
                h_calls := Suc (Suc (Suc (h_calls h)))\<rparr>"
  show "make_schema_entry name h = (Some (h_next h), ?h')"
    using mem by (simp add: make_schema_entry_def new_cell_def next_mem_def memory_left_def catalogSet_init_def
        store_body_def empty_schema_cell_def)
  show "relinked {} h ?h'" "heap_ok ?h'"
    using ok by (auto simp: relinked_def heap_ok_def payload_def less_Suc_eq)
  show "memory_left ?h'" using mem by (simp add: memory_left_def)
  show "schema_ok 0 ?h' (h_next h) (\<lambda>_. [])"
    by (simp add: schema_ok_def payload_def empty_schema_cell_def catalogEntry_init_def empty_set_ok live_entry_def)
qed simp_all

lemma destroy_empty_schema:
  assumes "h_cells h e = Some (empty_schema_cell name)" "2 \<le> fuel"
  shows "schemacatalogEntry_destroy cb fuel e h = Some (h\<lparr>h_cells := (h_cells h)(e := None)\<rparr>)"
proof -
  obtain f where f: "fuel = Suc (Suc f)" using assms(2) by (metis Suc_le_D numeral_2_eq_2 Suc_le_mono)
  have "hmap_usable (hmap_init_str True 8 :: CatalogSet)"
    using set_versions_usable empty_set_ok(1) by blast
  then show ?thesis
    using assms(1) by (simp add: f empty_schema_cell_def empty_set_ok free_cell_def)
qed

lemma create_schema_step:
  assumes rep: "catalog_rep n cat h H T" and mem: "memory_left h" and n: "n < 2 ^ 64 - 1" and fuel: "2 \<le> fuel"
  shows "\<exists>rc cat' h' H' T'. catalog_create_schema cb fuel cat info h = Some (rc, cat', h') \<and>
     catalog_rep (Suc n) cat' h' H' T' \<and> memory_left h' \<and>
     (rc, catalog_abs h' H' T') = catalog_spec_step (CreateSchema info) (catalog_abs h H T)"
proof -
  let ?k = "csi_schema_name info" and ?e = "h_next h" and ?h1 = "h\<lparr>h_calls := Suc (h_calls h)\<rparr>"
  have ok: "heap_ok h" and sv: "set_versions (cat_schemas cat) h H" and len: "unat (hm_len (cat_schemas cat)) \<le> n"
    using rep by (auto simp: catalog_rep_def)
  have "heap_ok ?h1" "memory_left ?h1" using ok mem by (simp_all add: heap_ok_def memory_left_def)
  from make_schema_entry_ok [OF this, of ?k] obtain h2 where
    h2: "make_schema_entry ?k ?h1 = (Some ?e, h2)" "heap_ok h2" "memory_left h2" "h_next h2 = Suc ?e"
        "h_cells h2 = (h_cells h)(?e \<mapsto> empty_schema_cell ?k)" "schema_ok 0 h2 ?e (\<lambda>_. [])" "relinked {} ?h1 h2"
    by auto
  have r2: "relinked A h h2" for A using h2(7) ok by (simp add: relinked_def payload_def)
  have eH: "?e \<notin> versions H" using set_versions_below [OF ok sv, of ?e] by auto
  have sv2: "set_versions (cat_schemas cat) h2 H" by (rule relinked_versions [OF r2 sv ok, of "{}"]) simp
  have room: "hmap_room (cat_schemas cat)" using len n by (simp add: hmap_room_def)
  have "h_cells h2 ?e = Some (empty_schema_cell ?k)" "ce_parent (base (empty_schema_cell ?k)) = None"
    by (simp_all add: h2 empty_schema_cell_def catalogEntry_init_def)
  from create_entry_ok [OF sv2 h2(2) room eH this, where k = ?k] obtain r cs' h' where
    c: "catalogSet_create_entry (cat_schemas cat) ?k ?e h2 = Some (r, cs', h')" and
    rl: "relinked (insert ?e (set (H ?k))) h2 h'" and
    sv': "set_versions cs' h' (if r then created_history h2 H ?k ?e else H)" and
    len': "unat (hm_len cs') \<le> Suc (unat (hm_len (cat_schemas cat)))" and
    r: "r = (live_entry h H ?k = None)" and fail: "\<not> r \<Longrightarrow> cs' = cat_schemas cat \<and> h' = h2" and
    dummy: "r \<Longrightarrow> H ?k = [] \<Longrightarrow> plain_entry h' (h_next h2)"
    using h2(3) live_entry_relinked [OF r2 [of "{}"] sv ok] by auto
  let ?h3 = "h2\<lparr>h_cells := (h_cells h2)(?e := None)\<rparr>"
  have step: "catalog_create_schema cb fuel cat info h =
      (if r then Some (0, cat\<lparr>cat_schemas := cs'\<rparr>, h')
       else Some (if \<not> csi_if_not_exists info then -2 else 0, cat, ?h3))"
    using mem c h2(1) fail destroy_empty_schema [OF _ fuel, of h2 ?e ?k cb] h2(5)
    by (simp add: catalog_create_schema_def next_mem_def memory_left_def Let_def)
  have spec: "catalog_abs h H T ?k = None \<longleftrightarrow> r" by (simp add: catalog_abs_def r)
  show ?thesis
  proof (cases r)
    case False
    have "relinked {} h ?h3"
      using h2 ok r2 [of "{}"] heap_ok_fresh [OF ok] by (auto simp: relinked_def heap_ok_def payload_def fun_eq_iff less_Suc_eq)
    from catalog_same [OF rep this, of "Suc n"] show ?thesis
      using False step spec h2(3) by (auto simp: memory_left_def)
  next
    case True
    let ?H = "created_history h2 H ?k ?e"
    have r3: "relinked (insert ?e (set (H ?k))) h h'" using relinked_trans [OF r2 rl] .
    have A: "insert ?e (set (H ?k)) \<subseteq> versions H \<union> {?e..}" by (auto simp: versions_def)
    have e: "\<not> entry_deleted h' ?e" "schema_part h' ?e \<noteq> None"
      using h2(4,5) relinked_deleted [OF rl, of ?e] relinked_bodies(1) [OF rl, of ?e]
      by (simp_all add: entry_deleted_def schema_part_def empty_schema_cell_def catalogEntry_init_def)
    have eok: "schema_ok (Suc n) h' ?e (\<lambda>_. [])"
      using schema_ok_relinked [OF rl h2(2,6)] h2(4) schema_ok_mono [of 0 h' ?e _ "Suc n"] by auto
    have new: "?e \<le> a \<and> schema_ok (Suc n) h' a (\<lambda>_. [])" if "a \<in> versions ?H" "a \<notin> versions H" for a
    proof -
      have "a = ?e \<or> (a = h_next h2 \<and> H ?k = [])"
        using that by (auto simp: versions_def created_history_def split: if_splits)
      then show ?thesis using eok schema_ok_plain(1) [OF dummy [OF True]] h2(4) by auto
    qed
    have "live_entry h' ?H ?k = Some ?e" using e by (simp add: live_entry_def created_history_def)
    from catalog_push [OF rep r3 A sv' [unfolded if_P [OF True]] _ _ _ new this] show ?thesis
      using True step spec len len' e mem relinked_memory [OF r3] by (auto simp: created_history_def)
  qed
qed

lemma drop_schema_step:
  assumes rep: "catalog_rep n cat h H T" and mem: "memory_left h"
  shows "\<exists>rc cat' h' H' T'. catalog_drop_schema cat s h = Some (rc, cat', h') \<and>
     catalog_rep (Suc n) cat' h' H' T' \<and> memory_left h' \<and>
     (rc, catalog_abs h' H' T') = catalog_spec_step (DropSchema s) (catalog_abs h H T)"
proof (cases "s = DEFAULT_SCHEMA")
  case True
  have "heap_ok h" using rep by (simp add: catalog_rep_def)
  from catalog_same [OF rep relinked_refl [OF this], of "Suc n"] show ?thesis
    using True mem by (auto simp: catalog_drop_schema_def)
next
  case False
  have ok: "heap_ok h" and sv: "set_versions (cat_schemas cat) h H" and len: "unat (hm_len (cat_schemas cat)) \<le> n"
    using rep by (auto simp: catalog_rep_def)
  have named: "ce_name (base c) \<noteq> None" if "H s \<noteq> []" "h_cells h (hd (H s)) = Some c" for c
  proof -
    have "hd (H s) \<in> versions H" using that(1) by (intro in_versionsI [of _ _ s]) simp
    then have "schema_ok n h (hd (H s)) (T (hd (H s)))" using rep by (simp add: catalog_rep_def)
    then show ?thesis using that(2) by (simp add: schema_ok_def payload_def)
  qed
  let ?v = "h_next h" and ?H = "if H s = [] then H else H(s := h_next h # H s)"
  from drop_entry_ok [where k = s, OF sv ok mem named] obtain cs' h' where
    d: "catalogSet_drop_entry (cat_schemas cat) s h = Some (H s \<noteq> [], cs', h')" "relinked (set (H s)) h h'"
       "set_versions cs' h' ?H" "hm_len cs' = hm_len (cat_schemas cat)"
       "H s \<noteq> [] \<longrightarrow> plain_entry h' ?v \<and> entry_deleted h' ?v"
    by blast
  have A: "set (H s) \<subseteq> versions H \<union> {?v..}" by (auto simp: versions_def)
  have new: "?v \<le> a \<and> schema_ok (Suc n) h' a (\<lambda>_. [])" if "a \<in> versions ?H" "a \<notin> versions H" for a
  proof -
    have "a = ?v \<and> H s \<noteq> []" using that by (auto simp: versions_def split: if_splits)
    then show ?thesis using schema_ok_plain(1) d(5) by simp
  qed
  have "live_entry h' ?H s = None" using d(5) by (simp add: live_entry_def)
  moreover have "?H k = H k" if "k \<noteq> s" for k using that by simp
  ultimately show ?thesis
    using catalog_push [OF rep d(2) A d(3) _ _ _ new, of s] False d(1,4) len mem relinked_memory [OF d(2)]
    by (fastforce simp: catalog_drop_schema_def)
qed

subsection \<open>Tables\<close>

lemma push_values_heap: "\<exists>n. snd (push_values ts types h) = h\<lparr>h_calls := n\<rparr>"
proof (induction ts arbitrary: types h)
  case Nil
  show ?case by (rule exI [of _ "h_calls h"]) simp
next
  case (Cons t ts)
  show ?case using Cons [of _ "h\<lparr>h_calls := Suc (h_calls h)\<rparr>"] by (auto simp: next_mem_def split: option.splits)
qed

lemma heap_calls_twice: "h\<lparr>h_calls := m\<rparr>\<lparr>h_calls := n\<rparr> = h\<lparr>h_calls := n\<rparr>"
  by simp

definition table_info_ok :: "CreateTableInfo \<Rightarrow> bool" where
  "table_info_ok info \<longleftrightarrow> unat (cti_col_count info) \<le> length (cti_columns info) \<and> unat (cti_col_count info) < 2 ^ 31"

lemma make_table_entry_ok:
  assumes ok: "heap_ok h" and mem: "memory_left h" and info: "table_info_ok info"
  obtains h' part where "make_table_entry dt cat a name info h = Some (Some (h_next h), h')" "relinked {} h h'"
    "heap_ok h'" "memory_left h'" "h_next h' = Suc (h_next h)"
    "h_cells h' = (h_cells h)(h_next h \<mapsto> \<lparr>base = catalogEntry_init TABLE (Some name), body = TableCatalogEntry part\<rparr>)"
    "tb_columns part = take (unat (cti_col_count info)) (cti_columns info)"
proof -
  let ?n = "cti_col_count info" and ?cols = "take (unat (cti_col_count info)) (cti_columns info)" and ?e = "h_next h"
  let ?c = "\<lparr>base = catalogEntry_init TABLE (Some name), body = PlainEntry\<rparr>"
  let ?h1 = "h\<lparr>h_cells := (h_cells h)(?e \<mapsto> ?c), h_next := Suc ?e, h_calls := Suc (h_calls h)\<rparr>"
  let ?push = "push_values (map (\<lambda>c. typeid_value (get_internal_type (col_type c))) ?cols)
      (SLICE (h_mem h (Suc (h_calls h))) 4 ?n) (?h1\<lparr>h_calls := Suc (Suc (h_calls h))\<rparr>)"
  obtain types k where p: "?push = (types, ?h1\<lparr>h_calls := k\<rparr>)"
    using push_values_heap [of _ _ "?h1\<lparr>h_calls := Suc (Suc (h_calls h))\<rparr>"] by (metis (no_types) prod.collapse heap_calls_twice)
  have small: "unat (?n * SIZEOF_ColumnDefinition) = unat ?n * 24"
    using info by (subst unat_mult_u64) (simp_all add: SIZEOF_ColumnDefinition_def table_info_ok_def)
  then have cm: "c_malloc (h_mem h k) (?n * SIZEOF_ColumnDefinition) \<noteq> None"
    using mem info by (simp add: c_malloc_def memory_left_def PTRDIFF_LIMIT_def table_info_ok_def)
  let ?part = "\<lparr>tb_schema = a, tb_datatable = dt (cat_storage cat) (cti_schema_name info) name ?n (sl_data types),
                 tb_storage_table = None, tb_columns = ?cols, tb_column_count = ?n\<rparr>"
  let ?h' = "?h1\<lparr>h_cells := (h_cells h)(?e \<mapsto> ?c\<lparr>body := TableCatalogEntry ?part\<rparr>), h_calls := Suc k\<rparr>"
  have "make_table_entry dt cat a name info h = Some (Some ?e, ?h')"
    using mem info p cm
    by (simp add: make_table_entry_def new_cell_def next_mem_def memory_left_def table_info_ok_def Let_def store_body_def)
  moreover have "relinked {} h ?h'" "heap_ok ?h'" "memory_left ?h'"
    using ok mem by (auto simp: relinked_def heap_ok_def payload_def less_Suc_eq memory_left_def)
  ultimately show thesis by (rule that [of ?h' ?part]) simp_all
qed

text \<open>A store to the body of one cell.\<close>

lemma body_stored:
  assumes a: "h_cells h a = Some c" and h': "h' = h\<lparr>h_cells := (h_cells h)(a \<mapsto> c\<lparr>body := b\<rparr>)\<rparr>"
  shows "store_body a b h = Some h'" "set_versions cs h H \<Longrightarrow> set_versions cs h' H"
    "entry_deleted h' x = entry_deleted h x" "x \<noteq> a \<Longrightarrow> payload h' x = payload h x"
    "live_entry h' H k = live_entry h H k" "heap_ok h \<Longrightarrow> heap_ok h'"
proof -
  show "store_body a b h = Some h'" using a h' by (simp add: store_body_def)
  have base: "map_option base (h_cells h' x) = map_option base (h_cells h x)" for x using a h' by simp
  show "set_versions cs h H \<Longrightarrow> set_versions cs h' H" using base by (rule set_versions_base [rotated])
  show ed: "entry_deleted h' x = entry_deleted h x" for x using a h' by (simp add: entry_deleted_def)
  show "x \<noteq> a \<Longrightarrow> payload h' x = payload h x" using h' by (simp add: payload_def)
  show "live_entry h' H k = live_entry h H k" by (rule live_entry_cong) (rule ed)
  show "heap_ok h \<Longrightarrow> heap_ok h'" using a h' by (auto simp: heap_ok_def)
qed

lemma table_part_payload:
  "table_part h a = (case payload h a of Some c \<Rightarrow> (case body c of TableCatalogEntry t \<Rightarrow> Some t | _ \<Rightarrow> None) | None \<Rightarrow> None)"
  by (simp add: table_part_def payload_def split: option.splits)

lemma schema_ok_body_stored:
  assumes a: "h_cells h a = Some c" and h': "h' = h\<lparr>h_cells := (h_cells h)(a \<mapsto> c\<lparr>body := b\<rparr>)\<rparr>"
    and s: "schema_ok n h x ts" "x \<noteq> a" "a \<notin> versions ts"
  shows "schema_ok n h' x ts \<and> tables_spec h' ts = tables_spec h ts"
proof -
  note st = body_stored [OF a h']
  have p: "payload h' y = payload h y" if "y \<in> versions ts" for y using st(4) [of y] that s(3) by auto
  have tp: "table_part h' y = table_part h y" if "y \<in> versions ts" for y using p [OF that] by (simp add: table_part_payload)
  have "table_ok h' y = table_ok h y" if "y \<in> versions ts" for y using p [OF that] by (simp add: table_ok_def)
  moreover have "table_part h' y \<noteq> None" if "live_entry h ts k = Some y" for k y
    using s(1) that tp [OF live_entry_in [OF that]] by (simp add: schema_ok_def)
  ultimately have "schema_ok n h' x ts"
    using s(1) st(2) unfolding schema_ok_def st(4) [OF s(2)] st(5) by (simp split: option.splits entry_body.splits)
  moreover have "tables_spec h' ts t = tables_spec h ts t" for t
    using tp [OF live_entry_in, of h t] by (cases "live_entry h ts t") (simp_all add: tables_spec_def st(5))
  ultimately show ?thesis by auto
qed

text \<open>
  A table entry \<open>e\<close> that was put on the table set of schema \<open>a\<close>, after the changed set was stored.
\<close>

lemma schema_ok_table_pushed:
  assumes s: "schema_ok n h a ts" "schema_part h a = Some s" and ok: "heap_ok h" and a: "a < h_next h" "a \<notin> versions ts"
    and e: "table_ok h e" "\<not> entry_deleted h e" "table_part h e = Some part" "e < h_next h"
    and sv: "set_versions tables h1 (created_history h ts t e)" "unat (hm_len tables) \<le> m"
    and r: "relinked (insert e (set (ts t))) h h1" "ts t = [] \<Longrightarrow> plain_entry h1 (h_next h)"
    and a1: "h_cells h1 a = Some c" and h2: "h2 = h1\<lparr>h_cells := (h_cells h1)(a \<mapsto> c\<lparr>body := SchemaCatalogEntry (s\<lparr>sc_tables := tables\<rparr>)\<rparr>)\<rparr>"
    and ne: "e \<noteq> a"
  shows "schema_ok m h2 a (created_history h ts t e) \<and>
     tables_spec h2 (created_history h ts t e) = (tables_spec h ts)(t \<mapsto> tb_columns part)"
proof -
  let ?ts = "created_history h ts t e"
  note st = body_stored [OF a1 h2]
  obtain c0 where c0: "payload h a = Some c0" "ce_name (base c0) \<noteq> None" "ce_destroy (base c0) = None" "ce_type (base c0) = SCHEMA"
      "set_versions (sc_indexes s) h (\<lambda>_. [])"
    using s by (auto simp: schema_ok_def schema_part_payload split: option.splits entry_body.splits)
  have p1: "payload h1 a = Some c0" using r(1) a(1) c0(1) by (simp add: relinked_def)
  have p2: "payload h2 a = Some (c0\<lparr>body := SchemaCatalogEntry (s\<lparr>sc_tables := tables\<rparr>)\<rparr>)"
    using p1 a1 h2 by (auto simp: payload_def)
  have vs: "x = e \<or> x \<in> versions ts \<or> (x = h_next h \<and> ts t = [])" if "x \<in> versions ?ts" for x
    using that by (auto simp: versions_def created_history_def split: if_splits)
  have below: "x < h_next h" if "x \<in> versions ts" for x using schema_ok_below [OF s(1) ok that] .
  have nota: "x \<noteq> a" if "x \<in> versions ?ts" for x using vs [OF that] ne a by auto
  have p: "payload h2 x = payload h x" if "x < h_next h" "x \<noteq> a" for x
    using st(4) [OF that(2)] r(1) that(1) by (simp add: relinked_def)
  have tp: "table_part h2 x = table_part h x" if "x < h_next h" "x \<noteq> a" for x
    using p [OF that] by (simp add: table_part_payload)
  have ed: "entry_deleted h2 x = entry_deleted h x" if "x < h_next h" for x
    using st(3) relinked_deleted [OF r(1) that] by simp
  have tok: "table_ok h2 x" if "x \<in> versions ?ts" for x
    using vs [OF that] s(1) e(1,4) below p [of x] nota [OF that] schema_ok_plain(2) [OF r(2)] st(4) [of x]
    by (auto simp: schema_ok_def table_ok_def)
  have live: "live_entry h2 ?ts k = (if k = t then Some e else live_entry h ts k)" for k
  proof -
    have "live_entry h2 ts k = live_entry h ts k" using ed below by (intro live_entry_cong) blast
    then show ?thesis using e(2) ed [OF e(4)] by (simp add: live_entry_def created_history_def)
  qed
  have old: "x < h_next h" "x \<noteq> a" if "live_entry h ts k = Some x" for k x
    using below live_entry_in [OF that] a(2) by auto
  have "table_part h2 x \<noteq> None" if "live_entry h ts k = Some x" for k x
    using s(1) that tp [OF old [OF that]] by (simp add: schema_ok_def)
  then have heads: "\<forall>k x. live_entry h2 ?ts k = Some x \<longrightarrow> table_part h2 x \<noteq> None"
    using tp [OF e(4) ne] e(3) by (simp add: live)
  have "set_versions (sc_indexes s) h2 (\<lambda>_. [])"
    using st(2) relinked_versions [OF r(1) c0(5) ok] by simp
  then have "schema_ok m h2 a ?ts"
    using c0 p2 st(2) [OF sv(1)] sv(2) tok heads by (simp add: schema_ok_def)
  moreover have "tables_spec h2 ?ts k = ((tables_spec h ts)(t \<mapsto> tb_columns part)) k" for k
  proof (cases "live_entry h ts k")
    case (Some x)
    then show ?thesis
      using tp [OF old [OF Some]] tp [OF e(4) ne] e(3) by (simp add: tables_spec_def live)
  qed (use tp [OF e(4) ne] e(3) in \<open>simp add: tables_spec_def live\<close>)
  ultimately show ?thesis by auto
qed

lemma catalog_table_pushed:
  assumes rep: "catalog_rep n cat h H T" and live: "live_entry h H sn = Some a"
    and r: "relinked A h h1" and A: "A \<subseteq> versions (T a) \<union> {h_next h..}"
    and a1: "h_cells h1 a = Some c" and h2: "h2 = h1\<lparr>h_cells := (h_cells h1)(a \<mapsto> c\<lparr>body := SchemaCatalogEntry s\<rparr>)\<rparr>"
    and ts: "schema_ok (Suc n) h2 a ts" "\<And>x. x \<in> versions ts \<Longrightarrow> x \<in> versions (T a) \<or> h_next h \<le> x"
  shows "catalog_rep (Suc n) cat h2 H (T(a := ts)) \<and>
     catalog_abs h2 H (T(a := ts)) = (catalog_abs h H T)(sn \<mapsto> tables_spec h2 ts)"
proof -
  have ok: "heap_ok h" and sv: "set_versions (cat_schemas cat) h H" and len: "unat (hm_len (cat_schemas cat)) \<le> Suc n"
    and sep: "\<And>x y. x \<in> versions H \<Longrightarrow> y \<in> versions H \<Longrightarrow> x \<noteq> y \<Longrightarrow> versions (T x) \<inter> versions (T y) = {}"
    using rep by (auto simp: catalog_rep_def)
  have sok: "schema_ok n h x (T x)" "versions (T x) \<inter> versions H = {}" if "x \<in> versions H" for x
    using rep that by (auto simp: catalog_rep_def)
  have aH: "a \<in> versions H" using live_entry_in [OF live] .
  have below: "x < h_next h" if "x \<in> versions H" for x using set_versions_below [OF ok sv that] .
  have tbelow: "y < h_next h" if "x \<in> versions H" "y \<in> versions (T x)" for x y using schema_ok_below [OF sok(1) ok] that by blast
  have ok1: "heap_ok h1" using r by (simp add: relinked_def)
  note st = body_stored [OF a1 h2]
  have disjA: "versions (T x) \<inter> A = {}" "versions H \<inter> A = {}" if "x \<in> versions H" "x \<noteq> a" for x
    using A sep [OF that(1) aH that(2)] tbelow [OF that(1)] sok(2) [OF aH] below by force+
  have dH: "versions H \<inter> A = {}" using A sok(2) [OF aH] below by force
  have keep: "schema_ok (Suc n) h2 x (T x)" "tables_spec h2 (T x) = tables_spec h (T x)" if x: "x \<in> versions H" "x \<noteq> a" for x
  proof -
    note r1 = schema_ok_relinked [OF r ok sok(1) [OF x(1)] below [OF x(1)] disjA(1) [OF x]]
    have "a \<notin> versions (T x)" using sok(2) [OF x(1)] aH by auto
    from schema_ok_body_stored [OF a1 h2 _ x(2) this] r1
    show "schema_ok (Suc n) h2 x (T x)" "tables_spec h2 (T x) = tables_spec h (T x)"
      using schema_ok_mono [of n h2 x "T x" "Suc n"] by auto
  qed
  have lv: "live_entry h2 H k = live_entry h H k" for k
    using st(5) live_entry_relinked [OF r sv ok] by simp
  have "schema_part h2 x \<noteq> None" if "live_entry h H k = Some x" for k x
  proof (cases "x = a")
    case True
    then show ?thesis using h2 by (simp add: schema_part_def)
  next
    case False
    have "schema_part h2 x = schema_part h1 x" using st(4) [OF False] by (simp add: schema_part_payload)
    then show ?thesis
      using rep that relinked_bodies(1) [OF r below [OF live_entry_in [OF that]]] by (auto simp: catalog_rep_def)
  qed
  moreover have "set_versions (cat_schemas cat) h2 H" using st(2) relinked_versions [OF r sv ok dH] by blast
  moreover have dt: "versions ts \<inter> versions H = {}" "x \<in> versions H \<Longrightarrow> x \<noteq> a \<Longrightarrow> versions ts \<inter> versions (T x) = {}" for x
    using ts(2) sok(2) [OF aH] below tbelow sep [OF aH] by (fastforce dest: leD)+
  moreover have "x \<in> versions H \<Longrightarrow> x \<noteq> a \<Longrightarrow> versions (T x) \<inter> versions ts = {}" for x
    using dt(2) [of x] by (simp add: Int_commute)
  ultimately have "catalog_rep (Suc n) cat h2 H (T(a := ts))"
    using st(6) [OF ok1] len ts(1) keep(1) sok(2) sep by (auto simp: catalog_rep_def lv)
  moreover have "catalog_abs h2 H (T(a := ts)) k = ((catalog_abs h H T)(sn \<mapsto> tables_spec h2 ts)) k" for k
  proof (cases "live_entry h H k")
    case None
    then show ?thesis using live by (auto simp: catalog_abs_def lv)
  next
    case (Some x)
    have "x = a \<longleftrightarrow> k = sn"
    proof
      assume "x = a"
      then have "a \<in> set (H k)" "a \<in> set (H sn)"
        using Some live by (auto simp: live_entry_def split: list.splits if_splits)
      then show "k = sn" using sv unfolding set_versions_def by blast
    qed (use Some live in simp)
    then show ?thesis using Some keep(2) live_entry_in [OF Some] by (auto simp: catalog_abs_def lv)
  qed
  ultimately show ?thesis by auto
qed

text \<open>
  What \<^verbatim>\<open>catalog_create_table\<close> does on a live schema \<open>a\<close>: the new entry \<open>e\<close> is made in \<open>h2\<close>, linked in \<open>h3\<close>
  if the name is free, and the table set is stored in \<open>h4\<close>.
\<close>

lemma create_table_run:
  assumes rep: "catalog_rep n cat h H T" and mem: "memory_left h" and n: "n < 2 ^ 64 - 1" and info: "table_info_ok info"
    and live: "live_entry h H (cti_schema_name info) = Some a" and e: "e = h_next h" and t: "t = cti_table_name info"
  obtains s h2 part h3 tables r c3 h4 where
    "schema_part h a = Some s" "unat (hm_len (sc_tables s)) \<le> n"
    "heap_ok h2" "memory_left h2" "h_next h2 = Suc e" "relinked {} h h2"
    "h_cells h2 = (h_cells h)(e \<mapsto> \<lparr>base = catalogEntry_init TABLE (Some t), body = TableCatalogEntry part\<rparr>)"
    "tb_columns part = take (unat (cti_col_count info)) (cti_columns info)"
    "relinked (insert e (set (T a t))) h2 h3" "set_versions tables h3 (if r then created_history h2 (T a) t e else T a)"
    "unat (hm_len tables) \<le> Suc n" "r = (live_entry h2 (T a) t = None)" "\<not> r \<longrightarrow> tables = sc_tables s \<and> h3 = h2"
    "r \<longrightarrow> T a t = [] \<longrightarrow> plain_entry h3 (h_next h2)" "h_cells h3 a = Some c3" "body c3 = SchemaCatalogEntry s"
    "h4 = h3\<lparr>h_cells := (h_cells h3)(a \<mapsto> c3\<lparr>body := SchemaCatalogEntry (s\<lparr>sc_tables := tables\<rparr>)\<rparr>)\<rparr>"
    "catalog_create_table dt cat info h =
       (if r then Some (0, h4)
        else map_option (Pair (if \<not> cti_if_not_exists info then -2 else 0)) (tablecatalogEntry_destroy e h4))"
proof -
  have ok: "heap_ok h" and sv: "set_versions (cat_schemas cat) h H" using rep by (auto simp: catalog_rep_def)
  have get: "catalog_get_schema cat (cti_schema_name info) h = Some (Some a)"
    using get_entry_ok [OF sv] live by (simp add: catalog_get_schema_def)
  have aH: "a \<in> versions H" using live_entry_in [OF live] .
  have a: "a < e" using set_versions_below [OF ok sv aH] e by simp
  have aT: "schema_ok n h a (T a)" using rep aH unfolding catalog_rep_def by blast
  obtain s where s: "schema_part h a = Some s" using rep live unfolding catalog_rep_def by blast
  have svt: "set_versions (sc_tables s) h (T a)" and len: "unat (hm_len (sc_tables s)) \<le> n"
    using aT s by (auto simp: schema_ok_def schema_part_payload split: option.splits entry_body.splits)
  let ?h1 = "h\<lparr>h_calls := Suc (h_calls h)\<rparr>"
  have "heap_ok ?h1" "memory_left ?h1" using ok mem by (simp_all add: heap_ok_def memory_left_def)
  from make_table_entry_ok [OF this info, of dt cat a t] obtain h2 part where
    h2: "make_table_entry dt cat a t info ?h1 = Some (Some e, h2)" "relinked {} ?h1 h2" "heap_ok h2" "memory_left h2"
        "h_next h2 = Suc e"
        "h_cells h2 = (h_cells h)(e \<mapsto> \<lparr>base = catalogEntry_init TABLE (Some t), body = TableCatalogEntry part\<rparr>)"
        "tb_columns part = take (unat (cti_col_count info)) (cti_columns info)"
    using e by auto
  have r2: "relinked {} h h2" using h2(2) ok by (simp add: relinked_def payload_def)
  have a2: "schema_part h2 a = Some s" using relinked_bodies(1) [OF r2] a e s by simp
  have eT: "e \<notin> versions (T a)" using schema_ok_below [OF aT ok, of e] e by auto
  have sv2: "set_versions (sc_tables s) h2 (T a)" by (rule relinked_versions [OF r2 svt ok]) simp
  have room: "hmap_room (sc_tables s)" using len n by (simp add: hmap_room_def)
  have cell: "h_cells h2 e = Some \<lparr>base = catalogEntry_init TABLE (Some t), body = TableCatalogEntry part\<rparr>"
    "ce_parent (base \<lparr>base = catalogEntry_init TABLE (Some t), body = TableCatalogEntry part\<rparr>) = None"
    by (simp_all add: h2 catalogEntry_init_def)
  obtain r tables h3 where
    c: "catalogSet_create_entry (sc_tables s) t e h2 = Some (r, tables, h3)" and
    c': "relinked (insert e (set (T a t))) h2 h3" "set_versions tables h3 (if r then created_history h2 (T a) t e else T a)"
    "unat (hm_len tables) \<le> Suc (unat (hm_len (sc_tables s)))" "r = (live_entry h2 (T a) t = None)"
    "\<not> r \<longrightarrow> tables = sc_tables s \<and> h3 = h2" "r \<longrightarrow> T a t = [] \<longrightarrow> plain_entry h3 (h_next h2)"
    using create_entry_ok [OF sv2 h2(3) room eT cell, of t] h2(4) by blast
  have s3: "schema_part h3 a = Some s" using relinked_bodies(1) [OF c'(1)] a h2(5) a2 by simp
  then obtain c3 where c3: "h_cells h3 a = Some c3" "body c3 = SchemaCatalogEntry s"
    by (auto simp: schema_part_def split: option.splits entry_body.splits)
  define h4 where "h4 = h3\<lparr>h_cells := (h_cells h3)(a \<mapsto> c3\<lparr>body := SchemaCatalogEntry (s\<lparr>sc_tables := tables\<rparr>)\<rparr>)\<rparr>"
  have "catalog_create_table dt cat info h =
      (if r then Some (0, h4)
       else map_option (Pair (if \<not> cti_if_not_exists info then -2 else 0)) (tablecatalogEntry_destroy e h4))"
    using get mem h2(1) a2 c s3 body_stored(1) [OF c3(1) h4_def] t
    by (auto simp: catalog_create_table_def next_mem_def memory_left_def map_option_case split: option.splits)
  moreover have "unat (hm_len tables) \<le> Suc n" using c'(3) len by simp
  ultimately show thesis using that [OF s len h2(3-5) r2 h2(6,7) c'(1,2) _ c'(4-6) c3 h4_def] by blast
qed

lemma create_table_step:
  assumes rep: "catalog_rep n cat h H T" and mem: "memory_left h" and n: "n < 2 ^ 64 - 1" and info: "table_info_ok info"
  shows "\<exists>rc h' H' T'. catalog_create_table dt cat info h = Some (rc, h') \<and> catalog_rep (Suc n) cat h' H' T' \<and>
     memory_left h' \<and> (rc, catalog_abs h' H' T') = catalog_spec_step (CreateTable info) (catalog_abs h H T)"
proof (cases "live_entry h H (cti_schema_name info)")
  case None
  have "heap_ok h" and sv: "set_versions (cat_schemas cat) h H" using rep by (auto simp: catalog_rep_def)
  then show ?thesis
    using get_entry_ok [OF sv] None mem catalog_same [OF rep relinked_refl, of "Suc n"]
    by (fastforce simp: catalog_create_table_def catalog_get_schema_def catalog_abs_def [of h H T])
next
  case (Some a)
  let ?t = "cti_table_name info" and ?e = "h_next h"
  have ok: "heap_ok h" and sv: "set_versions (cat_schemas cat) h H" using rep by (auto simp: catalog_rep_def)
  have aH: "a \<in> versions H" using live_entry_in [OF Some] .
  have a: "a < ?e" using set_versions_below [OF ok sv aH] .
  have aT: "schema_ok n h a (T a)" "a \<notin> versions (T a)" using rep aH unfolding catalog_rep_def by blast+
  obtain s h2 part h3 tables r c3 h4 where
    s: "schema_part h a = Some s" "unat (hm_len (sc_tables s)) \<le> n" and
    h2: "heap_ok h2" "memory_left h2" "h_next h2 = Suc ?e" "relinked {} h h2"
        "h_cells h2 = (h_cells h)(?e \<mapsto> \<lparr>base = catalogEntry_init TABLE (Some ?t), body = TableCatalogEntry part\<rparr>)"
        "tb_columns part = take (unat (cti_col_count info)) (cti_columns info)" and
    rl: "relinked (insert ?e (set (T a ?t))) h2 h3" and
    sv3: "set_versions tables h3 (if r then created_history h2 (T a) ?t ?e else T a)" "unat (hm_len tables) \<le> Suc n" and
    r: "r = (live_entry h2 (T a) ?t = None)" and fail: "\<not> r \<longrightarrow> tables = sc_tables s \<and> h3 = h2" and
    dummy: "r \<longrightarrow> T a ?t = [] \<longrightarrow> plain_entry h3 (h_next h2)" and c3: "h_cells h3 a = Some c3" "body c3 = SchemaCatalogEntry s" and
    h4: "h4 = h3\<lparr>h_cells := (h_cells h3)(a \<mapsto> c3\<lparr>body := SchemaCatalogEntry (s\<lparr>sc_tables := tables\<rparr>)\<rparr>)\<rparr>" and
    step: "catalog_create_table dt cat info h =
       (if r then Some (0, h4)
        else map_option (Pair (if \<not> cti_if_not_exists info then -2 else 0)) (tablecatalogEntry_destroy ?e h4))"
    by (rule create_table_run [OF rep mem n info Some refl refl, of dt]) (rule that)
  have a2: "schema_ok n h2 a (T a)" "schema_part h2 a = Some s" "tables_spec h2 (T a) = tables_spec h (T a)"
    using schema_ok_relinked [OF h2(4) ok aT(1) a] relinked_bodies(1) [OF h2(4) a] s(1) by auto
  have "tables_spec h2 (T a) ?t = None \<longleftrightarrow> r" by (simp add: tables_spec_def r)
  then have spec: "catalog_abs h H T (cti_schema_name info) = Some (tables_spec h (T a))" "tables_spec h (T a) ?t = None \<longleftrightarrow> r"
    unfolding a2(3) using Some by (simp_all add: catalog_abs_def)
  show ?thesis
  proof (cases r)
    case False
    then have "h4 = h2" using fail c3 by (simp add: h4 fun_upd_idem)
    let ?h5 = "h2\<lparr>h_cells := (h_cells h2)(?e := None)\<rparr>"
    have "tablecatalogEntry_destroy ?e h4 = Some ?h5"
      using \<open>h4 = h2\<close> h2(5) by (simp add: tablecatalogEntry_destroy_def free_cell_def)
    moreover have "relinked {} h ?h5"
      using h2 ok heap_ok_fresh [OF ok] by (auto simp: relinked_def heap_ok_def payload_def fun_eq_iff less_Suc_eq)
    ultimately show ?thesis
      using catalog_same [OF rep, of ?h5 "Suc n"] False step spec h2(2) by (fastforce simp: memory_left_def)
  next
    case True
    let ?ts = "created_history h2 (T a) ?t ?e"
    have e: "table_ok h2 ?e" "\<not> entry_deleted h2 ?e" "table_part h2 ?e = Some part" "?e < h_next h2"
      using h2(3,5) by (simp_all add: table_ok_def payload_def entry_deleted_def table_part_def catalogEntry_init_def)
    have q: "a < h_next h2" "set_versions tables h3 ?ts" "?e \<noteq> a" using sv3(1) True a h2(3) by simp_all
    have pl: "plain_entry h3 (h_next h2)" if "T a ?t = []" using dummy True that by blast
    note ts = schema_ok_table_pushed [OF a2(1,2) h2(1) q(1) aT(2) e q(2) sv3(2) rl pl c3(1) h4 q(3)]
    have r3: "relinked (insert ?e (set (T a ?t))) h h3"
      by (rule relinked_trans [OF relinked_mono [OF h2(4)] rl]) simp
    have A: "insert ?e (set (T a ?t)) \<subseteq> versions (T a) \<union> {?e..}" by (auto simp: versions_def)
    have "x \<in> versions (T a) \<or> ?e \<le> x" if "x \<in> versions ?ts" for x
      using that h2(3) by (auto simp: versions_def created_history_def split: if_splits)
    from catalog_table_pushed [OF rep Some r3 A c3(1) h4 ts [THEN conjunct1] this]
    show ?thesis
      using True step spec ts [THEN conjunct2] a2(3) h2(6) relinked_memory [OF r3] mem by (auto simp: memory_left_def h4)
  qed
qed

text \<open>The entries of a name have the type that the casts of the code take for granted.\<close>

definition well_typed_entry :: "heap \<Rightarrow> CatalogType \<Rightarrow> addr \<Rightarrow> bool" where
  "well_typed_entry h ty a \<longleftrightarrow>
     (case h_cells h a of
        None \<Rightarrow> False
      | Some c \<Rightarrow> ce_type (base c) = ty \<and> \<not> ce_deleted (base c) \<and>
          (case body c of SchemaCatalogEntry s \<Rightarrow> ty = SCHEMA | TableCatalogEntry t \<Rightarrow> ty = TABLE | PlainEntry \<Rightarrow> False))"

lemma live_not_deleted: "live_entry h H k = Some a \<Longrightarrow> \<not> entry_deleted h a"
  by (auto simp: live_entry_def split: list.splits if_splits)

lemma payload_type: "payload h a = Some c \<Longrightarrow> \<exists>d. h_cells h a = Some d \<and> body d = body c \<and> ce_type (base d) = ce_type (base c)"
  by (auto simp: payload_def)

lemma schema_entry_typed:
  assumes "catalog_rep n cat h H T" "live_entry h H s = Some a"
  shows "well_typed_entry h SCHEMA a \<and> (\<exists>p. schema_part h a = Some p \<and> set_versions (sc_tables p) h (T a))"
proof -
  obtain p where p: "schema_part h a = Some p" using assms unfolding catalog_rep_def by blast
  have "schema_ok n h a (T a)" using assms live_entry_in [OF assms(2)] unfolding catalog_rep_def by blast
  then obtain c where c: "payload h a = Some c" "body c = SchemaCatalogEntry p" "ce_type (base c) = SCHEMA"
      "set_versions (sc_tables p) h (T a)"
    using p by (auto simp: schema_ok_def schema_part_payload split: option.splits entry_body.splits)
  then show ?thesis
    using p payload_type [OF c(1)] live_not_deleted [OF assms(2)] by (auto simp: well_typed_entry_def entry_deleted_def)
qed

lemma table_entry_typed:
  assumes "catalog_rep n cat h H T" "live_entry h H s = Some a" "live_entry h (T a) t = Some b"
  shows "well_typed_entry h TABLE b"
proof -
  have "schema_ok n h a (T a)" using assms(1) live_entry_in [OF assms(2)] unfolding catalog_rep_def by blast
  then have "table_part h b \<noteq> None" "table_ok h b"
    using assms(3) live_entry_in [OF assms(3)] unfolding schema_ok_def by blast+
  then obtain p where "table_part h b = Some p" "table_ok h b" by blast
  then obtain c where c: "payload h b = Some c" "body c = TableCatalogEntry p" "ce_type (base c) = TABLE"
    by (auto simp: table_ok_def table_part_payload split: option.splits entry_body.splits)
  then show ?thesis
    using payload_type [OF c(1)] live_not_deleted [OF assms(3)] by (auto simp: well_typed_entry_def entry_deleted_def)
qed

section \<open>Properties\<close>

fun catalog_run ::
  "(nat \<Rightarrow> addr \<Rightarrow> heap \<Rightarrow> heap option) \<Rightarrow> (u64 option \<Rightarrow> bytes \<Rightarrow> bytes \<Rightarrow> usize \<Rightarrow> bytes option \<Rightarrow> u64) \<Rightarrow>
     catalog_op list \<Rightarrow> Catalog \<times> heap \<Rightarrow> (int list \<times> Catalog \<times> heap) option" where
  "catalog_run cb dt [] ch = Some ([], ch)"
| "catalog_run cb dt (op # ops) ch =
     do {
       (rc, ch1) \<leftarrow> catalog_step cb dt op ch;
       (rcs, ch2) \<leftarrow> catalog_run cb dt ops ch1;
       Some (rc # rcs, ch2)
     }"

fun catalog_spec_run :: "catalog_op list \<Rightarrow> catalog_spec \<Rightarrow> int list \<times> catalog_spec" where
  "catalog_spec_run [] m = ([], m)"
| "catalog_spec_run (op # ops) m =
     (case catalog_spec_step op m of (rc, m1) \<Rightarrow> case catalog_spec_run ops m1 of (rcs, m2) \<Rightarrow> (rc # rcs, m2))"

fun catalog_op_ok :: "catalog_op \<Rightarrow> bool" where
  "catalog_op_ok (CreateTable info) = table_info_ok info"
| "catalog_op_ok _ = True"

lemma catalog_step_ok:
  assumes "catalog_rep n cat h H T" "memory_left h" "n < 2 ^ 64 - 1" "catalog_op_ok op"
  shows "\<exists>rc cat' h' H' T'. catalog_step cb dt op (cat, h) = Some (rc, cat', h') \<and> catalog_rep (Suc n) cat' h' H' T' \<and>
     memory_left h' \<and> (rc, catalog_abs h' H' T') = catalog_spec_step op (catalog_abs h H T)"
proof (cases op)
  case (CreateSchema info)
  then show ?thesis using create_schema_step [OF assms(1-3), of 2 cb info] by (simp add: catalog_step_def)
next
  case (DropSchema s)
  then show ?thesis using drop_schema_step [OF assms(1,2), of s] by (simp add: catalog_step_def)
next
  case (CreateTable info)
  then have "table_info_ok info" using assms(4) by simp
  from create_table_step [OF assms(1-3) this, of dt] CreateTable show ?thesis
    by (fastforce simp: catalog_step_def)
qed

lemma catalog_run_ok:
  assumes "catalog_rep n cat h H T" "memory_left h" "n + length ops < 2 ^ 64" "\<forall>op \<in> set ops. catalog_op_ok op"
  shows "\<exists>rcs cat' h' H' T'. catalog_run cb dt ops (cat, h) = Some (rcs, cat', h') \<and>
     catalog_rep (n + length ops) cat' h' H' T' \<and> memory_left h' \<and>
     (rcs, catalog_abs h' H' T') = catalog_spec_run ops (catalog_abs h H T)"
  using assms
proof (induction ops arbitrary: n cat h H T)
  case Nil
  then show ?case by auto
next
  case (Cons op ops)
  have "n < 2 ^ 64 - 1" "catalog_op_ok op" using Cons.prems(3,4) by simp_all
  from catalog_step_ok [OF Cons.prems(1,2) this, of cb dt] obtain rc cat1 h1 H1 T1 where
    st: "catalog_step cb dt op (cat, h) = Some (rc, cat1, h1)" "catalog_rep (Suc n) cat1 h1 H1 T1" "memory_left h1"
        "(rc, catalog_abs h1 H1 T1) = catalog_spec_step op (catalog_abs h H T)"
    by blast
  have "Suc n + length ops < 2 ^ 64" "\<forall>op \<in> set ops. catalog_op_ok op" using Cons.prems(3,4) by simp_all
  from Cons.IH [OF st(2,3) this] obtain rcs cat2 h2 H2 T2 where
    "catalog_run cb dt ops (cat1, h1) = Some (rcs, cat2, h2)" "catalog_rep (Suc n + length ops) cat2 h2 H2 T2"
    "memory_left h2" "(rcs, catalog_abs h2 H2 T2) = catalog_spec_run ops (catalog_abs h1 H1 T1)"
    by blast
  then show ?case
    using st(1) st(4) [symmetric] by (intro exI [of _ "rc # rcs"] exI [of _ cat2] exI [of _ h2] exI [of _ H2] exI [of _ T2])
      (auto split: prod.splits)
qed

lemma get_table_ok:
  assumes "catalog_rep n cat h H T"
  shows "\<exists>r. catalog_get_table cat s t h = Some r \<and>
     map_option (\<lambda>b. tb_columns (the (table_part h b))) r = Option.bind (catalog_abs h H T s) (\<lambda>ts. ts t)"
proof -
  have sv: "set_versions (cat_schemas cat) h H" using assms by (simp add: catalog_rep_def)
  show ?thesis
  proof (cases "live_entry h H s")
    case None
    then show ?thesis
      using get_entry_ok [OF sv] by (simp add: catalog_get_table_def catalog_get_schema_def catalog_abs_def)
  next
    case (Some a)
    obtain p where p: "schema_part h a = Some p" using assms Some unfolding catalog_rep_def by blast
    have "schema_ok n h a (T a)" using assms live_entry_in [OF Some] unfolding catalog_rep_def by blast
    then have "set_versions (sc_tables p) h (T a)"
      using p by (auto simp: schema_ok_def schema_part_payload split: option.splits entry_body.splits)
    then show ?thesis
      using get_entry_ok [OF sv] get_entry_ok Some p
      by (simp add: catalog_get_table_def catalog_get_schema_def catalog_abs_def tables_spec_def)
  qed
qed

definition empty_heap :: "(nat \<Rightarrow> allocator) \<Rightarrow> heap" where
  "empty_heap mem = \<lparr>h_cells = Map.empty, h_next = 0, h_mem = mem, h_calls = 0\<rparr>"

lemma catalog_create_ok:
  assumes "heap_ok h" "memory_left h"
  shows "\<exists>cat h'. catalog_create h = (Some cat, h') \<and> catalog_rep 0 cat h' (\<lambda>_. []) (\<lambda>_ _. []) \<and> memory_left h' \<and>
     catalog_abs h' (\<lambda>_. []) (\<lambda>_ _. []) = Map.empty"
  using assms
  by (auto simp: catalog_create_def next_mem_def catalogSet_init_def memory_left_def heap_ok_def catalog_rep_def
      empty_set_ok live_entry_def catalog_abs_def)

text \<open>
  C10. The catalog implements a two-level map of names. After \<^verbatim>\<open>catalog_create\<close>, every sequence of schema
  creations, schema drops and table creations runs without touching a null or dangling pointer;
  the return codes are those of the specification (0, -1 for a missing schema or the default one
  on drop, -2 for a name that exists without \<^verbatim>\<open>if_not_exists\<close>); and a table lookup afterwards finds
  exactly the tables of the current schemas, with the columns they were created with, so dropping
  and recreating a schema hides its old tables. Memory is not exhausted.
\<close>

theorem catalog_refines_names:
  assumes "heap_ok h0" "memory_left h0" "length ops < 2 ^ 64" "\<forall>op \<in> set ops. catalog_op_ok op"
  shows "\<exists>cat0 h1 rcs cat h. catalog_create h0 = (Some cat0, h1) \<and>
     catalog_run cb dt ops (cat0, h1) = Some (rcs, cat, h) \<and> rcs = fst (catalog_spec_run ops Map.empty) \<and>
     (\<forall>s t. \<exists>r. catalog_get_table cat s t h = Some r \<and>
        map_option (\<lambda>b. tb_columns (the (table_part h b))) r =
          Option.bind (snd (catalog_spec_run ops Map.empty) s) (\<lambda>ts. ts t))"
proof -
  from catalog_create_ok [OF assms(1,2)] obtain cat0 h1 where
    c: "catalog_create h0 = (Some cat0, h1)" "catalog_rep 0 cat0 h1 (\<lambda>_. []) (\<lambda>_ _. [])" "memory_left h1"
       "catalog_abs h1 (\<lambda>_. []) (\<lambda>_ _. []) = Map.empty" by blast
  from catalog_run_ok [OF c(2,3) _ assms(4), of cb dt] assms(3) obtain rcs cat h H T where
    r: "catalog_run cb dt ops (cat0, h1) = Some (rcs, cat, h)" "catalog_rep (length ops) cat h H T"
       "(rcs, catalog_abs h H T) = catalog_spec_run ops Map.empty"
    unfolding c(4) by auto
  have s: "fst (catalog_spec_run ops Map.empty) = rcs" "snd (catalog_spec_run ops Map.empty) = catalog_abs h H T"
    using r(3) [symmetric] by simp_all
  show ?thesis
    using c(1) r(1) s(1) get_table_ok [OF r(2)] unfolding s by blast
qed

definition sample_table :: CreateTableInfo where
  "sample_table = \<lparr>cti_schema_name = [115], cti_table_name = [116], cti_if_not_exists = False,
     cti_columns = [\<lparr>col_name = [99], col_oid = 0, col_type = SQLT_INTEGER, col_dim = None\<rparr>], cti_col_count = 1\<rparr>"

definition sample_schema :: CreateSchemaInfo where
  "sample_schema = \<lparr>csi_schema_name = [115], csi_if_not_exists = False\<rparr>"

lemma sample_ops_ok:
  "heap_ok (empty_heap (\<lambda>_. ample_memory))" "memory_left (empty_heap (\<lambda>_. ample_memory))"
  "length [CreateSchema sample_schema, CreateTable sample_table] < 2 ^ 64"
  "\<forall>op \<in> set [CreateSchema sample_schema, CreateTable sample_table]. catalog_op_ok op"
  by (simp_all add: empty_heap_def heap_ok_def memory_left_def ample_memory_def sample_table_def table_info_ok_def)

lemma sample_two_names:
  "\<exists>cat0 h1 cat h H T. catalog_create (empty_heap (\<lambda>_. ample_memory)) = (Some cat0, h1) \<and>
     catalog_run (\<lambda>_ _ _. None) (\<lambda>_ _ _ _ _. 0) [CreateSchema sample_schema, CreateTable sample_table] (cat0, h1) = Some ([0, 0], cat, h) \<and>
     catalog_rep 2 cat h H T \<and> catalog_abs h H T = [[115] \<mapsto> [[116] \<mapsto> cti_columns sample_table]]"
proof -
  let ?ops = "[CreateSchema sample_schema, CreateTable sample_table]"
  note w = sample_ops_ok
  from catalog_create_ok [OF w(1,2)] obtain cat0 h1 where
    c: "catalog_create (empty_heap (\<lambda>_. ample_memory)) = (Some cat0, h1)" "catalog_rep 0 cat0 h1 (\<lambda>_. []) (\<lambda>_ _. [])"
       "memory_left h1" "catalog_abs h1 (\<lambda>_. []) (\<lambda>_ _. []) = Map.empty" by blast
  from catalog_run_ok [OF c(2,3) _ w(4), of "\<lambda>_ _ _. None" "\<lambda>_ _ _ _ _. 0"] w(3) obtain rcs cat h H T where
    r: "catalog_run (\<lambda>_ _ _. None) (\<lambda>_ _ _ _ _. 0) ?ops (cat0, h1) = Some (rcs, cat, h)" "catalog_rep (length ?ops) cat h H T"
       "(rcs, catalog_abs h H T) = catalog_spec_run ?ops Map.empty"
    unfolding c(4) by auto
  then have "rcs = [0, 0]" "catalog_abs h H T = [[115] \<mapsto> [[116] \<mapsto> cti_columns sample_table]]"
    by (simp_all add: sample_schema_def sample_table_def)
  with c(1) r(1,2) show ?thesis by (simp add: numeral_2_eq_2) blast
qed

theorem catalog_refines_names_witness:
  "\<exists>cat0 h1 rcs cat h. catalog_create (empty_heap (\<lambda>_. ample_memory)) = (Some cat0, h1) \<and>
     catalog_run (\<lambda>_ _ _. None) (\<lambda>_ _ _ _ _. 0)
       [CreateSchema sample_schema, CreateTable sample_table, CreateTable sample_table, DropSchema [115], CreateTable sample_table]
       (cat0, h1) = Some (rcs, cat, h) \<and> rcs = [0, 0, -2, 0, -1]"
  using catalog_refines_names [of "empty_heap (\<lambda>_. ample_memory)"
      "[CreateSchema sample_schema, CreateTable sample_table, CreateTable sample_table, DropSchema [115], CreateTable sample_table]"
      "\<lambda>_ _ _. None" "\<lambda>_ _ _ _ _. 0"]
  by (force simp: empty_heap_def heap_ok_def memory_left_def ample_memory_def sample_table_def sample_schema_def table_info_ok_def
      DEFAULT_SCHEMA_def)

text \<open>
  C16. The casts of the catalog are type-correct. After \<^verbatim>\<open>catalog_create\<close> and any sequence of schema creations, schema drops and
  table creations, as long as memory lasts, a lookup of a schema gives nothing or a live entry tagged \<^verbatim>\<open>SCHEMA\<close> that is a \<^verbatim>\<open>SchemaCatalogEntry\<close>, and a
  lookup of a table gives nothing or a live entry tagged \<^verbatim>\<open>TABLE\<close> that is a \<^verbatim>\<open>TableCatalogEntry\<close>: never a dummy of the
  version chains, a dropped entry, or an entry of the other kind.
\<close>

theorem catalog_lookups_well_typed:
  assumes "heap_ok h0" "memory_left h0" "length ops < 2 ^ 64" "\<forall>op \<in> set ops. catalog_op_ok op"
  shows "\<exists>cat0 h1 rcs cat h. catalog_create h0 = (Some cat0, h1) \<and> catalog_run cb dt ops (cat0, h1) = Some (rcs, cat, h) \<and>
     (\<forall>s. \<exists>r. catalog_get_schema cat s h = Some r \<and> (\<forall>a. r = Some a \<longrightarrow> well_typed_entry h SCHEMA a)) \<and>
     (\<forall>s t. \<exists>r. catalog_get_table cat s t h = Some r \<and> (\<forall>b. r = Some b \<longrightarrow> well_typed_entry h TABLE b))"
proof -
  from catalog_create_ok [OF assms(1,2)] obtain cat0 h1 where
    c: "catalog_create h0 = (Some cat0, h1)" "catalog_rep 0 cat0 h1 (\<lambda>_. []) (\<lambda>_ _. [])" "memory_left h1" by blast
  from catalog_run_ok [OF c(2,3) _ assms(4), of cb dt] assms(3) obtain rcs cat h H T where
    r: "catalog_run cb dt ops (cat0, h1) = Some (rcs, cat, h)" "catalog_rep (length ops) cat h H T" by auto
  have sv: "set_versions (cat_schemas cat) h H" using r(2) by (simp add: catalog_rep_def)
  have "catalog_get_schema cat s h = Some (live_entry h H s)" for s
    by (simp add: catalog_get_schema_def get_entry_ok [OF sv])
  moreover from this have "\<exists>r. catalog_get_table cat s t h = Some r \<and> (\<forall>b. r = Some b \<longrightarrow> well_typed_entry h TABLE b)" for s t
  proof (cases "live_entry h H s")
    case (Some a)
    obtain p where p: "schema_part h a = Some p" "set_versions (sc_tables p) h (T a)"
      using schema_entry_typed [OF r(2) Some] by blast
    then show ?thesis
      using calculation [of s] Some get_entry_ok [OF p(2)] table_entry_typed [OF r(2) Some] by (simp add: catalog_get_table_def)
  qed (simp add: catalog_get_table_def)
  ultimately show ?thesis using c(1) r(1) schema_entry_typed [OF r(2)] by auto
qed

theorem catalog_lookups_well_typed_witness:
  "\<exists>cat0 h1 cat h b. catalog_create (empty_heap (\<lambda>_. ample_memory)) = (Some cat0, h1) \<and>
     catalog_run (\<lambda>_ _ _. None) (\<lambda>_ _ _ _ _. 0) [CreateSchema sample_schema, CreateTable sample_table] (cat0, h1) = Some ([0, 0], cat, h) \<and>
     catalog_get_table cat [115] [116] h = Some (Some b) \<and> well_typed_entry h TABLE b"
proof -
  let ?ops = "[CreateSchema sample_schema, CreateTable sample_table]"
  note w = sample_ops_ok
  obtain cat0 h1 cat h H T where c: "catalog_create (empty_heap (\<lambda>_. ample_memory)) = (Some cat0, h1)"
      "catalog_run (\<lambda>_ _ _. None) (\<lambda>_ _ _ _ _. 0) ?ops (cat0, h1) = Some ([0, 0], cat, h)" "catalog_rep 2 cat h H T"
      "catalog_abs h H T = [[115] \<mapsto> [[116] \<mapsto> cti_columns sample_table]]"
    using sample_two_names by blast
  obtain r where r: "catalog_get_table cat [115] [116] h = Some r" "\<forall>b. r = Some b \<longrightarrow> well_typed_entry h TABLE b"
    using catalog_lookups_well_typed [OF w, of "\<lambda>_ _ _. None" "\<lambda>_ _ _ _ _. 0"] c(1,2) by fastforce
  moreover have "r \<noteq> None" using get_table_ok [OF c(3), of "[115]" "[116]"] r(1) c(4) by auto
  ultimately show ?thesis using c(1,2) by blast
qed

end
