(* ===== verification/CatalogRelease.thy ===== *)
theory CatalogRelease
  imports CatalogRefine
begin

text \<open>
  Counting the entries of a catalog set, running out of memory, and releasing a catalog: \<^verbatim>\<open>catalog_destroy\<close> frees every entry
  of every version chain, the tables of old schema versions included, exactly once.
\<close>

section \<open>Counting\<close>

lemma scan_count:
  assumes "\<forall>a \<in> set as. h_cells h a \<noteq> None"
  shows "scan_values count_entry_callback (map Some as) n h = Some (n + of_nat (length (filter (\<lambda>a. \<not> entry_deleted h a) as)), h)"
  using assms
proof (induction as arbitrary: n)
  case (Cons a as)
  then obtain c where "h_cells h a = Some c" by auto
  then show ?case using Cons by (simp add: count_entry_callback_def entry_deleted_def)
qed simp

lemma get_entry_count_ok:
  assumes sv: "set_versions cs h H"
  shows "catalogSet_get_entry_count cs h = Some (of_nat (card {k. live_entry h H k \<noteq> None}))"
proof -
  have inv: "hmap_inv cs" using sv by (simp add: set_versions_def)
  let ?ns = "hmap_nodes cs" and ?live = "\<lambda>n. \<not> entry_deleted h (node_value n)"
  have dist: "distinct (map node_key ?ns)" using inv by (simp add: hmap_inv_def)
  have head: "\<exists>as. H (node_key n) = node_value n # as" if "n \<in> set ?ns" for n
  proof -
    have "hmap_abs cs (node_key n) = Some (node_value n)"
      using that dist map_of_nodes_iff [of ?ns "node_key n" "node_value n"] by (auto simp: hmap_abs_def)
    then show ?thesis using set_versions_head [OF sv, of "node_key n"] by (auto split: list.splits)
  qed
  have cells: "\<forall>a \<in> set (map node_value ?ns). h_cells h a \<noteq> None"
  proof
    fix a assume "a \<in> set (map node_value ?ns)"
    then obtain n as where "n \<in> set ?ns" "H (node_key n) = a # as" using head by fastforce
    then have "a \<in> versions H" by (intro in_versionsI [of _ _ "node_key n"]) simp
    then show "h_cells h a \<noteq> None" by (rule set_versions_cells [OF sv])
  qed
  have "{k. live_entry h H k \<noteq> None} = node_key ` set (filter ?live ?ns)"
  proof (intro equalityI subsetI)
    fix k assume "k \<in> {k. live_entry h H k \<noteq> None}"
    then obtain a where l: "live_entry h H k = Some a" by auto
    then have "hmap_abs cs k = Some a" "\<not> entry_deleted h a"
      using set_versions_head [OF sv, of k] by (auto simp: live_entry_def split: list.splits if_splits)
    then obtain n where "n \<in> set ?ns" "node_key n = k" "node_value n = a"
      using map_of_nodes_iff [OF dist, of k a] by (auto simp: hmap_abs_def)
    then show "k \<in> node_key ` set (filter ?live ?ns)" using \<open>\<not> entry_deleted h a\<close> by auto
  qed (use head in \<open>fastforce simp: live_entry_def\<close>)
  then have "card {k. live_entry h H k \<noteq> None} = length (filter ?live ?ns)"
    using distinct_card [OF distinct_map_filter [OF dist, of ?live]] by simp
  then show ?thesis
    using scan_count [OF cells, of 0] set_versions_usable [OF sv] hmap_foreach_nodes [OF inv]
    by (simp add: catalogSet_get_entry_count_def catalogSet_scan_def filter_map comp_def)
qed

text \<open>
  C31. \<^verbatim>\<open>catalogSet_get_entry_count\<close> is the number of names for which \<^verbatim>\<open>catalogSet_get_entry\<close> returns an
  entry (modulo the 32 bits of the counter): dropped names and dummies do not count, although their
  chains stay in the map.
\<close>

theorem catalogSet_count_is_number_of_names:
  assumes "set_versions cs h H"
  shows "catalogSet_get_entry_count cs h =
     Some (of_nat (card {k. \<exists>a. catalogSet_get_entry cs k h = Some (Some a)}))"
  using get_entry_count_ok [OF assms] get_entry_ok [OF assms] by (simp add: not_None_eq)

theorem catalogSet_count_is_number_of_names_witness:
  "\<exists>cat0 h1 cat h. catalog_create (empty_heap (\<lambda>_. ample_memory)) = (Some cat0, h1) \<and>
     catalog_run (\<lambda>_ _ _. None) (\<lambda>_ _ _ _ _. 0) [CreateSchema sample_schema, CreateTable sample_table] (cat0, h1) = Some ([0, 0], cat, h) \<and>
     catalogSet_get_entry_count (cat_schemas cat) h = Some 1"
proof -
  obtain cat0 h1 cat h H T where c: "catalog_create (empty_heap (\<lambda>_. ample_memory)) = (Some cat0, h1)"
      "catalog_run (\<lambda>_ _ _. None) (\<lambda>_ _ _ _ _. 0) [CreateSchema sample_schema, CreateTable sample_table] (cat0, h1) = Some ([0, 0], cat, h)"
      "catalog_rep 2 cat h H T" "catalog_abs h H T = [[115] \<mapsto> [[116] \<mapsto> cti_columns sample_table]]"
    using sample_two_names by blast
  have sv: "set_versions (cat_schemas cat) h H" using c(3) by (simp add: catalog_rep_def)
  have "live_entry h H k \<noteq> None \<longleftrightarrow> k = [115]" for k
    using fun_cong [OF c(4), of k] by (cases "live_entry h H k") (auto simp: catalog_abs_def split: if_splits)
  then have "{k. \<exists>a. catalogSet_get_entry (cat_schemas cat) k h = Some (Some a)} = {[115]}"
    using get_entry_ok [OF sv] by (simp add: not_None_eq)
  then show ?thesis using catalogSet_count_is_number_of_names [OF sv] c(1,2) by simp
qed

section \<open>Release\<close>

text \<open>
  \<open>release\<close> is what the loop of \<^verbatim>\<open>catalogSet_deinit\<close> does with one entry. An entry is releasable with
  footprint \<open>A\<close> when, with enough fuel, this frees exactly \<open>A\<close>.
\<close>

abbreviation release ::
  "(nat \<Rightarrow> addr \<Rightarrow> heap \<Rightarrow> heap option) \<Rightarrow> nat \<Rightarrow> cell \<Rightarrow> addr \<Rightarrow> heap \<Rightarrow> heap option" where
  "release cb n c entry h1 \<equiv>
     (case ce_destroy (base c) of
        Some f \<Rightarrow> cb f entry h1
      | None \<Rightarrow>
          (case ce_type (base c) of
             SCHEMA \<Rightarrow> schemacatalogEntry_destroy cb n entry h1
           | TABLE \<Rightarrow> tablecatalogEntry_destroy entry h1
           | _ \<Rightarrow> free_cell entry h1))"

definition without :: "addr set \<Rightarrow> heap \<Rightarrow> heap" where
  "without A h = h\<lparr>h_cells := h_cells h |` (- A)\<rparr>"

definition releasable :: "(nat \<Rightarrow> addr \<Rightarrow> heap \<Rightarrow> heap option) \<Rightarrow> heap \<Rightarrow> addr \<Rightarrow> addr set \<Rightarrow> bool" where
  "releasable cb h x A \<longleftrightarrow> x \<in> A \<and>
     (\<forall>h' c. (\<forall>y \<in> A - {x}. h_cells h' y = h_cells h y) \<and> payload h' x = payload h x \<and> h_cells h x = Some c \<longrightarrow>
        (\<exists>n. \<forall>m \<ge> n. release cb m c x h' = Some (without A h')))"

lemma without_empty [simp]: "without {} h = h"
  by (simp add: without_def restrict_map_def)

lemma without_without: "without A (without B h) = without (B \<union> A) h"
  by (simp add: without_def)

lemma releasableD:
  "releasable cb h x A \<Longrightarrow> h_cells h x = Some c \<Longrightarrow> \<forall>y \<in> A - {x}. h_cells h' y = h_cells h y \<Longrightarrow> payload h' x = payload h x \<Longrightarrow>
     \<exists>n. \<forall>m \<ge> n. release cb m c x h' = Some (without A h')"
  unfolding releasable_def by blast

lemma payload_body:
  assumes "payload h' x = payload h x" "h_cells h x = Some c"
  obtains c' where "h_cells h' x = Some c'" "body c' = body c"
proof -
  have "map_option body (payload h' x) = map_option body (payload h x)" using assms(1) by simp
  then have "map_option body (h_cells h' x) = Some (body c)"
    using assms(2) by (simp add: payload_def option.map_comp comp_def)
  then show thesis using that by auto
qed

lemma releasable_frame:
  assumes "releasable cb h x A" "\<forall>y \<in> A. h_cells h' y = h_cells h y"
  shows "releasable cb h' x A"
  using assms unfolding releasable_def payload_def by simp

lemma free_cell_without: "h_cells h x \<noteq> None \<Longrightarrow> free_cell x h = Some (without {x} h)"
  by (auto simp: free_cell_def without_def restrict_map_def fun_eq_iff)

lemma chain_released:
  assumes "version_chain h p c xs" "distinct xs" "\<forall>x \<in> set xs. releasable cb h x (F x)"
    "\<forall>x \<in> set xs. \<forall>y \<in> set xs. x \<noteq> y \<longrightarrow> F x \<inter> F y = {}"
  shows "\<exists>n. \<forall>m \<ge> n. deinit_chain cb m c h = Some (without (\<Union>x \<in> set xs. F x) h)"
  using assms
proof (induction xs arbitrary: h p c)
  case Nil
  then show ?case by (intro exI [of _ 1]) (auto simp: Suc_le_eq gr0_conv_Suc)
next
  case (Cons x xs)
  obtain d where d: "c = Some x" "h_cells h x = Some d" "version_chain h (Some x) (ce_child (base d)) xs"
    using Cons.prems(1) by (auto split: option.splits)
  let ?h1 = "h\<lparr>h_cells := (h_cells h)(x \<mapsto> d\<lparr>base := (base d)\<lparr>ce_child := None, ce_parent := None\<rparr>\<rparr>)\<rparr>"
  let ?h2 = "without (F x) ?h1"
  have x: "x \<in> F x" "releasable cb h x (F x)" using Cons.prems(3) by (auto simp: releasable_def)
  have "payload ?h1 x = payload h x" using d(2) by (simp add: payload_def)
  then obtain n1 where n1: "\<forall>m \<ge> n1. release cb m d x ?h1 = Some ?h2"
    using releasableD [OF x(2) d(2), of ?h1] by auto
  have other: "h_cells ?h2 y = h_cells h y" if "y \<in> F z" "z \<in> set xs" for y z
  proof -
    have "F x \<inter> F z = {}" using Cons.prems(2,4) that(2) by auto
    then have "y \<notin> F x" using that(1) by blast
    moreover from this have "y \<noteq> x" using x(1) by blast
    ultimately show ?thesis by (simp add: without_def)
  qed
  have self: "z \<in> F z" if "z \<in> set xs" for z using Cons.prems(3) that by (simp add: releasable_def)
  have "version_chain ?h2 (Some x) (ce_child (base d)) xs"
    using d(3) by (rule version_chain_frame) (use other self in blast)
  moreover have "\<forall>z \<in> set xs. releasable cb ?h2 z (F z)"
    using Cons.prems(3) other releasable_frame [of cb h _ _ ?h2] by (metis list.set_intros(2))
  ultimately obtain n2 where
    n2: "\<forall>m \<ge> n2. deinit_chain cb m (ce_child (base d)) ?h2 = Some (without (\<Union>x \<in> set xs. F x) ?h2)"
    using Cons.IH [of ?h2 "Some x" "ce_child (base d)"] Cons.prems(2,4) by auto
  have "without (\<Union>x \<in> set xs. F x) ?h2 = without (\<Union>x \<in> set (x # xs). F x) h"
    using x(1) by (auto simp: without_def restrict_map_def fun_eq_iff)
  moreover have "deinit_chain cb m c h = Some (without (\<Union>x \<in> set xs. F x) ?h2)" if m: "Suc (max n1 n2) \<le> m" for m
  proof -
    obtain k where k: "m = Suc k" "n1 \<le> k" "n2 \<le> k" using m by (cases m) auto
    have "release cb k d x ?h1 = Some ?h2" using n1 k(2) by blast
    then show ?thesis using n2 k d(1,2) by (simp add: store_base_def)
  qed
  ultimately show ?case by (metis (no_types))
qed

text \<open>The heads of chains, released one after the other.\<close>

lemma values_released:
  assumes "\<forall>(v, xs) \<in> set L. version_chain h None (Some v) xs" "distinct (concat (map snd L))"
    "\<forall>x \<in> set (concat (map snd L)). releasable cb h x (F x)"
    "\<forall>x \<in> set (concat (map snd L)). \<forall>y \<in> set (concat (map snd L)). x \<noteq> y \<longrightarrow> F x \<inter> F y = {}"
  shows "\<exists>n. \<forall>m \<ge> n. deinit_values cb m (map (Some \<circ> fst) L) h =
     Some (without (\<Union>x \<in> set (concat (map snd L)). F x) h)"
  using assms
proof (induction L arbitrary: h)
  case Nil
  then show ?case by (intro exI [of _ 1]) (auto simp: Suc_le_eq gr0_conv_Suc)
next
  case (Cons p L)
  obtain v xs where p: "p = (v, xs)" by fastforce
  let ?rest = "set (concat (map snd L))" and ?h1 = "without (\<Union>x \<in> set xs. F x) h"
  have sub: "set xs \<subseteq> set (concat (map snd (p # L)))" "?rest \<subseteq> set (concat (map snd (p # L)))" by (auto simp: p)
  have "version_chain h None (Some v) xs" "distinct xs" using Cons.prems(1,2) by (auto simp: p)
  then obtain n1 where n1: "\<forall>m \<ge> n1. deinit_chain cb m (Some v) h = Some ?h1"
    using chain_released [of h None "Some v" xs cb F] Cons.prems(3,4) sub(1) by (meson subsetD)
  have self: "z \<in> F z" if "z \<in> ?rest" for z using Cons.prems(3) sub(2) that by (auto simp: releasable_def)
  have other: "h_cells ?h1 y = h_cells h y" if "y \<in> F z" "z \<in> ?rest" for y z
  proof -
    have z: "z \<notin> set xs" using Cons.prems(2) that(2) by (auto simp: p)
    have "F x \<inter> F z = {}" if "x \<in> set xs" for x
    proof -
      have "x \<noteq> z" using that z by blast
      then show ?thesis
        by (rule Cons.prems(4) [rule_format, OF subsetD [OF sub(1) that] subsetD [OF sub(2) \<open>z \<in> ?rest\<close>]])
    qed
    then have "y \<notin> (\<Union>x \<in> set xs. F x)" using that(1) by blast
    then show ?thesis by (simp add: without_def)
  qed
  have ch: "\<forall>(v, xs) \<in> set L. version_chain ?h1 None (Some v) xs"
  proof clarify
    fix w ys assume w: "(w, ys) \<in> set L"
    then have "version_chain h None (Some w) ys" using Cons.prems(1) by auto
    then show "version_chain ?h1 None (Some w) ys"
      by (rule version_chain_frame) (use other self w in \<open>force\<close>)
  qed
  have rl: "\<forall>x \<in> ?rest. releasable cb ?h1 x (F x)"
    using Cons.prems(3) sub(2) other releasable_frame [of cb h _ _ ?h1] by (metis subsetD)
  have dl: "distinct (concat (map snd L))" using Cons.prems(2) by (simp add: p)
  have dj: "\<forall>x \<in> ?rest. \<forall>y \<in> ?rest. x \<noteq> y \<longrightarrow> F x \<inter> F y = {}" using Cons.prems(4) sub(2) by blast
  obtain n2 where n2: "\<forall>m \<ge> n2. deinit_values cb m (map (Some \<circ> fst) L) ?h1 = Some (without (\<Union>x \<in> ?rest. F x) ?h1)"
    using Cons.IH [OF ch dl rl dj] by blast
  have "without (\<Union>x \<in> ?rest. F x) ?h1 = without (\<Union>x \<in> set (concat (map snd (p # L))). F x) h"
    by (simp add: without_without p Un_commute)
  moreover have "deinit_values cb m (map (Some \<circ> fst) (p # L)) h = Some (without (\<Union>x \<in> ?rest. F x) ?h1)"
    if m: "Suc (max n1 n2) \<le> m" for m
  proof -
    obtain k where "m = Suc k" "n1 \<le> k" "n2 \<le> k" using m by (cases m) auto
    then show ?thesis using n1 n2 by (simp add: p)
  qed
  ultimately show ?case by (metis (no_types))
qed

text \<open>The chains of a catalog set, in the order of its buckets.\<close>

lemma set_released:
  assumes sv: "set_versions cs h H" and rl: "\<forall>x \<in> versions H. releasable cb h x (F x)"
    and disj: "\<forall>x \<in> versions H. \<forall>y \<in> versions H. x \<noteq> y \<longrightarrow> F x \<inter> F y = {}"
  shows "\<exists>n. \<forall>m \<ge> n. deinit_values cb m (hmap_foreach (hmap_iter_init cs)) h =
     Some (without (\<Union>x \<in> versions H. F x) h)"
proof -
  have inv: "hmap_inv cs" using sv by (simp add: set_versions_def)
  let ?L = "map (\<lambda>n. (node_value n, H (node_key n))) (hmap_nodes cs)"
  have dist: "distinct (map node_key (hmap_nodes cs))" using inv by (simp add: hmap_inv_def)
  have abs: "hmap_abs cs (node_key n) = Some (node_value n)" if "n \<in> set (hmap_nodes cs)" for n
    using that map_of_nodes_iff [OF dist, of "node_key n" "node_value n"] by (auto simp: hmap_abs_def)
  have keys: "k \<in> node_key ` set (hmap_nodes cs)" if "x \<in> set (H k)" for x k
  proof -
    have "hmap_abs cs k \<noteq> None" using that set_versions_head [OF sv, of k] by (auto split: list.splits)
    then show ?thesis using map_of_nodes_None_iff [of "hmap_nodes cs" k] by (auto simp: hmap_abs_def)
  qed
  have all: "set (concat (map snd ?L)) = versions H"
    using keys by (fastforce simp: versions_def)
  have 1: "\<forall>(v, xs) \<in> set ?L. version_chain h None (Some v) xs"
    using sv abs by (auto simp: set_versions_def) metis
  have 2: "distinct (concat (map snd ?L))"
  proof -
    have "distinct (concat (map H ks))" if "distinct ks" for ks
      using that
    proof (induction ks)
      case (Cons k ks)
      have "distinct (H k)" "\<And>l. k \<noteq> l \<Longrightarrow> set (H k) \<inter> set (H l) = {}" using sv unfolding set_versions_def by blast+
      then show ?case using Cons by fastforce
    qed simp
    from this [OF dist] show ?thesis by (simp add: comp_def)
  qed
  have "map (Some \<circ> fst) ?L = hmap_foreach (hmap_iter_init cs)" using hmap_foreach_nodes [OF inv] by simp
  then show ?thesis using values_released [OF 1 2, of cb F] rl disj unfolding all by simp
qed

lemma table_releasable:
  assumes "table_ok h x"
  shows "releasable cb h x {x}"
  unfolding releasable_def
proof (intro conjI allI impI, goal_cases)
  case (2 h' c)
  then have p: "payload h' x = payload h x" "h_cells h x = Some c" by simp_all
  then obtain c' where c': "h_cells h' x = Some c'" "body c' = body c" by (rule payload_body)
  have "ce_destroy (base c) = None" "(ce_type (base c) = TABLE \<and> (\<exists>t. body c = TableCatalogEntry t)) \<or> ce_type (base c) = INVALID"
    using assms p(2) by (auto simp: table_ok_def payload_def split: entry_body.splits)
  then show ?case
    using c' free_cell_without [of h' x] by (auto simp: tablecatalogEntry_destroy_def)
qed simp

lemma schema_releasable:
  assumes "schema_ok n h x ts" "x \<notin> versions ts"
  shows "releasable cb h x (insert x (versions ts))"
  unfolding releasable_def
proof (intro conjI allI impI, goal_cases)
  case (2 h' c)
  then have p: "payload h' x = payload h x" "h_cells h x = Some c" and ts: "\<forall>y \<in> versions ts. h_cells h' y = h_cells h y"
    using assms(2) by auto
  from p obtain c' where c': "h_cells h' x = Some c'" "body c' = body c" by (rule payload_body)
  have d: "ce_destroy (base c) = None" using assms(1) p(2) by (simp add: schema_ok_def payload_def)
  show ?case
  proof (cases "body c")
    case PlainEntry
    then have "ce_type (base c) = INVALID" "ts = (\<lambda>_. [])" using assms(1) p(2) by (simp_all add: schema_ok_def payload_def)
    then show ?thesis using d c' free_cell_without [of h' x] by simp
  next
    case (TableCatalogEntry t)
    then show ?thesis using assms(1) p(2) by (simp add: schema_ok_def payload_def)
  next
    case (SchemaCatalogEntry s)
    then have s: "ce_type (base c) = SCHEMA" "set_versions (sc_tables s) h ts" "set_versions (sc_indexes s) h (\<lambda>_. [])"
      using assms(1) p(2) by (simp_all add: schema_ok_def payload_def)
    have tok: "\<forall>y \<in> versions ts. table_ok h y" using assms(1) by (simp add: schema_ok_def)
    have "\<forall>y \<in> versions ts. releasable cb h' y {y}"
      using ts tok table_releasable [of h _ cb] releasable_frame [of cb h _ _ h'] by auto
    moreover have sv': "set_versions (sc_tables s) h' ts" using s(2) ts by (intro set_versions_frame [OF s(2)]) blast
    ultimately obtain n1 where
      n1: "\<forall>m \<ge> n1. deinit_values cb m (hmap_foreach (hmap_iter_init (sc_tables s))) h' = Some (without (versions ts) h')"
      using set_released [of "sc_tables s" h' ts cb "\<lambda>y. {y}"] by auto
    have "set_versions (sc_indexes s) (without (versions ts) h') (\<lambda>_. [])" using s(3) by (rule set_versions_frame) simp
    then obtain n2 where
      n2: "\<forall>m \<ge> n2. deinit_values cb m (hmap_foreach (hmap_iter_init (sc_indexes s))) (without (versions ts) h') =
         Some (without (versions ts) h')"
      using set_released [of "sc_indexes s" "without (versions ts) h'" "\<lambda>_. []" cb "\<lambda>y. {y}"] by auto
    have "h_cells (without (versions ts) h') x \<noteq> None" using c' assms(2) by (simp add: without_def)
    then have fc: "free_cell x (without (versions ts) h') = Some (without (insert x (versions ts)) h')"
      using free_cell_without [of "without (versions ts) h'" x] without_without [of "{x}" "versions ts" h'] by simp
    have "schemacatalogEntry_destroy cb m x h' = Some (without (insert x (versions ts)) h')" if m: "Suc (max n1 n2) \<le> m" for m
    proof -
      obtain k where "m = Suc k" "n1 \<le> k" "n2 \<le> k" using m by (cases m) auto
      then show ?thesis
        using n1 n2 c' SchemaCatalogEntry set_versions_usable [OF s(2)] set_versions_usable [OF s(3)] fc by simp
    qed
    then show ?thesis using d s(1) by auto
  qed
qed simp

definition catalog_footprint :: "history \<Rightarrow> (addr \<Rightarrow> history) \<Rightarrow> addr set" where
  "catalog_footprint H T = (\<Union>a \<in> versions H. insert a (versions (T a)))"

text \<open>
  C18. \<^verbatim>\<open>catalog_destroy\<close> releases a catalog completely: whatever schema and table versions it holds,
  with enough fuel the mutual recursion of \<^verbatim>\<open>catalogSet_deinit\<close> and \<^verbatim>\<open>schemacatalogEntry_destroy\<close>
  ends, follows no dangling pointer, frees every entry once, and leaves every other cell alone.
\<close>

theorem catalog_destroy_frees_all:
  assumes "catalog_rep n cat h H T"
  shows "\<exists>fuel0. \<forall>fuel \<ge> fuel0. catalog_destroy cb fuel (Some cat) h = Some (without (catalog_footprint H T) h)"
proof -
  let ?F = "\<lambda>a. insert a (versions (T a))"
  have sv: "set_versions (cat_schemas cat) h H" using assms by (simp add: catalog_rep_def)
  have sok: "schema_ok n h a (T a)" "versions (T a) \<inter> versions H = {}" if "a \<in> versions H" for a
    using assms that unfolding catalog_rep_def by blast+
  have "\<forall>a \<in> versions H. releasable cb h a (?F a)"
    using schema_releasable [OF sok(1)] sok(2) by blast
  moreover have "\<forall>a \<in> versions H. \<forall>b \<in> versions H. a \<noteq> b \<longrightarrow> ?F a \<inter> ?F b = {}"
    using assms sok(2) unfolding catalog_rep_def by blast
  ultimately obtain k where
    "\<forall>m \<ge> k. deinit_values cb m (hmap_foreach (hmap_iter_init (cat_schemas cat))) h = Some (without (\<Union>a \<in> versions H. ?F a) h)"
    using set_released [OF sv, of cb ?F] by blast
  then show ?thesis
    using set_versions_usable [OF sv] by (auto simp: catalog_destroy_def catalogSet_deinit_def catalog_footprint_def)
qed

lemma sample_catalog:
  "\<exists>n rcs cat h H T. catalog_run (\<lambda>_ _ _. None) (\<lambda>_ _ _ _ _. 0) [CreateSchema sample_schema, CreateTable sample_table, DropSchema [115]]
      (the (fst (catalog_create (empty_heap (\<lambda>_. ample_memory)))), snd (catalog_create (empty_heap (\<lambda>_. ample_memory)))) =
        Some (rcs, cat, h) \<and> catalog_rep n cat h H T"
proof -
  have e: "heap_ok (empty_heap (\<lambda>_. ample_memory))" "memory_left (empty_heap (\<lambda>_. ample_memory))"
    by (simp_all add: empty_heap_def heap_ok_def memory_left_def ample_memory_def)
  from catalog_create_ok [OF e] obtain cat0 h0 where
    c: "catalog_create (empty_heap (\<lambda>_. ample_memory)) = (Some cat0, h0)" "catalog_rep 0 cat0 h0 (\<lambda>_. []) (\<lambda>_ _. [])" "memory_left h0"
    by blast
  have "\<forall>op \<in> set [CreateSchema sample_schema, CreateTable sample_table, DropSchema [115]]. catalog_op_ok op"
    by (simp add: sample_table_def table_info_ok_def)
  from catalog_run_ok [OF c(2,3) _ this, of "\<lambda>_ _ _. None" "\<lambda>_ _ _ _ _. 0"] show ?thesis unfolding c(1) by force
qed

text \<open>The catalog of three operations, among them the drop of a schema that has a table.\<close>

theorem catalog_destroy_frees_all_witness:
  "\<exists>rcs cat h fuel h'. catalog_run (\<lambda>_ _ _. None) (\<lambda>_ _ _ _ _. 0) [CreateSchema sample_schema, CreateTable sample_table, DropSchema [115]]
      (the (fst (catalog_create (empty_heap (\<lambda>_. ample_memory)))), snd (catalog_create (empty_heap (\<lambda>_. ample_memory)))) =
        Some (rcs, cat, h) \<and> catalog_destroy (\<lambda>_ _ _. None) fuel (Some cat) h = Some h'"
  using sample_catalog catalog_destroy_frees_all by blast

section \<open>Running out of memory\<close>

definition no_memory :: allocator where
  "no_memory = \<lparr>alloc_ok = False, alloc_junk = (\<lambda>_. 0), alloc_addr = 0\<rparr>"

text \<open>
  C30. \<^verbatim>\<open>catalogSet_create_entry\<close> is atomic whatever allocations fail: the call always returns, either the
  history of every name is as before, or the new entry is the newest version of its name and
  nothing else has changed; a live name is never replaced; the payload of every entry is kept.
\<close>

theorem create_entry_atomic:
  assumes "set_versions cs h H" "heap_ok h" "hmap_room cs" "v \<notin> versions H" "h_cells h v = Some cv" "ce_parent (base cv) = None"
  shows "\<exists>r cs' h'. catalogSet_create_entry cs k v h = Some (r, cs', h') \<and>
     set_versions cs' h' (if r then created_history h H k v else H) \<and> (live_entry h H k \<noteq> None \<longrightarrow> \<not> r) \<and>
     (\<forall>a < h_next h. payload h' a = payload h a)"
proof -
  from create_entry_ok [OF assms, of k] obtain r cs' h' where
    "catalogSet_create_entry cs k v h = Some (r, cs', h')" "relinked (insert v (set (H k))) h h'"
    "set_versions cs' h' (if r then created_history h H k v else H)" "live_entry h H k \<noteq> None \<longrightarrow> \<not> r" by blast
  then show ?thesis by (intro exI [of _ r] exI [of _ cs'] exI [of _ h']) (simp add: relinked_def)
qed

definition lone_entry_heap :: heap where
  "lone_entry_heap = (empty_heap (\<lambda>n. if n = 2 then no_memory else ample_memory))
     \<lparr>h_cells := [0 \<mapsto> empty_schema_cell [115]], h_next := 1\<rparr>"

text \<open>Here the node of the hash map cannot be allocated, after the dummy entry was made.\<close>

theorem create_entry_atomic_witness:
  "\<exists>r cs' h'. catalogSet_create_entry (hmap_init_str True 8) [115] 0 lone_entry_heap = Some (r, cs', h') \<and>
     set_versions cs' h' (if r then created_history lone_entry_heap (\<lambda>_. []) [115] 0 else (\<lambda>_. [])) \<and>
     (live_entry lone_entry_heap (\<lambda>_. []) [115] \<noteq> None \<longrightarrow> \<not> r) \<and>
     (\<forall>a < h_next lone_entry_heap. payload h' a = payload lone_entry_heap a)"
  by (rule create_entry_atomic [where cv = "empty_schema_cell [115]", OF empty_set_ok(1)])
    (simp_all add: lone_entry_heap_def empty_heap_def heap_ok_def hmap_room_def empty_set_ok empty_schema_cell_def catalogEntry_init_def)

text \<open>
  C40. \<^verbatim>\<open>catalogSet_drop_entry\<close> reports success although nothing was dropped: if the memory for the
  mark of the deletion is not available, it returns true and the entry is still found.
\<close>

theorem drop_without_memory_reports_success:
  assumes "set_versions cs h H" "live_entry h H k = Some a" "\<forall>c. h_cells h a = Some c \<longrightarrow> ce_name (base c) \<noteq> None"
    "\<not> alloc_ok (h_mem h (Suc (h_calls h)))"
  shows "\<exists>h'. catalogSet_drop_entry cs k h = Some (True, cs, h') \<and> catalogSet_get_entry cs k h' = Some (Some a)"
proof -
  have inv: "hmap_inv cs" using assms(1) by (simp add: set_versions_def)
  obtain as where as: "H k = a # as" using assms(2) by (auto simp: live_entry_def split: list.splits if_splits)
  have abs: "hmap_abs cs k = Some a" using set_versions_head [OF assms(1), of k] as by simp
  then obtain node where node: "hmap_get cs k = Some node" using hmap_get_None_iff [OF inv, of k] by auto
  have val: "hmap_value cs node = a" using hmap_get_Some [OF inv node] abs by simp
  have "a \<in> versions H" using live_entry_in [OF assms(2)] .
  then obtain c where c: "h_cells h a = Some c" using set_versions_cells [OF assms(1)] by blast
  obtain name where name: "ce_name (base c) = Some name" using assms(3) c by blast
  let ?h' = "h\<lparr>h_calls := Suc (Suc (h_calls h))\<rparr>"
  have "catalogSet_drop_entry cs k h = Some (True, cs, ?h')" (is ?drop)
    using node val c name assms(4) set_versions_usable [OF assms(1)]
    by (simp add: catalogSet_drop_entry_def catalogSet_drop_entry_impl_def Let_def next_mem_def make_entry_def new_cell_def)
  have "set_versions cs ?h' H" using assms(1) by (rule set_versions_frame) simp
  moreover have "live_entry ?h' H k = live_entry h H k" by (rule live_entry_cong) (simp add: entry_deleted_def)
  ultimately have "catalogSet_get_entry cs k ?h' = Some (Some a)" using get_entry_ok [of cs ?h' H k] assms(2) by simp
  with \<open>?drop\<close> show ?thesis by blast
qed

lemma catalog_rep_exhausted:
  assumes "catalog_rep n cat h H T"
  shows "set_versions (cat_schemas cat) (h\<lparr>h_mem := mem\<rparr>) H \<and> live_entry (h\<lparr>h_mem := mem\<rparr>) H k = live_entry h H k"
  using assms by (auto simp: catalog_rep_def live_entry_def entry_deleted_def intro: set_versions_frame split: list.splits)

theorem drop_without_memory_reports_success_witness:
  "\<exists>rcs cat h a h'. catalog_run (\<lambda>_ _ _. None) (\<lambda>_ _ _ _ _. 0) [CreateSchema sample_schema]
      (the (fst (catalog_create (empty_heap (\<lambda>_. ample_memory)))), snd (catalog_create (empty_heap (\<lambda>_. ample_memory)))) =
        Some (rcs, cat, h) \<and>
     catalogSet_drop_entry (cat_schemas cat) [115] (h\<lparr>h_mem := \<lambda>_. no_memory\<rparr>) = Some (True, cat_schemas cat, h') \<and>
     catalogSet_get_entry (cat_schemas cat) [115] h' = Some (Some a)"
proof -
  have e: "heap_ok (empty_heap (\<lambda>_. ample_memory))" "memory_left (empty_heap (\<lambda>_. ample_memory))"
    by (simp_all add: empty_heap_def heap_ok_def memory_left_def ample_memory_def)
  from catalog_create_ok [OF e] obtain cat0 h0 where
    c: "catalog_create (empty_heap (\<lambda>_. ample_memory)) = (Some cat0, h0)" "catalog_rep 0 cat0 h0 (\<lambda>_. []) (\<lambda>_ _. [])" "memory_left h0"
       "catalog_abs h0 (\<lambda>_. []) (\<lambda>_ _. []) = Map.empty"
    by blast
  from catalog_run_ok [OF c(2,3), of "[CreateSchema sample_schema]" "\<lambda>_ _ _. None" "\<lambda>_ _ _ _ _. 0"] obtain rcs cat h H T where
    r: "catalog_run (\<lambda>_ _ _. None) (\<lambda>_ _ _ _ _. 0) [CreateSchema sample_schema] (cat0, h0) = Some (rcs, cat, h)"
       "catalog_rep 1 cat h H T" "(rcs, catalog_abs h H T) = catalog_spec_run [CreateSchema sample_schema] Map.empty"
    unfolding c(4) by auto
  then obtain a where a: "live_entry h H [115] = Some a"
    by (auto simp: sample_schema_def catalog_abs_def fun_eq_iff split: if_splits)
  have "\<forall>x. h_cells h a = Some x \<longrightarrow> ce_name (base x) \<noteq> None"
    using r(2) live_entry_in [OF a] by (auto simp: catalog_rep_def schema_ok_def payload_def)
  then have "\<exists>h'. catalogSet_drop_entry (cat_schemas cat) [115] (h\<lparr>h_mem := \<lambda>_. no_memory\<rparr>) = Some (True, cat_schemas cat, h') \<and>
      catalogSet_get_entry (cat_schemas cat) [115] h' = Some (Some a)"
    using catalog_rep_exhausted [OF r(2), of "\<lambda>_. no_memory"] a
    by (intro drop_without_memory_reports_success [where H = H]) (simp_all add: no_memory_def)
  then show ?thesis using r(1) c(1) by auto
qed

end
