(* ===== verification/SingleFile.thy ===== *)
theory SingleFile
  imports MetaBlock Slice
begin

text \<open>
  The single-file block manager of \<^verbatim>\<open>src/storage/table/storage.c\<close> (lines 363 to 435): blocks of
  8192 bytes after the three headers of a database file, the free list, and the list of blocks
  read since the last checkpoint. The two lists are slices, as in the source. The section on
  the contract interprets \<open>extent_store\<close> on these operations.
\<close>

section \<open>State and operations\<close>

record SingleFileExtentManager =
  active_header :: u8
  file_path :: bytes
  file_handle :: FILE
  header_buffer :: FileBuffer
  free_list :: Slice
  used_blocks :: Slice
  max_block :: block_id_t
  meta_block :: block_id_t
  iteration_count :: u64
  em_mem :: allocator

definition BLOCK_START :: usize where "BLOCK_START = HEADER_SIZE * 3"
definition INVALID_BLOCK :: block_id_t where "INVALID_BLOCK = -1"

lemma unat_INVALID_BLOCK: "unat INVALID_BLOCK = 18446744073709551615"
  by (simp add: INVALID_BLOCK_def unsigned_minus_1_eq_mask mask_eq_exp_minus_1)

text \<open>The assertion that the block id is not negative compares an unsigned number with 0 and never fails.\<close>

definition block_location :: "block_id_t \<Rightarrow> usize" where
  "block_location i = BLOCK_START + i * BLOCK_SIZE"

definition push_block_id :: "allocator \<Rightarrow> Slice \<Rightarrow> block_id_t \<Rightarrow> Slice" where
  "push_block_id M s i = (case slice_push_back M (Some s) (Some (word_bytes i)) of (rc, Some s') \<Rightarrow> s' | (rc, None) \<Rightarrow> s)"

definition single_file_block_manager_read ::
  "SingleFileExtentManager \<Rightarrow> Block \<Rightarrow> SingleFileExtentManager \<times> Block" where
  "single_file_block_manager_read m b =
     (let m1 = m\<lparr>used_blocks := push_block_id (em_mem m) (used_blocks m) (blk_id b)\<rparr>
      in case fileBuffer_read (blk_fb b) (file_handle m1) (block_location (blk_id b)) of
           (rc, fb, f) \<Rightarrow> (m1\<lparr>file_handle := f\<rparr>, b\<lparr>blk_fb := fb\<rparr>))"

definition single_file_block_manager_write ::
  "SingleFileExtentManager \<Rightarrow> Block \<Rightarrow> SingleFileExtentManager \<times> Block" where
  "single_file_block_manager_write m b =
     (case fileBuffer_write (blk_fb b) (file_handle m) (block_location (blk_id b)) of
        (rc, fb, f) \<Rightarrow> (m\<lparr>file_handle := f\<rparr>, b\<lparr>blk_fb := fb\<rparr>))"

definition single_file_block_manager_get_free_block_id ::
  "SingleFileExtentManager \<Rightarrow> block_id_t \<times> SingleFileExtentManager" where
  "single_file_block_manager_get_free_block_id m =
     (if sl_size (free_list m) > 0
      then (case slice_pop_back (Some (free_list m)) of
              (rc, e, Some s) \<Rightarrow> (bytes_word e, m\<lparr>free_list := s\<rparr>)
            | (rc, e, None) \<Rightarrow> (bytes_word e, m))
      else (max_block m, m\<lparr>max_block := max_block m + 1\<rparr>))"

definition single_file_block_manager_get_frist_meta_block :: "SingleFileExtentManager \<Rightarrow> block_id_t" where
  "single_file_block_manager_get_frist_meta_block m = meta_block m"

definition single_file_block_manager_create_block ::
  "SingleFileExtentManager \<Rightarrow> Block option \<times> SingleFileExtentManager" where
  "single_file_block_manager_create_block m =
     (case single_file_block_manager_get_free_block_id m of (i, m') \<Rightarrow> (Block_create (em_mem m') i, m'))"

definition single_file_block_manager_vtable :: "SingleFileExtentManager ExtentManagerVTable" where
  "single_file_block_manager_vtable =
     \<lparr>em_read = single_file_block_manager_read, em_write = single_file_block_manager_write,
      em_get_free_block_id = single_file_block_manager_get_free_block_id,
      em_create_block = single_file_block_manager_create_block,
      em_get_frist_meta_block = single_file_block_manager_get_frist_meta_block\<rparr>"

lemma vtable_simps [simp]:
  "em_read single_file_block_manager_vtable = single_file_block_manager_read"
  "em_write single_file_block_manager_vtable = single_file_block_manager_write"
  "em_get_free_block_id single_file_block_manager_vtable = single_file_block_manager_get_free_block_id"
  "em_create_block single_file_block_manager_vtable = single_file_block_manager_create_block"
  "em_get_frist_meta_block single_file_block_manager_vtable = single_file_block_manager_get_frist_meta_block"
  by (simp_all add: single_file_block_manager_vtable_def)

section \<open>Slices of block ids\<close>

definition block_ids :: "Slice \<Rightarrow> block_id_t list" where
  "block_ids s = map bytes_word (slice_elems s)"

definition id_slice :: "Slice \<Rightarrow> bool" where
  "id_slice s \<longleftrightarrow> slice_inv s \<and> sl_element_size s = 8"

lemma length_block_ids [simp]: "length (block_ids s) = unat (sl_size s)"
  by (simp add: block_ids_def)

lemma push_block_id_ok:
  assumes "id_slice s"
  shows "id_slice (push_block_id M s i) \<and> (block_ids (push_block_id M s i) = block_ids s @ [i] \<or> push_block_id M s i = s)"
proof -
  obtain rc so where p: "slice_push_back M (Some s) (Some (word_bytes i)) = (rc, so)" by fastforce
  have len: "length (word_bytes i) = unat (sl_element_size s)" using assms by (simp add: id_slice_def)
  show ?thesis
  proof (cases "rc = 0")
    case True
    from slice_push_back_ok [OF _ len p [unfolded True]] assms obtain s' where
      "so = Some s'" "slice_inv s'" "sl_element_size s' = sl_element_size s" "slice_elems s' = slice_elems s @ [word_bytes i]"
      by (auto simp: id_slice_def)
    then show ?thesis using assms p by (simp add: push_block_id_def id_slice_def block_ids_def)
  next
    case False
    then have "so = Some s" using slice_push_back_fail [OF p] by simp
    then show ?thesis using assms p by (simp add: push_block_id_def)
  qed
qed

text \<open>While there is room, every push succeeds.\<close>

lemma push_block_id_room:
  assumes "id_slice s" "slice_room M (Suc n) s"
  shows "id_slice (push_block_id M s i) \<and> block_ids (push_block_id M s i) = block_ids s @ [i] \<and>
         slice_room M n (push_block_id M s i)"
proof -
  have s: "slice_inv s" "slice_fits s (word_bytes i)" using assms(1) by (simp_all add: id_slice_def slice_fits_def)
  from slice_push_op_total [OF s assms(2)] obtain s' where
    s': "slice_push_op M s (word_bytes i) = Some s'" "slice_room M n s'" by blast
  then have "push_block_id M s i = s'"
    by (auto simp: slice_push_op_def push_block_id_def split: if_splits prod.splits option.splits)
  then show ?thesis
    using slice_push_op_ok [OF s s'(1)] s'(2) assms(1) by (simp add: id_slice_def block_ids_def)
qed

lemma pop_block_id_ok:
  assumes "id_slice s" "block_ids s \<noteq> []"
  shows "\<exists>e s'. slice_pop_back (Some s) = (0, e, Some s') \<and> bytes_word e = last (block_ids s) \<and>
     id_slice s' \<and> block_ids s' = butlast (block_ids s)"
proof -
  have "slice_elems s \<noteq> []" using assms(2) by (simp add: block_ids_def)
  with slice_pop_back_ok [of s] assms(1) show ?thesis
    by (fastforce simp: id_slice_def block_ids_def last_map map_butlast)
qed

section \<open>The contract\<close>

definition em_inv :: "SingleFileExtentManager \<Rightarrow> bool" where
  "em_inv m \<longleftrightarrow> file_inv (file_handle m) \<and> id_slice (free_list m) \<and> id_slice (used_blocks m) \<and>
     fb_inv (header_buffer m) \<and> fb_internal_size (header_buffer m) = HEADER_SIZE"

definition block_offset :: "block_id_t \<Rightarrow> nat" where
  "block_offset i = 12288 + 8192 * unat i"

definition em_addressable :: "SingleFileExtentManager \<Rightarrow> block_id_t \<Rightarrow> bool" where
  "em_addressable m i \<longleftrightarrow> block_offset i + 8192 \<le> fl_space (file_handle m)"

definition em_content :: "SingleFileExtentManager \<Rightarrow> block_id_t \<Rightarrow> bytes option" where
  "em_content m i =
     (if block_offset i + 8192 \<le> length (fl_data (file_handle m))
      then Some (mem_read (block_offset i + 8) 8184 (fl_data (file_handle m))) else None)"

text \<open>A block on the medium lies where the code's 64-bit arithmetic puts it.\<close>

lemma block_location_nat:
  assumes "em_inv m" "em_addressable m i"
  shows "unat (block_location i) = block_offset i"
proof -
  have b: "12288 + 8192 * unat i < 2 ^ 63"
    using assms by (simp add: em_inv_def em_addressable_def file_inv_def PTRDIFF_LIMIT_def block_offset_def)
  have "unat (i * BLOCK_SIZE) = unat i * 8192" using b by (subst unat_mult_u64) simp_all
  moreover have "unat BLOCK_START = 12288" by (simp add: BLOCK_START_def HEADER_SIZE_def)
  ultimately show ?thesis
    unfolding block_location_def block_offset_def using b by (subst unat_add_u64) simp_all
qed

lemma block_offsets_disjoint: "i \<noteq> j \<Longrightarrow> block_offset i + 8192 \<le> block_offset j \<or> block_offset j + 8192 \<le> block_offset i"
  by (simp add: block_offset_def word_unat_eq_iff) (metis Suc_leI add_mult_distrib2 mult_le_mono2 nat_neq_iff mult_Suc_right add.commute)

lemma em_write_ok:
  assumes m: "em_inv m" "em_addressable m (blk_id b)" and b: "block_ok b"
    and w: "single_file_block_manager_write m b = (m', b')"
  shows "em_inv m' \<and> fl_space (file_handle m') = fl_space (file_handle m) \<and> block_ok b' \<and> blk_id b' = blk_id b \<and>
     fb_payload (blk_fb b') = fb_payload (blk_fb b) \<and>
     fl_data (file_handle m') = file_put (block_offset (blk_id b)) (fb_mem (blk_fb b')) (fl_data (file_handle m)) \<and>
     length (fb_mem (blk_fb b')) = 8192 \<and> m' = m\<lparr>file_handle := file_handle m'\<rparr>"
proof -
  have fb: "fb_inv (blk_fb b)" "fb_internal_size (blk_fb b) = BLOCK_SIZE" using b by (simp_all add: block_ok_def)
  have f: "file_inv (file_handle m)" using m(1) by (simp add: em_inv_def)
  note loc = block_location_nat [OF m]
  have "file_fits (file_handle m) (block_location (blk_id b)) (fb_internal_size (blk_fb b))"
    using m(2) by (simp add: file_fits_def loc fb(2) em_addressable_def)
  from fileBuffer_write_ok [OF fb(1) f this] obtain fb' f' where
    r: "fileBuffer_write (blk_fb b) (file_handle m) (block_location (blk_id b)) = (0, fb', f')"
       "fb_inv fb'" "fb_payload fb' = fb_payload (blk_fb b)" "fb_internal_size fb' = fb_internal_size (blk_fb b)"
       "fl_data f' = file_put (unat (block_location (blk_id b))) (fb_mem fb') (fl_data (file_handle m))"
       "file_inv f'" "fl_space f' = fl_space (file_handle m)"
    by blast
  have "m' = m\<lparr>file_handle := f'\<rparr>" "b' = b\<lparr>blk_fb := fb'\<rparr>"
    using w r(1) by (simp_all add: single_file_block_manager_write_def)
  then show ?thesis
    using m r fb(2) by (simp add: loc em_inv_def block_ok_def fb_inv_def)
qed

lemma em_read_ok:
  assumes m: "em_inv m" and b: "block_ok b" and r: "single_file_block_manager_read m b = (m', b')"
  shows "em_inv m' \<and> fl_data (file_handle m') = fl_data (file_handle m) \<and>
     fl_space (file_handle m') = fl_space (file_handle m) \<and>
     used_blocks m' = push_block_id (em_mem m) (used_blocks m) (blk_id b) \<and>
     m' = m\<lparr>used_blocks := used_blocks m', file_handle := file_handle m'\<rparr> \<and> block_ok b' \<and> blk_id b' = blk_id b"
proof -
  obtain rc fb f where fr: "fileBuffer_read (blk_fb b) (file_handle m) (block_location (blk_id b)) = (rc, fb, f)"
    by (cases "fileBuffer_read (blk_fb b) (file_handle m) (block_location (blk_id b))") auto
  have "fb_inv (blk_fb b)" using b by (simp add: block_ok_def)
  note fl = fileBuffer_read_frame [OF this fr]
  have m': "m' = m\<lparr>used_blocks := push_block_id (em_mem m) (used_blocks m) (blk_id b), file_handle := f\<rparr>"
    and b': "b' = b\<lparr>blk_fb := fb\<rparr>"
    using r by (simp_all add: single_file_block_manager_read_def Let_def fr)
  show ?thesis
    using m b fl push_block_id_ok [of "used_blocks m" "em_mem m" "blk_id b"]
    by (simp add: m' b' em_inv_def block_ok_def file_inv_def)
qed

lemma em_read_content:
  assumes m: "em_inv m" "em_addressable m (blk_id b)" and b: "block_ok b"
    and r: "single_file_block_manager_read m b = (m', b')" and c: "em_content m (blk_id b) = Some d"
  shows "fb_payload (blk_fb b') = d"
proof -
  have fb: "fb_inv (blk_fb b)" "fb_internal_size (blk_fb b) = BLOCK_SIZE" using b by (simp_all add: block_ok_def)
  have f: "file_inv (file_handle m)" using m(1) by (simp add: em_inv_def)
  note loc = block_location_nat [OF m]
  have "unat (block_location (blk_id b)) + unat (fb_internal_size (blk_fb b)) \<le> length (fl_data (file_handle m))"
    using c by (simp add: loc fb(2) em_content_def split: if_splits)
  from fileBuffer_read_ok [OF fb(1) f this] obtain rc fb' f' where
    "fileBuffer_read (blk_fb b) (file_handle m) (block_location (blk_id b)) = (rc, fb', f')"
    "fb_payload fb' = mem_read (unat (block_location (blk_id b)) + 8) (unat (fb_size (blk_fb b))) (fl_data (file_handle m))"
    by blast
  then show ?thesis
    using r c block_ok_size [OF b]
    by (auto simp: single_file_block_manager_read_def Let_def loc em_content_def split: if_splits)
qed

lemma get_free_block_id_ok:
  assumes "em_inv m" "single_file_block_manager_get_free_block_id m = (i, m')"
  shows "em_inv m' \<and> file_handle m' = file_handle m \<and> used_blocks m' = used_blocks m \<and> em_mem m' = em_mem m \<and>
     m' = m\<lparr>free_list := free_list m', max_block := max_block m'\<rparr> \<and>
     (if block_ids (free_list m) = [] then i = max_block m \<and> max_block m' = max_block m + 1 \<and> free_list m' = free_list m
      else i = last (block_ids (free_list m)) \<and> max_block m' = max_block m \<and>
           block_ids (free_list m') = butlast (block_ids (free_list m)))"
proof (cases "block_ids (free_list m) = []")
  case True
  then have "sl_size (free_list m) = 0" using length_block_ids [of "free_list m"] by (simp add: unat_eq_zero)
  then have "i = max_block m" "m' = m\<lparr>max_block := max_block m + 1\<rparr>"
    using assms(2) by (auto simp: single_file_block_manager_get_free_block_id_def)
  then show ?thesis using assms(1) True by (simp add: em_inv_def)
next
  case False
  then have "sl_size (free_list m) > 0" by (simp add: u64_ord length_block_ids [symmetric] del: length_block_ids)
  moreover from pop_block_id_ok [OF _ False] assms(1) obtain e s' where
    s': "slice_pop_back (Some (free_list m)) = (0, e, Some s')" "bytes_word e = last (block_ids (free_list m))"
        "id_slice s'" "block_ids s' = butlast (block_ids (free_list m))"
    by (auto simp: em_inv_def)
  ultimately have "i = last (block_ids (free_list m))" "m' = m\<lparr>free_list := s'\<rparr>"
    using assms(2) by (simp_all add: single_file_block_manager_get_free_block_id_def)
  then show ?thesis using assms(1) False s' by (simp add: em_inv_def)
qed

lemma create_block_ok:
  assumes "em_inv m" "single_file_block_manager_create_block m = (bo, m')"
  shows "\<exists>i. single_file_block_manager_get_free_block_id m = (i, m') \<and>
     (alloc_ok (em_mem m) \<longrightarrow> (\<exists>b. bo = Some b)) \<and> (\<forall>b. bo = Some b \<longrightarrow> block_ok b \<and> blk_id b = i)"
proof -
  obtain i m1 where g: "single_file_block_manager_get_free_block_id m = (i, m1)" by fastforce
  note gl = get_free_block_id_ok [OF assms(1) g]
  have bo: "m' = m1" "bo = Block_create (em_mem m) i"
    using assms(2) g gl by (simp_all add: single_file_block_manager_create_block_def)
  show ?thesis
    using FileBuffer_create_ok [of "em_mem m" BLOCK_SIZE] g
    by (auto simp: bo Block_create_def block_ok_def PTRDIFF_LIMIT_def)
qed

interpretation single_file: extent_store single_file_block_manager_vtable em_inv em_content em_addressable
proof (unfold_locales, unfold vtable_simps)
  fix m b m' b'
  assume a: "em_inv m" "em_addressable m (blk_id b)" "block_ok b" "single_file_block_manager_write m b = (m', b')"
  note w = em_write_ok [OF a]
  let ?o = "block_offset (blk_id b)"
  have ne: "fb_mem (blk_fb b') \<noteq> []" using w by auto
  have "mem_read (?o + 8) 8184 (fl_data (file_handle m')) = drop 8 (mem_read ?o (length (fb_mem (blk_fb b'))) (fl_data (file_handle m')))"
    using w by (simp add: drop_mem_read)
  also have "\<dots> = fb_payload (blk_fb b')"
    using w file_put_read_same [of ?o "fb_mem (blk_fb b')"] by (simp only: fb_payload_def unat_storage_sizes)
  finally have c: "em_content m' (blk_id b) = Some (fb_payload (blk_fb b))"
    using w ne by (simp add: em_content_def length_file_put)
  have "em_content m' j = Some d" if "j \<noteq> blk_id b" "em_content m j = Some d" for j d
    using that block_offsets_disjoint [OF that(1)] w ne
      file_put_read_disjoint [of "block_offset j + 8" 8184 ?o "fb_mem (blk_fb b')" "fl_data (file_handle m)"]
    by (auto simp: em_content_def length_file_put split: if_splits)
  then show "em_inv m' \<and> em_addressable m' = em_addressable m \<and> block_ok b' \<and> blk_id b' = blk_id b \<and>
      fb_payload (blk_fb b') = fb_payload (blk_fb b) \<and> em_content m' (blk_id b) = Some (fb_payload (blk_fb b)) \<and>
      (\<forall>j d. j \<noteq> blk_id b \<longrightarrow> em_addressable m j \<longrightarrow> em_content m j = Some d \<longrightarrow> em_content m' j = Some d)"
    using w c by (simp add: em_addressable_def fun_eq_iff)
next
  fix m b m' b'
  assume a: "em_inv m" "block_ok b" "single_file_block_manager_read m b = (m', b')"
  note r = em_read_ok [OF a]
  show "em_inv m' \<and> em_addressable m' = em_addressable m \<and> em_content m' = em_content m \<and> block_ok b' \<and>
      blk_id b' = blk_id b \<and>
      (\<forall>d. em_addressable m (blk_id b) \<longrightarrow> em_content m (blk_id b) = Some d \<longrightarrow> fb_payload (blk_fb b') = d)"
    using r em_read_content [OF a(1) _ a(2,3)] by (simp add: em_addressable_def em_content_def fun_eq_iff)
next
  fix m i m'
  assume "em_inv m" "single_file_block_manager_get_free_block_id m = (i, m')"
  note g = get_free_block_id_ok [OF this]
  show "em_inv m' \<and> em_addressable m' = em_addressable m \<and> em_content m' = em_content m"
    using g by (simp add: em_addressable_def em_content_def fun_eq_iff)
next
  fix m b m'
  assume a: "em_inv m" "single_file_block_manager_create_block m = (Some b, m')"
  from create_block_ok [OF this] obtain i where i: "single_file_block_manager_get_free_block_id m = (i, m')" "block_ok b"
    by blast
  note g = get_free_block_id_ok [OF a(1) i(1)]
  show "em_inv m' \<and> em_addressable m' = em_addressable m \<and> em_content m' = em_content m \<and> block_ok b"
    using g i by (simp add: em_addressable_def em_content_def fun_eq_iff)
next
  fix m i d
  assume "em_content m i = Some d"
  then show "length d = 8184" by (auto simp: em_content_def mem_simps split: if_splits)
qed

section \<open>Allocation\<close>

text \<open>
  The free list names distinct blocks below the high-water mark. The blocks below it that are
  not on the list are in use.
\<close>

definition alloc_inv :: "SingleFileExtentManager \<Rightarrow> bool" where
  "alloc_inv m \<longleftrightarrow> em_inv m \<and> distinct (block_ids (free_list m)) \<and>
     (\<forall>i \<in> set (block_ids (free_list m)). i < max_block m)"

definition live_blocks :: "SingleFileExtentManager \<Rightarrow> block_id_t set" where
  "live_blocks m = {i. i < max_block m \<and> i \<notin> set (block_ids (free_list m))}"

fun allocate_blocks :: "nat \<Rightarrow> SingleFileExtentManager \<Rightarrow> block_id_t list \<times> SingleFileExtentManager" where
  "allocate_blocks 0 m = ([], m)"
| "allocate_blocks (Suc n) m =
     (case single_file_block_manager_get_free_block_id m of
        (i, m1) \<Rightarrow> (case allocate_blocks n m1 of (is, m2) \<Rightarrow> (i # is, m2)))"

lemma get_free_block_id_alloc:
  assumes inv: "alloc_inv m" and g: "single_file_block_manager_get_free_block_id m = (i, m')"
    and room: "unat (max_block m) + 1 < 2 ^ 64"
  shows "alloc_inv m' \<and> i \<notin> live_blocks m \<and> live_blocks m' = insert i (live_blocks m) \<and>
         unat (max_block m') \<le> unat (max_block m) + 1"
proof -
  have m: "em_inv m" using inv by (simp add: alloc_inv_def)
  note l = get_free_block_id_ok [OF m g]
  show ?thesis
  proof (cases "block_ids (free_list m) = []")
    case True
    have "unat (max_block m + 1) = Suc (unat (max_block m))" using room by (simp add: unat_inc_u64)
    then have "x < max_block m + 1 \<longleftrightarrow> x < max_block m \<or> x = max_block m" for x
      by (auto simp: u64_ord less_Suc_eq word_unat_eq_iff)
    then show ?thesis
      using l True inv room by (auto simp: alloc_inv_def live_blocks_def unat_inc_u64)
  next
    case False
    let ?ids = "block_ids (free_list m)"
    have ids: "?ids = butlast ?ids @ [last ?ids]" using False by simp
    have "set ?ids = insert (last ?ids) (set (butlast ?ids))"
      by (subst ids) simp
    moreover have "distinct (butlast ?ids @ [last ?ids])" using inv ids by (simp only: alloc_inv_def)
    then have "distinct (butlast ?ids)" "last ?ids \<notin> set (butlast ?ids)" by (simp_all only: distinct_append, simp)
    ultimately show ?thesis
      using l False inv by (auto simp: alloc_inv_def live_blocks_def)
  qed
qed

section \<open>Properties\<close>

text \<open>
  C14. Block allocation is safe: any number of successive calls of \<^verbatim>\<open>get_free_block_id\<close> returns
  pairwise different block ids, none of which belongs to a block in use, and keeps the
  invariant of the free list.
\<close>

theorem allocate_blocks_fresh:
  assumes "alloc_inv m" "unat (max_block m) + n < 2 ^ 64"
  shows "case allocate_blocks n m of (is, m') \<Rightarrow>
           length is = n \<and> distinct is \<and> set is \<inter> live_blocks m = {} \<and>
           alloc_inv m' \<and> live_blocks m' = live_blocks m \<union> set is"
  using assms
proof (induction n arbitrary: m)
  case 0
  then show ?case by simp
next
  case (Suc n)
  obtain i m1 where g: "single_file_block_manager_get_free_block_id m = (i, m1)" by fastforce
  have "unat (max_block m) + 1 < 2 ^ 64" using Suc.prems(2) by simp
  note l = get_free_block_id_alloc [OF Suc.prems(1) g this]
  then have "unat (max_block m1) + n < 2 ^ 64" using Suc.prems(2) by linarith
  from Suc.IH [OF _ this] l show ?case by (auto simp: g split: prod.splits)
qed

definition sample_ids :: Slice where
  "sample_ids = SLICE ample_memory 8 0"

definition sample_manager :: SingleFileExtentManager where
  "sample_manager = \<lparr>active_header = 1, file_path = [100, 98], file_handle = sample_file 1000000,
     header_buffer = \<lparr>fb_size = 4088, fb_internal_buf = 4096, fb_internal_size = 4096, fb_buffer = 4104,
                      fb_mem = replicate 4096 0\<rparr>,
     free_list = push_block_id ample_memory sample_ids 3, used_blocks = sample_ids,
     max_block = 5, meta_block = 0, iteration_count = 1, em_mem = ample_memory\<rparr>"

lemma sample_ids_ok: "id_slice sample_ids" "block_ids sample_ids = []" "slice_room ample_memory 100000 sample_ids"
  by (simp_all add: sample_ids_def SLICE_def slice_init_def ample_memory_def c_malloc_def PTRDIFF_LIMIT_def
      slice_inv_def id_slice_def block_ids_def slice_elems_def SLICE_DEFAULT_CAPACITY_def slice_room_def)

lemma sample_free_ok:
  "id_slice (push_block_id ample_memory sample_ids 3)" "block_ids (push_block_id ample_memory sample_ids 3) = [3]"
  using push_block_id_room [OF sample_ids_ok(1), of ample_memory 99999 3] sample_ids_ok(2,3) by simp_all

lemma sample_manager_ok: "em_inv sample_manager" "alloc_inv sample_manager"
  by (simp_all add: em_inv_def alloc_inv_def sample_manager_def sample_file_ok PTRDIFF_LIMIT_def sample_ids_ok
      sample_free_ok fb_inv_def HEADER_SIZE_def)

theorem allocate_blocks_fresh_witness:
  "case allocate_blocks 4 sample_manager of (is, m') \<Rightarrow>
     length is = 4 \<and> distinct is \<and> set is \<inter> live_blocks sample_manager = {} \<and>
     alloc_inv m' \<and> live_blocks m' = live_blocks sample_manager \<union> set is"
  by (rule allocate_blocks_fresh) (simp_all add: sample_manager_ok, simp add: sample_manager_def)

text \<open>
  C15. A block write touches nothing else: it changes neither the three headers at the start of
  the file nor the contents of any other block, and reading the block afterwards gives the data
  that was written.
\<close>

theorem block_write_isolated:
  assumes m: "em_inv m" "em_addressable m (blk_id b)" and b: "block_ok b" "block_ok b2"
    and id: "blk_id b2 = blk_id b"
    and headers: "12288 \<le> length (fl_data (file_handle m))"
  shows "\<exists>m' b' m'' b2'. single_file_block_manager_write m b = (m', b') \<and>
     single_file_block_manager_read m' b2 = (m'', b2') \<and> fb_payload (blk_fb b2') = fb_payload (blk_fb b) \<and>
     take 12288 (fl_data (file_handle m')) = take 12288 (fl_data (file_handle m)) \<and>
     (\<forall>j d. j \<noteq> blk_id b \<longrightarrow> em_addressable m j \<longrightarrow> em_content m j = Some d \<longrightarrow> em_content m' j = Some d)"
proof -
  obtain m' b' where w: "single_file_block_manager_write m b = (m', b')" by fastforce
  obtain m'' b2' where r: "single_file_block_manager_read m' b2 = (m'', b2')" by fastforce
  note wl = single_file.write_law [OF m b(1), unfolded vtable_simps, OF w]
  then have "fb_payload (blk_fb b2') = fb_payload (blk_fb b)"
    using single_file.read_law [of m' b2 m'' b2'] r b(2) m(2) id by simp
  moreover have "mem_read 0 12288 (fl_data (file_handle m')) = mem_read 0 12288 (fl_data (file_handle m))"
    using em_write_ok [OF m b(1) w] headers file_put_read_disjoint [of 0 12288 "block_offset (blk_id b)"]
    by (simp add: block_offset_def)
  ultimately show ?thesis using w r wl by (auto simp: mem_read_def)
qed

definition sample_block :: "block_id_t \<Rightarrow> u8 \<Rightarrow> Block" where
  "sample_block i x = \<lparr>blk_id = i, blk_fb = \<lparr>fb_size = 8184, fb_internal_buf = 4096, fb_internal_size = 8192,
     fb_buffer = 4104, fb_mem = replicate 8192 x\<rparr>\<rparr>"

lemma sample_block_ok: "block_ok (sample_block i x)" "blk_id (sample_block i x) = i"
  by (simp_all add: sample_block_def block_ok_def fb_inv_def BLOCK_SIZE_def)

definition sample_db :: SingleFileExtentManager where
  "sample_db = sample_manager\<lparr>file_handle := (sample_file 1000000)\<lparr>fl_data := replicate 12288 0\<rparr>\<rparr>"

lemma sample_db_ok:
  "em_inv sample_db" "em_addressable sample_db i \<longleftrightarrow> block_offset i + 8192 \<le> 1000000"
  "length (fl_data (file_handle sample_db)) = 12288"
  using sample_manager_ok(1)
  by (simp_all add: sample_db_def em_inv_def em_addressable_def file_inv_def sample_file_def PTRDIFF_LIMIT_def)

lemma sample_db_next: "fst (single_file_block_manager_get_free_block_id sample_db) = 3"
proof -
  have f: "free_list sample_db = push_block_id ample_memory sample_ids 3"
    by (simp add: sample_db_def sample_manager_def)
  then show ?thesis
    using get_free_block_id_ok [OF sample_db_ok(1) surjective_pairing] sample_free_ok by (simp add: f split: if_splits)
qed

theorem block_write_isolated_witness:
  "\<exists>m' b' m'' b2'. single_file_block_manager_write sample_db (sample_block 2 7) = (m', b') \<and>
     single_file_block_manager_read m' (sample_block 2 0) = (m'', b2') \<and>
     fb_payload (blk_fb b2') = fb_payload (blk_fb (sample_block 2 7)) \<and>
     take 12288 (fl_data (file_handle m')) = take 12288 (fl_data (file_handle sample_db)) \<and>
     (\<forall>j d. j \<noteq> blk_id (sample_block 2 7) \<longrightarrow> em_addressable sample_db j \<longrightarrow>
        em_content sample_db j = Some d \<longrightarrow> em_content m' j = Some d)"
  by (rule block_write_isolated) (simp_all add: sample_db_ok sample_block_ok block_offset_def)

text \<open>
  Metadata written through a \<^verbatim>\<open>MetaBlockWriter\<close> of the single-file manager and totalling at most
  8176 bytes is read back item by item by a \<^verbatim>\<open>MetaBlockReader\<close> opened on the writer's block; all
  the calls return.
\<close>

theorem meta_items_roundtrip:
  assumes "em_inv m" "alloc_ok (em_mem m)" "em_addressable m (fst (single_file_block_manager_get_free_block_id m))"
    and "concat items \<noteq> []" "length (concat items) \<le> 8176"
  shows "\<exists>m2 w2 m3 w3 m4 r m5 r5.
     write_items single_file_block_manager_vtable (MetaBlockWriter_init single_file_block_manager_vtable m) items = Some (m2, w2) \<and>
     metaBlockWriter_deinit single_file_block_manager_vtable m2 w2 = Some (m3, w3) \<and>
     MetaBlockReader_init (em_mem m) single_file_block_manager_vtable m3
       (fst (single_file_block_manager_get_free_block_id m)) = Some (m4, r) \<and>
     read_items single_file_block_manager_vtable (m4, r) (map (\<lambda>x. of_nat (length x)) items) = Some (items, m5, r5)"
proof -
  obtain bo m1 where c: "single_file_block_manager_create_block m = (bo, m1)" by fastforce
  from create_block_ok [OF assms(1) c] assms(2) obtain b where
    b: "bo = Some b" "blk_id b = fst (single_file_block_manager_get_free_block_id m)" by auto
  show ?thesis
    using single_file.items_roundtrip [of m b m1 "em_mem m" items] c b assms by simp
qed

theorem meta_items_roundtrip_witness:
  "\<exists>m2 w2 m3 w3 m4 r m5 r5.
     write_items single_file_block_manager_vtable (MetaBlockWriter_init single_file_block_manager_vtable sample_db)
       [[1, 2, 3], [4, 5]] = Some (m2, w2) \<and>
     metaBlockWriter_deinit single_file_block_manager_vtable m2 w2 = Some (m3, w3) \<and>
     MetaBlockReader_init (em_mem sample_db) single_file_block_manager_vtable m3
       (fst (single_file_block_manager_get_free_block_id sample_db)) = Some (m4, r) \<and>
     read_items single_file_block_manager_vtable (m4, r) (map (\<lambda>x. of_nat (length x)) [[1, 2, 3], [4, 5 :: u8]])
       = Some ([[1, 2, 3], [4, 5]], m5, r5)"
proof (rule meta_items_roundtrip)
  show "em_addressable sample_db (fst (single_file_block_manager_get_free_block_id sample_db))"
    by (simp add: sample_db_next sample_db_ok block_offset_def)
  show "em_inv sample_db" by (rule sample_db_ok)
qed (simp_all add: sample_db_def sample_manager_def ample_memory_def)

text \<open>
  C24. A reader positioned anywhere in a chain of blocks delivers the bytes that follow: if the
  rest of the current block and the blocks the chain leads to hold the bytes \<open>xs\<close> followed by
  \<open>ys\<close>, reading the length of \<open>xs\<close> returns, with \<open>xs\<close>, and leaves the reader before \<open>ys\<close>,
  however many block boundaries lie in between, without changing the file.
\<close>

theorem reader_follows_chain:
  assumes "em_inv m" "stream_rest (em_content m) (em_addressable m) r (xs @ ys)" "length xs = unat n" "unat n + 8184 < 2 ^ 64"
  shows "\<exists>m' r'. metaBlockReader_read_data single_file_block_manager_vtable m r n = Some (xs, m', r') \<and> em_inv m' \<and>
     em_content m' = em_content m \<and> stream_rest (em_content m') (em_addressable m') r' ys"
  using single_file.read_data_ok [OF assms(1-3)] assms(3,4) by auto

text \<open>A reader at the last two bytes of a block whose successor, block 0, is full of ones.\<close>

theorem reader_follows_chain_witness:
  "\<exists>m r. em_inv m \<and> (\<exists>m' r'. metaBlockReader_read_data single_file_block_manager_vtable m r 4 = Some ([7, 7, 1, 1], m', r') \<and>
     em_inv m' \<and> em_content m' = em_content m \<and> stream_rest (em_content m') (em_addressable m') r' (replicate 8174 1))"
proof -
  let ?m = "sample_db\<lparr>file_handle := (sample_file 1000000)\<lparr>fl_data := replicate 20480 1\<rparr>\<rparr>"
  let ?r = "\<lparr>mr_block = sample_block 5 7, mr_offset = 8182, mr_next_block_id = 0\<rparr>"
  have inv: "em_inv ?m"
    using sample_manager_ok(1)
    by (simp add: sample_db_def em_inv_def file_inv_def sample_file_def PTRDIFF_LIMIT_def)
  have c: "em_content ?m 0 = Some (replicate 8184 1)"
    by (simp add: em_content_def block_offset_def mem_read_def)
  have "drop 8182 (fb_payload (blk_fb (mr_block ?r))) = [7, 7]"
    by (simp add: sample_block_def fb_payload_def drop_replicate numeral_2_eq_2)
  then have "stream_rest (em_content ?m) (em_addressable ?m) ?r ([7, 7] @ replicate 8176 1)"
    unfolding stream_rest_def using c
    by (auto intro!: exI [of _ "[replicate 8176 1]"]
        simp: sample_block_ok em_addressable_def block_offset_def sample_db_def sample_file_def)
  moreover have "[7, 7] @ replicate 8176 1 = [7, 7, 1, 1 :: u8] @ replicate 8174 1"
    using replicate_add [of 2 8174 "1 :: u8"] by (simp add: numeral_2_eq_2)
  ultimately have "stream_rest (em_content ?m) (em_addressable ?m) ?r ([7, 7, 1, 1] @ replicate 8174 1)" by simp
  from reader_follows_chain [OF inv this, of 4] inv show ?thesis by (intro exI [of _ ?m] exI [of _ ?r]) simp
qed

lemma single_file_write_keeps_size: "write_keeps_size single_file_block_manager_vtable"
  by (simp add: write_keeps_size_def single_file_block_manager_write_def fileBuffer_write_def Let_def
      split: prod.splits)

text \<open>
  C37. \<^verbatim>\<open>metaBlockWriter_write_data\<close> never returns when the data does not fit the rest of the current
  block: after a block is full the loop takes a new block but keeps its local offset at the end
  of the block, so it allocates and writes blocks for ever.
\<close>

theorem write_data_never_returns:
  assumes "block_ok b" "mw_block w = Some b" "mw_offset w \<le> 8184"
    and "8184 < unat (mw_offset w) + unat n" "unat n + 8184 < 2 ^ 64"
  shows "metaBlockWriter_write_data single_file_block_manager_vtable m w buf n = None"
  using write_data_overflows_block [OF single_file_write_keeps_size assms(2)] block_ok_size [OF assms(1)] assms
  by (simp add: u64_ord)

theorem write_data_never_returns_witness:
  "metaBlockWriter_write_data single_file_block_manager_vtable sample_db
     \<lparr>mw_block = Some (sample_block 0 0), mw_offset = 8180\<rparr> [1, 2, 3, 4, 5, 6, 7, 8] 8 = None"
  by (rule write_data_never_returns [OF sample_block_ok(1)]) (simp_all add: word_le_nat_alt)

end
