(* ===== verification/Checkpoint.thy ===== *)
theory Checkpoint
  imports CatalogRefine SingleFile
begin

text \<open>
  What a checkpoint writes (\<^verbatim>\<open>src/storage/table/storage.c\<close>, lines 672 to 781): the description of a
  table on the metadata stream, read back by \<^verbatim>\<open>createTableInfo_deserialize\<close>, and the table data
  writer, which flushes a column's block and records a data pointer for it. The slices of the
  table data writer are lists of their elements; a block of it belongs to one column.
\<close>

section \<open>The description of a table\<close>

definition write_column ::
  "'m ExtentManagerVTable \<Rightarrow> 'm \<times> MetaBlockWriter \<Rightarrow> ColumnDefinition \<Rightarrow> ('m \<times> MetaBlockWriter) option" where
  "write_column vt mw c =
     do {
       mw1 \<leftarrow> SERIALIZER_WRITE_STRING vt mw (col_name c);
       mw2 \<leftarrow> SERIALIZER_WRITE_TYPE vt mw1 (ucast (col_type c) :: u8);
       if col_type c = SQLT_VECTOR
       then do { dim \<leftarrow> col_dim c; SERIALIZER_WRITE_TYPE vt mw2 dim }
       else Some mw2
     }"

fun write_columns ::
  "'m ExtentManagerVTable \<Rightarrow> 'm \<times> MetaBlockWriter \<Rightarrow> ColumnDefinition list \<Rightarrow> ('m \<times> MetaBlockWriter) option" where
  "write_columns vt mw [] = Some mw"
| "write_columns vt mw (c # cs) = do { mw1 \<leftarrow> write_column vt mw c; write_columns vt mw1 cs }"

text \<open>
  The loop counter is an \<^verbatim>\<open>int\<close> again; a NULL name is followed by \<^verbatim>\<open>strlen\<close>.
\<close>

definition checkpointManager_write_table_catalog ::
  "'m ExtentManagerVTable \<Rightarrow> heap \<Rightarrow> 'm \<times> MetaBlockWriter \<Rightarrow> addr \<Rightarrow> ('m \<times> MetaBlockWriter) option" where
  "checkpointManager_write_table_catalog vt h mw entry =
     do {
       t \<leftarrow> table_part h entry;
       schema \<leftarrow> h_cells h (tb_schema t);
       schema_name \<leftarrow> ce_name (base schema);
       mw1 \<leftarrow> SERIALIZER_WRITE_STRING vt mw schema_name;
       c \<leftarrow> h_cells h entry;
       name \<leftarrow> ce_name (base c);
       mw2 \<leftarrow> SERIALIZER_WRITE_STRING vt mw1 name;
       mw3 \<leftarrow> SERIALIZER_WRITE_TYPE vt mw2 (ucast (tb_column_count t) :: u32);
       if length (tb_columns t) < unat (tb_column_count t) \<or> 2 ^ 31 \<le> unat (tb_column_count t) then None
       else write_columns vt mw3 (take (unat (tb_column_count t)) (tb_columns t))
     }"

lemma write_items_append:
  "write_items vt mw (xs @ ys) = Option.bind (write_items vt mw xs) (\<lambda>mw1. write_items vt mw1 ys)"
  by (induction xs arbitrary: mw) (simp_all add: bind_assoc)

lemma write_type_items: "SERIALIZER_WRITE_TYPE vt mw x = write_items vt mw [word_bytes x]"
  by (cases "metaBlockWriter_write_data vt (fst mw) (snd mw) (word_bytes x) (of_nat (length (word_bytes x)))")
    (simp_all add: SERIALIZER_WRITE_TYPE_def)

definition string_items :: "bytes \<Rightarrow> bytes list" where
  "string_items s = [word_bytes (of_nat (length s) :: usize), s]"

lemma write_string_items: "SERIALIZER_WRITE_STRING vt mw s = write_items vt mw (string_items s)"
  by (simp add: SERIALIZER_WRITE_STRING_def write_type_items string_items_def bind_assoc)

definition column_items :: "ColumnDefinition \<Rightarrow> bytes list" where
  "column_items c = string_items (col_name c) @ [word_bytes (ucast (col_type c) :: u8)] @
     (if col_type c = SQLT_VECTOR then [word_bytes (the (col_dim c))] else [])"

lemma write_column_items:
  "column_ok c \<Longrightarrow> write_column vt mw c = write_items vt mw (column_items c)"
  by (auto simp: write_column_def column_items_def write_items_append write_string_items write_type_items column_ok_def
      bind_assoc)

lemma write_columns_items:
  "\<forall>c \<in> set cs. column_ok c \<Longrightarrow> write_columns vt mw cs = write_items vt mw (concat (map column_items cs))"
  by (induction cs arbitrary: mw) (simp_all add: write_column_items write_items_append)

lemma concat_column_items: "concat (column_items c) = column_bytes c"
  by (simp add: column_items_def string_items_def column_bytes_def string_bytes_def)

definition table_items :: "bytes \<Rightarrow> bytes \<Rightarrow> ColumnDefinition list \<Rightarrow> bytes list" where
  "table_items sn tn cs =
     string_items sn @ string_items tn @ [word_bytes (of_nat (length cs) :: u32)] @ concat (map column_items cs)"

lemma concat_table_items:
  "concat (table_items sn tn cs) =
     string_bytes sn @ string_bytes tn @ word_bytes (of_nat (length cs) :: u32) @ concat (map column_bytes cs)"
proof -
  have "concat (concat (map column_items cs)) = concat (map column_bytes cs)"
    by (induction cs) (simp_all add: concat_column_items)
  then show ?thesis by (simp add: table_items_def string_items_def string_bytes_def)
qed

lemma write_table_catalog_items:
  assumes "table_part h entry = Some t" "h_cells h (tb_schema t) = Some sc" "ce_name (base sc) = Some sn"
    and "h_cells h entry = Some c" "ce_name (base c) = Some tn"
    and "unat (tb_column_count t) = length (tb_columns t)" "length (tb_columns t) < 2 ^ 31" "\<forall>c \<in> set (tb_columns t). column_ok c"
  shows "checkpointManager_write_table_catalog vt h mw entry = write_items vt mw (table_items sn tn (tb_columns t))"
proof -
  have "tb_column_count t = of_nat (length (tb_columns t))"
    using arg_cong [OF assms(6), of "of_nat :: nat \<Rightarrow> usize"] by simp
  then have "(ucast (tb_column_count t) :: u32) = of_nat (length (tb_columns t))"
    using assms(6) by (simp add: word_unat_eq_iff unat_ucast_mod unat_of_nat)
  then show ?thesis
    using assms
    by (simp add: checkpointManager_write_table_catalog_def table_items_def write_string_items write_type_items
        write_items_append write_columns_items bind_assoc)
qed

text \<open>
  The scan of the schemas collects the entries themselves, not pointers to them; an element is lost when the array
  cannot grow, which \<open>grows\<close> decides by the number of elements. A table or marker entry that is not
  deleted would be copied as if it were a schema.
\<close>

definition schema_scan_fn ::
  "(nat \<Rightarrow> bool) \<Rightarrow> addr \<Rightarrow> cell list \<Rightarrow> heap \<Rightarrow> (cell list \<times> heap) option" where
  "schema_scan_fn grows entry schemas h =
     do {
       c \<leftarrow> h_cells h entry;
       Some (if ce_deleted (base c) then schemas else if grows (length schemas) then schemas @ [c] else schemas, h)
     }"

lemma schema_scan_collects:
  assumes "\<forall>a \<in> set as. h_cells h a \<noteq> None" "\<forall>n. grows n"
  shows "scan_values (schema_scan_fn grows) (map Some as) cs h =
    Some (cs @ filter (\<lambda>c. \<not> ce_deleted (base c)) (map (\<lambda>a. the (h_cells h a)) as), h)"
  using assms by (induction as arbitrary: cs) (auto simp: schema_scan_fn_def)

section \<open>The table data writer\<close>

record DataPointer =
  dp_min :: u64
  dp_max :: u64
  dp_row_start :: u64
  dp_tuple_count :: u64
  dp_block_id :: block_id_t
  dp_offset :: u32

record TableDataWriter =
  tw_blocks :: "Block list"
  tw_offsets :: "usize list"
  tw_tuple_counts :: "usize list"
  tw_row_numbers :: "usize list"
  tw_indexes :: "usize list"
  tw_data_pointers :: "DataPointer list list"

definition TableDataWriter_init :: TableDataWriter where
  "TableDataWriter_init =
     \<lparr>tw_blocks = [], tw_offsets = [], tw_tuple_counts = [], tw_row_numbers = [], tw_indexes = [], tw_data_pointers = []\<rparr>"

definition tableDataWriter_deinit :: "TableDataWriter \<Rightarrow> TableDataWriter" where
  "tableDataWriter_deinit self =
     self\<lparr>tw_blocks := [], tw_offsets := [], tw_tuple_counts := [], tw_row_numbers := [], tw_indexes := [], tw_data_pointers := []\<rparr>"

definition get_type_header_size :: "SQLType \<Rightarrow> usize" where
  "get_type_header_size type = 0"

text \<open>\<^verbatim>\<open>SLICE_AT\<close>: an index out of range follows the NULL that \<^verbatim>\<open>slice_get\<close> returns.\<close>

definition slice_at :: "'a list \<Rightarrow> usize \<Rightarrow> 'a option" where
  "slice_at xs i = (if unat i < length xs then Some (xs ! unat i) else None)"

definition TableDataWriter_flush_block ::
  "'m ExtentManagerVTable \<Rightarrow> 'm \<times> TableDataWriter \<Rightarrow> usize \<Rightarrow> ('m \<times> TableDataWriter) option" where
  "TableDataWriter_flush_block vt ms col =
     (case ms of (m, self) \<Rightarrow>
     do {
       n \<leftarrow> slice_at (tw_tuple_counts self) col;
       if n = 0 then Some (m, self)
       else do {
         blk \<leftarrow> slice_at (tw_blocks self) col;
         let (i, m1) = em_get_free_block_id vt m;
         row \<leftarrow> slice_at (tw_row_numbers self) col;
         dps \<leftarrow> slice_at (tw_data_pointers self) col;
         let data = \<lparr>dp_min = 0, dp_max = 0, dp_row_start = row, dp_tuple_count = n, dp_block_id = i, dp_offset = 0\<rparr>;
         let (m2, blk') = em_write vt m1 (blk\<lparr>blk_id := i\<rparr>);
         let c = unat col;
         Some (m2, self\<lparr>tw_blocks := (tw_blocks self)[c := blk'],
                        tw_data_pointers := (tw_data_pointers self)[c := dps @ [data]],
                        tw_offsets := (tw_offsets self)[c := 0],
                        tw_row_numbers := (tw_row_numbers self)[c := row + n],
                        tw_tuple_counts := (tw_tuple_counts self)[c := 0]\<rparr>)
       }
     })"

definition TableDataWriter_flush_if_full ::
  "'m ExtentManagerVTable \<Rightarrow> 'm \<times> TableDataWriter \<Rightarrow> usize \<Rightarrow> usize \<Rightarrow> ('m \<times> TableDataWriter) option" where
  "TableDataWriter_flush_if_full vt ms col write_size =
     do {
       offset \<leftarrow> slice_at (tw_offsets (snd ms)) col;
       if offset + write_size \<ge> BLOCK_SIZE then TableDataWriter_flush_block vt ms col else Some ms
     }"

section \<open>The checkpoint manager\<close>

record CheckpointManager =
  cm_meta_block_writer :: "MetaBlockWriter option"
  cm_tabledata_writer :: "MetaBlockWriter option"

definition CheckpointManager_destroy :: "'m ExtentManagerVTable \<Rightarrow> 'm \<Rightarrow> CheckpointManager option \<Rightarrow> 'm option" where
  "CheckpointManager_destroy vt m so =
     (case so of
        None \<Rightarrow> Some m
      | Some self \<Rightarrow>
          do {
            m1 \<leftarrow> (case cm_meta_block_writer self of None \<Rightarrow> Some m | w \<Rightarrow> metaBlockWriter_destroy vt m w);
            (case cm_tabledata_writer self of None \<Rightarrow> Some m1 | w \<Rightarrow> metaBlockWriter_destroy vt m1 w)
          })"

section \<open>Properties\<close>

context extent_store
begin

lemma table_roundtrip:
  assumes "inv m" "em_create_block vt m = (Some b, m1)" "addressable m (blk_id b)" "alloc_ok M"
    and t: "table_part h entry = Some t" "h_cells h (tb_schema t) = Some sc" "ce_name (base sc) = Some sn"
      "h_cells h entry = Some c" "ce_name (base c) = Some tn"
    and cols: "unat (tb_column_count t) = length (tb_columns t)" "\<forall>c \<in> set (tb_columns t). column_ok c"
    and fit: "length (concat (table_items sn tn (tb_columns t))) \<le> 8176"
  shows "\<exists>m2 w2 m3 w3 m4 r m5 r5.
     checkpointManager_write_table_catalog vt h (MetaBlockWriter_init vt m) entry = Some (m2, w2) \<and>
     metaBlockWriter_deinit vt m2 w2 = Some (m3, w3) \<and> MetaBlockReader_init M vt m3 (blk_id b) = Some (m4, r) \<and>
     createTableInfo_deserialize M vt (m4, r) =
       Some (\<lparr>cti_schema_name = sn, cti_table_name = tn, cti_if_not_exists = True,
              cti_columns = number_columns 0 (tb_columns t), cti_col_count = tb_column_count t\<rparr>, m5, r5)"
proof -
  let ?cs = "tb_columns t"
  have len: "length ?cs \<le> length (concat (map column_bytes ?cs))"
  proof (induction ?cs arbitrary: t)
    case (Cons x xs)
    have "1 \<le> length (column_bytes x)" by (simp add: column_bytes_def string_bytes_def)
    then show ?case using Cons(1) [of "t\<lparr>tb_columns := xs\<rparr>"] Cons(2) [symmetric] by simp
  qed simp
  note fit' = fit [unfolded concat_table_items]
  have small: "length sn < 2 ^ 32" "length tn < 2 ^ 32" "length ?cs < 2 ^ 31"
    using fit' len by (simp_all add: string_bytes_def)
  have n: "tb_column_count t = of_nat (length ?cs)"
    using arg_cong [OF cols(1), of "of_nat :: nat \<Rightarrow> usize"] by simp
  have "concat (table_items sn tn ?cs) \<noteq> []" unfolding concat_table_items by (simp add: string_bytes_def word_bytes_def)
  from written_items_stored [OF assms(1-3) this fit] obtain m2 w2 m3 w3 pad where
    w: "write_items vt (MetaBlockWriter_init vt m) (table_items sn tn ?cs) = Some (m2, w2)"
       "metaBlockWriter_deinit vt m2 w2 = Some (m3, w3)" "inv m3" "chain m3 (blk_id b) [concat (table_items sn tn ?cs) @ pad]"
    by blast
  from reader_init_ok [OF w(3) assms(4) w(4)] obtain m4 r where
    r: "MetaBlockReader_init M vt m3 (blk_id b) = Some (m4, r)" "inv m4"
       "reader_sees m4 r (string_bytes sn @ string_bytes tn @ word_bytes (of_nat (length ?cs) :: u32) @
          concat (map column_bytes ?cs) @ pad)"
    by (auto simp: concat_table_items)
  have "length ?cs < 2 ^ 32" using small(3) by simp
  from createTableInfo_sees [OF r(2) assms(4) small(1,2) this cols(2) r(3)] show ?thesis
    using w(1,2) r(1) write_table_catalog_items [OF t cols(1) small(3) cols(2), of vt "MetaBlockWriter_init vt m"] n by auto
qed

end

text \<open>
  The catalog entry of a table survives a checkpoint: the description that
  \<^verbatim>\<open>checkpointManager_write_table_catalog\<close> writes to the database file is read back by
  \<^verbatim>\<open>createTableInfo_deserialize\<close> with the schema name, the table name, and all columns with their
  types and vector dimensions, the columns being numbered from 0, provided the description fits a
  metadata block. All the calls return.
\<close>

theorem table_catalog_roundtrip:
  assumes "em_inv m" "alloc_ok (em_mem m)" "em_addressable m (fst (single_file_block_manager_get_free_block_id m))"
    and "table_part h entry = Some t" "h_cells h (tb_schema t) = Some sc" "ce_name (base sc) = Some sn"
      "h_cells h entry = Some c" "ce_name (base c) = Some tn"
    and "unat (tb_column_count t) = length (tb_columns t)" "\<forall>c \<in> set (tb_columns t). column_ok c"
    and "length (concat (table_items sn tn (tb_columns t))) \<le> 8176"
  shows "\<exists>m2 w2 m3 w3 m4 r m5 r5.
     checkpointManager_write_table_catalog single_file_block_manager_vtable h
       (MetaBlockWriter_init single_file_block_manager_vtable m) entry = Some (m2, w2) \<and>
     metaBlockWriter_deinit single_file_block_manager_vtable m2 w2 = Some (m3, w3) \<and>
     MetaBlockReader_init (em_mem m) single_file_block_manager_vtable m3
       (fst (single_file_block_manager_get_free_block_id m)) = Some (m4, r) \<and>
     createTableInfo_deserialize (em_mem m) single_file_block_manager_vtable (m4, r) =
       Some (\<lparr>cti_schema_name = sn, cti_table_name = tn, cti_if_not_exists = True,
              cti_columns = number_columns 0 (tb_columns t), cti_col_count = tb_column_count t\<rparr>, m5, r5)"
proof -
  obtain bo m1 where c: "single_file_block_manager_create_block m = (bo, m1)" by fastforce
  from create_block_ok [OF assms(1) c] assms(2) obtain b where
    b: "bo = Some b" "blk_id b = fst (single_file_block_manager_get_free_block_id m)" by auto
  have cb: "em_create_block single_file_block_manager_vtable m = (Some b, m1)" using c b(1) by simp
  have ad: "em_addressable m (blk_id b)" using assms(3) b(2) by simp
  show ?thesis using single_file.table_roundtrip [OF assms(1) cb ad assms(2,4-11)] unfolding b(2) .
qed

definition sample_part :: TablePart where
  "sample_part = \<lparr>tb_schema = 0, tb_datatable = 0, tb_storage_table = None,
     tb_columns = [\<lparr>col_name = [105, 100], col_oid = 0, col_type = SQLT_INTEGER, col_dim = None\<rparr>,
                   \<lparr>col_name = [118], col_oid = 1, col_type = SQLT_VECTOR, col_dim = Some 128\<rparr>], tb_column_count = 2\<rparr>"

definition sample_table_heap :: heap where
  "sample_table_heap = (empty_heap (\<lambda>_. ample_memory))
     \<lparr>h_cells := [0 \<mapsto> empty_schema_cell [115],
                  1 \<mapsto> \<lparr>base = catalogEntry_init TABLE (Some [116]), body = TableCatalogEntry sample_part\<rparr>], h_next := 2\<rparr>"

theorem table_catalog_roundtrip_witness:
  "\<exists>m2 w2 m3 w3 m4 r m5 r5.
     checkpointManager_write_table_catalog single_file_block_manager_vtable sample_table_heap
       (MetaBlockWriter_init single_file_block_manager_vtable sample_db) 1 = Some (m2, w2) \<and>
     metaBlockWriter_deinit single_file_block_manager_vtable m2 w2 = Some (m3, w3) \<and>
     MetaBlockReader_init (em_mem sample_db) single_file_block_manager_vtable m3
       (fst (single_file_block_manager_get_free_block_id sample_db)) = Some (m4, r) \<and>
     createTableInfo_deserialize (em_mem sample_db) single_file_block_manager_vtable (m4, r) =
       Some (\<lparr>cti_schema_name = [115], cti_table_name = [116], cti_if_not_exists = True,
              cti_columns = number_columns 0 (tb_columns sample_part), cti_col_count = tb_column_count sample_part\<rparr>, m5, r5)"
proof (rule table_catalog_roundtrip)
  show "em_addressable sample_db (fst (single_file_block_manager_get_free_block_id sample_db))"
    by (simp add: sample_db_next sample_db_ok block_offset_def)
  show "em_inv sample_db" by (rule sample_db_ok)
  show "table_part sample_table_heap 1 = Some sample_part" by (simp add: sample_table_heap_def table_part_def)
  show "h_cells sample_table_heap (tb_schema sample_part) = Some (empty_schema_cell [115])"
    "h_cells sample_table_heap 1 = Some \<lparr>base = catalogEntry_init TABLE (Some [116]), body = TableCatalogEntry sample_part\<rparr>"
    by (simp_all add: sample_table_heap_def sample_part_def)
  show "\<forall>c \<in> set (tb_columns sample_part). column_ok c" by (simp add: sample_part_def column_ok_def sqlt_defs)
  show "length (concat (table_items [115] [116] (tb_columns sample_part))) \<le> 8176"
    unfolding concat_table_items by (simp add: sample_part_def column_bytes_def string_bytes_def sqlt_defs)
qed (simp_all add: sample_db_def sample_manager_def ample_memory_def empty_schema_cell_def catalogEntry_init_def sample_part_def)

text \<open>
  The rows of the data pointers of a column follow each other from row \<open>i\<close> to row \<open>j\<close>, and none of
  them is empty.
\<close>

fun rows_from_to :: "u64 \<Rightarrow> DataPointer list \<Rightarrow> u64 \<Rightarrow> bool" where
  "rows_from_to i [] j \<longleftrightarrow> i = j"
| "rows_from_to i (d # ds) j \<longleftrightarrow> dp_row_start d = i \<and> dp_tuple_count d \<noteq> 0 \<and> rows_from_to (i + dp_tuple_count d) ds j"

definition rows_ok :: "TableDataWriter \<Rightarrow> bool" where
  "rows_ok w \<longleftrightarrow> length (tw_offsets w) = length (tw_blocks w) \<and> length (tw_tuple_counts w) = length (tw_blocks w) \<and>
     length (tw_row_numbers w) = length (tw_blocks w) \<and> length (tw_data_pointers w) = length (tw_blocks w) \<and>
     (\<forall>c < length (tw_blocks w). rows_from_to 0 (tw_data_pointers w ! c) (tw_row_numbers w ! c))"

lemma rows_from_to_snoc:
  "rows_from_to i ds j \<Longrightarrow> dp_row_start d = j \<Longrightarrow> dp_tuple_count d \<noteq> 0 \<Longrightarrow> rows_from_to i (ds @ [d]) (j + dp_tuple_count d)"
  by (induction ds arbitrary: i) auto

text \<open>What flushing a column does to the writer, given the block id and what writing the block returns.\<close>

definition flushed_pointer :: "TableDataWriter \<Rightarrow> nat \<Rightarrow> block_id_t \<Rightarrow> DataPointer" where
  "flushed_pointer w c i =
     \<lparr>dp_min = 0, dp_max = 0, dp_row_start = tw_row_numbers w ! c, dp_tuple_count = tw_tuple_counts w ! c,
      dp_block_id = i, dp_offset = 0\<rparr>"

definition flushed_writer :: "TableDataWriter \<Rightarrow> nat \<Rightarrow> block_id_t \<Rightarrow> Block \<Rightarrow> TableDataWriter" where
  "flushed_writer w c i b =
     w\<lparr>tw_blocks := (tw_blocks w)[c := b],
       tw_data_pointers := (tw_data_pointers w)[c := tw_data_pointers w ! c @ [flushed_pointer w c i]],
       tw_offsets := (tw_offsets w)[c := 0], tw_row_numbers := (tw_row_numbers w)[c := tw_row_numbers w ! c + tw_tuple_counts w ! c],
       tw_tuple_counts := (tw_tuple_counts w)[c := 0]\<rparr>"

lemma flush_block_result:
  assumes "rows_ok w" "unat col < length (tw_blocks w)" "tw_tuple_counts w ! unat col \<noteq> 0"
    and "em_get_free_block_id vt m = (i, m1)" "em_write vt m1 ((tw_blocks w ! unat col)\<lparr>blk_id := i\<rparr>) = (m2, b2)"
  shows "TableDataWriter_flush_block vt (m, w) col = Some (m2, flushed_writer w (unat col) i b2) \<and>
    rows_ok (flushed_writer w (unat col) i b2)"
proof
  let ?c = "unat col"
  have len: "?c < length (tw_tuple_counts w)" "?c < length (tw_row_numbers w)" "?c < length (tw_data_pointers w)"
    using assms(1,2) by (simp_all add: rows_ok_def)
  then show "TableDataWriter_flush_block vt (m, w) col = Some (m2, flushed_writer w ?c i b2)"
    using assms(2-5) by (simp add: TableDataWriter_flush_block_def slice_at_def flushed_writer_def flushed_pointer_def Let_def)
  have "rows_from_to 0 (tw_data_pointers w ! ?c @ [flushed_pointer w ?c i]) (tw_row_numbers w ! ?c + tw_tuple_counts w ! ?c)"
    using rows_from_to_snoc [of 0 "tw_data_pointers w ! ?c" "tw_row_numbers w ! ?c" "flushed_pointer w ?c i"] assms(1-3)
    by (simp add: rows_ok_def flushed_pointer_def)
  then show "rows_ok (flushed_writer w ?c i b2)"
    using assms(1) len by (auto simp: rows_ok_def flushed_writer_def nth_list_update)
qed

text \<open>
  C17. Flushing a column of a table, with memory for the data pointer: the buffered tuples become one more data pointer whose rows
  start where the previous pointer's rows end, the block it names holds the column's payload in
  the database file, the column's buffer is empty afterwards, and the other columns and the other
  blocks of the file are untouched. The rows of every column stay contiguous.
\<close>

theorem flush_block_keeps_rows:
  assumes "em_inv m" "em_addressable m (fst (single_file_block_manager_get_free_block_id m))"
    and "rows_ok w" "unat col < length (tw_blocks w)" "block_ok (tw_blocks w ! unat col)" "tw_tuple_counts w ! unat col \<noteq> 0"
  shows "\<exists>m' w' d. TableDataWriter_flush_block single_file_block_manager_vtable (m, w) col = Some (m', w') \<and> rows_ok w' \<and>
     tw_data_pointers w' = (tw_data_pointers w)[unat col := tw_data_pointers w ! unat col @ [d]] \<and>
     dp_row_start d = tw_row_numbers w ! unat col \<and> dp_tuple_count d = tw_tuple_counts w ! unat col \<and>
     tw_row_numbers w' ! unat col = tw_row_numbers w ! unat col + tw_tuple_counts w ! unat col \<and>
     tw_tuple_counts w' = (tw_tuple_counts w)[unat col := 0] \<and> tw_offsets w' = (tw_offsets w)[unat col := 0] \<and>
     em_content m' (dp_block_id d) = Some (fb_payload (blk_fb (tw_blocks w ! unat col))) \<and>
     (\<forall>j x. j \<noteq> dp_block_id d \<longrightarrow> em_addressable m j \<longrightarrow> em_content m j = Some x \<longrightarrow> em_content m' j = Some x)"
proof -
  let ?c = "unat col"
  obtain i m1 where f: "single_file_block_manager_get_free_block_id m = (i, m1)" by fastforce
  have fl: "em_inv m1" "em_addressable m1 = em_addressable m" "em_content m1 = em_content m"
    using single_file.free_law [of m i m1] assms(1) f by simp_all
  let ?b = "(tw_blocks w ! ?c)\<lparr>blk_id := i\<rparr>"
  obtain m2 b2 where wr: "single_file_block_manager_write m1 ?b = (m2, b2)" by fastforce
  have b: "block_ok ?b" "em_addressable m1 (blk_id ?b)" using assms(2,5) f fl by (simp_all add: block_ok_def)
  note wl = single_file.write_law [OF fl(1) b(2,1), of m2 b2]
  have len: "?c < length (tw_row_numbers w)" using assms(3,4) by (simp add: rows_ok_def)
  have "TableDataWriter_flush_block single_file_block_manager_vtable (m, w) col = Some (m2, flushed_writer w ?c i b2)"
    "rows_ok (flushed_writer w ?c i b2)"
    using flush_block_result [OF assms(3,4,6), of single_file_block_manager_vtable m i m1 m2 b2] f wr by simp_all
  moreover have "em_content m2 i = Some (fb_payload (blk_fb (tw_blocks w ! ?c)))"
    "\<forall>j x. j \<noteq> i \<longrightarrow> em_addressable m j \<longrightarrow> em_content m j = Some x \<longrightarrow> em_content m2 j = Some x"
    using wl wr fl by simp_all
  ultimately show ?thesis
    using len by (intro exI [of _ m2] exI [of _ "flushed_writer w ?c i b2"] exI [of _ "flushed_pointer w ?c i"])
      (simp add: flushed_writer_def flushed_pointer_def)
qed

definition sample_writer :: TableDataWriter where
  "sample_writer = \<lparr>tw_blocks = [sample_block 9 7], tw_offsets = [40], tw_tuple_counts = [10], tw_row_numbers = [0],
     tw_indexes = [], tw_data_pointers = [[]]\<rparr>"

theorem flush_block_keeps_rows_witness:
  "\<exists>m' w' d. TableDataWriter_flush_block single_file_block_manager_vtable (sample_db, sample_writer) 0 = Some (m', w') \<and>
     rows_ok w' \<and> tw_data_pointers w' = [[d]] \<and> dp_row_start d = 0 \<and> dp_tuple_count d = 10 \<and>
     em_content m' (dp_block_id d) = Some (fb_payload (blk_fb (sample_block 9 7)))"
proof -
  have "em_addressable sample_db (fst (single_file_block_manager_get_free_block_id sample_db))"
    by (simp add: sample_db_next sample_db_ok block_offset_def)
  from flush_block_keeps_rows [OF sample_db_ok(1) this, of sample_writer 0] show ?thesis
    by (auto simp: sample_writer_def rows_ok_def sample_block_ok)
qed

end
