(* ===== verification/Database.thy ===== *)
theory Database
  imports SingleFile
begin

text \<open>
  The database file as a whole (\<^verbatim>\<open>src/storage/table/storage.c\<close>, lines 475 to 671): a master header
  and two database headers written alternately, the checkpoint step \<^verbatim>\<open>write_header\<close>, and opening
  or creating a file. A result \<^term>\<open>None\<close> means that the call does not return (or dies); the
  constructor returns a null pointer as an inner \<^term>\<open>None\<close>.
\<close>

section \<open>Headers\<close>

record MasterHeader =
  mh_magic :: u64
  mh_version :: u64
  mh_flags :: "u64 list"

record DatabaseHeader =
  dh_iteration :: u64
  dh_meta_block :: block_id_t
  dh_free_list_id :: block_id_t
  dh_block_count :: u64

definition MAGIC_NUMBER :: u64 where "MAGIC_NUMBER = 0x5645434442"
definition VERSION_NUMBER :: u64 where "VERSION_NUMBER = 1"

text \<open>The objects the casts of the header buffer denote.\<close>

definition master_header_bytes :: "MasterHeader \<Rightarrow> bytes" where
  "master_header_bytes h = word_bytes (mh_magic h) @ word_bytes (mh_version h) @ concat (map word_bytes (mh_flags h))"

definition database_header_bytes :: "DatabaseHeader \<Rightarrow> bytes" where
  "database_header_bytes h = word_bytes (dh_iteration h) @ word_bytes (dh_meta_block h) @
     word_bytes (dh_free_list_id h) @ word_bytes (dh_block_count h)"

definition bytes_master_version :: "bytes \<Rightarrow> u64" where
  "bytes_master_version bs = bytes_word (mem_read 8 8 bs)"

definition bytes_database_header :: "bytes \<Rightarrow> DatabaseHeader" where
  "bytes_database_header bs =
     \<lparr>dh_iteration = bytes_word (mem_read 0 8 bs), dh_meta_block = bytes_word (mem_read 8 8 bs),
      dh_free_list_id = bytes_word (mem_read 16 8 bs), dh_block_count = bytes_word (mem_read 24 8 bs)\<rparr>"

section \<open>The checkpoint step\<close>

fun write_used_blocks ::
  "nat \<Rightarrow> u64 \<Rightarrow> SingleFileExtentManager \<times> MetaBlockWriter \<Rightarrow> (SingleFileExtentManager \<times> MetaBlockWriter) option" where
  "write_used_blocks 0 i mw = Some mw"
| "write_used_blocks (Suc n) i mw =
     (case slice_get (Some (used_blocks (fst mw))) i of
        None \<Rightarrow> None
      | Some p \<Rightarrow>
          Option.bind (metaBlockWriter_write_data single_file_block_manager_vtable (fst mw) (snd mw)
                         (slice_load p 8 (used_blocks (fst mw))) 8)
            (write_used_blocks n (i + 1)))"

text \<open>The free-list block: its id, and the manager after it has been written.\<close>

definition write_free_list :: "SingleFileExtentManager \<Rightarrow> (block_id_t \<times> SingleFileExtentManager) option" where
  "write_free_list m =
     (if sl_size (used_blocks m) > 0
      then do {
        let (m1, w) = MetaBlockWriter_init single_file_block_manager_vtable m;
        b \<leftarrow> mw_block w;
        mw2 \<leftarrow> SERIALIZER_WRITE_TYPE single_file_block_manager_vtable (m1, w) (sl_size (used_blocks m1));
        mw3 \<leftarrow> write_used_blocks (unat (sl_size (used_blocks m))) 0 mw2;
        mw4 \<leftarrow> metaBlockWriter_deinit single_file_block_manager_vtable (fst mw3) (snd mw3);
        Some (blk_id b, fst mw4)
      }
      else Some (INVALID_BLOCK, m))"

definition single_file_block_manager_write_header ::
  "SingleFileExtentManager \<Rightarrow> DatabaseHeader \<Rightarrow> SingleFileExtentManager option" where
  "single_file_block_manager_write_header m0 header0 =
     do {
       let m = m0\<lparr>iteration_count := iteration_count m0 + 1\<rparr>;
       let header = header0\<lparr>dh_iteration := iteration_count m, dh_block_count := max_block m\<rparr>;
       (free_list_id, m1) \<leftarrow> write_free_list m;
       let header = header\<lparr>dh_free_list_id := free_list_id\<rparr>;
       let hb = fb_store 0 (database_header_bytes header) (fileBuffer_clear (header_buffer m1));
       let (rc, hb, f) = fileBuffer_write hb (file_handle m1)
                           (if active_header m1 = 1 then HEADER_SIZE else HEADER_SIZE * 2);
       let f = (case fileHandle_sync (Some f) of Some f' \<Rightarrow> f' | None \<Rightarrow> f);
       Some (m1\<lparr>header_buffer := hb, active_header := 1 - active_header m1, meta_block := dh_meta_block header,
                file_handle := f, free_list := used_blocks m1, used_blocks := SLICE (em_mem m1) 8 0\<rparr>)
     }"

section \<open>Opening a file\<close>

fun read_free_ids ::
  "nat \<Rightarrow> SingleFileExtentManager \<times> MetaBlockReader \<Rightarrow> (SingleFileExtentManager \<times> MetaBlockReader) option" where
  "read_free_ids 0 mr = Some mr"
| "read_free_ids (Suc n) mr =
     do {
       (block_id, m, r) \<leftarrow> (DESERIALIZER_READ_TYPE single_file_block_manager_vtable mr :: (block_id_t \<times> _) option);
       read_free_ids n (m\<lparr>free_list := push_block_id (em_mem m) (free_list m) block_id\<rparr>, r)
     }"

definition initialize_manager :: "SingleFileExtentManager \<Rightarrow> DatabaseHeader \<Rightarrow> SingleFileExtentManager option" where
  "initialize_manager m header =
     do {
       m' \<leftarrow> (if dh_free_list_id header \<noteq> INVALID_BLOCK
               then do {
                 mr \<leftarrow> MetaBlockReader_init (em_mem m) single_file_block_manager_vtable m (dh_free_list_id header);
                 (free_list_count, m1, r) \<leftarrow>
                   (DESERIALIZER_READ_TYPE single_file_block_manager_vtable mr :: (u64 \<times> _) option);
                 let m2 = m1\<lparr>free_list := (case snd (slice_reserve (em_mem m1) (Some (free_list m1)) free_list_count) of
                                             Some s \<Rightarrow> s | None \<Rightarrow> free_list m1)\<rparr>;
                 mr3 \<leftarrow> read_free_ids (unat free_list_count) (m2, r);
                 Some (fst mr3)
               }
               else Some m);
       Some (m'\<lparr>meta_block := dh_meta_block header, iteration_count := dh_iteration header,
                max_block := dh_block_count header\<rparr>)
     }"

text \<open>
  \<^verbatim>\<open>create_new_database\<close>. \<open>opened\<close> is what \<^verbatim>\<open>fopen\<close> finds at the path, if it can open it; the mode
  \<^verbatim>\<open>w+b\<close> truncates it. \<open>M\<close> serves the allocations of the call and of the manager it returns.
\<close>

definition fresh_manager :: "allocator \<Rightarrow> bytes \<Rightarrow> FileBuffer \<Rightarrow> FILE \<Rightarrow> SingleFileExtentManager" where
  "fresh_manager M path hb f =
     \<lparr>active_header = 0, file_path = path, file_handle = f, header_buffer = hb,
      free_list = SLICE M 8 0, used_blocks = SLICE M 8 0, max_block = 0, meta_block = 0,
      iteration_count = 0, em_mem = M\<rparr>"

definition write_initial_headers :: "SingleFileExtentManager \<Rightarrow> SingleFileExtentManager" where
  "write_initial_headers m =
     (let hb = fb_store 0 (master_header_bytes \<lparr>mh_magic = MAGIC_NUMBER, mh_version = VERSION_NUMBER, mh_flags = [0, 0, 0, 0]\<rparr>)
                 (fileBuffer_clear (header_buffer m));
          (rc, hb, f) = fileBuffer_write hb (file_handle m) 0;
          hb = fb_store 0 (database_header_bytes \<lparr>dh_iteration = 0, dh_meta_block = INVALID_BLOCK,
                             dh_free_list_id = INVALID_BLOCK, dh_block_count = 0\<rparr>) (fileBuffer_clear hb);
          (rc, hb, f) = fileBuffer_write hb f HEADER_SIZE;
          hb = fb_store 0 (word_bytes (1 :: u64)) hb;
          (rc, hb, f) = fileBuffer_write hb f (HEADER_SIZE * 2);
          f = (case fileHandle_sync (Some f) of Some f' \<Rightarrow> f' | None \<Rightarrow> f)
      in m\<lparr>header_buffer := hb, file_handle := f, active_header := 1, max_block := 0,
           meta_block := INVALID_BLOCK, iteration_count := 1\<rparr>)"

definition open_existing :: "SingleFileExtentManager \<Rightarrow> SingleFileExtentManager option option" where
  "open_existing m =
     (let (rc, hb, f) = fileBuffer_read (header_buffer m) (file_handle m) 0
      in if bytes_master_version (fb_payload hb) \<noteq> VERSION_NUMBER then Some None
         else let (rc, hb, f) = fileBuffer_read hb f HEADER_SIZE;
                  db_header1 = bytes_database_header (fb_payload hb);
                  (rc, hb, f) = fileBuffer_read hb f (HEADER_SIZE * 2);
                  db_header2 = bytes_database_header (fb_payload hb);
                  m' = m\<lparr>header_buffer := hb, file_handle := f\<rparr>
              in if dh_iteration db_header1 > dh_iteration db_header2
                 then map_option Some (initialize_manager (m'\<lparr>active_header := 0\<rparr>) db_header1)
                 else map_option Some (initialize_manager (m'\<lparr>active_header := 1\<rparr>) db_header2))"

definition create_new_database ::
  "allocator \<Rightarrow> bytes \<Rightarrow> FILE option \<Rightarrow> bool \<Rightarrow> SingleFileExtentManager option option" where
  "create_new_database M path opened create_new =
     (if \<not> alloc_ok M then Some None
      else (case FileBuffer_create M HEADER_SIZE of
              None \<Rightarrow> Some None
            | Some hb \<Rightarrow>
                (case opened of
                   None \<Rightarrow> Some None
                 | Some f0 \<Rightarrow>
                     if create_new
                     then Some (Some (write_initial_headers (fresh_manager M path hb (f0\<lparr>fl_data := [], fl_pos := 0\<rparr>))))
                     else open_existing (fresh_manager M path hb (f0\<lparr>fl_pos := 0\<rparr>)))))"

text \<open>
  Releasing a manager: its file is closed, and of the manager nothing remains but what the file
  leaves on the medium. (A manager of the model always has a file handle.)
\<close>

definition destory_single_manager :: "SingleFileExtentManager option \<Rightarrow> FILE option" where
  "destory_single_manager manager = (case manager of None \<Rightarrow> None | Some m \<Rightarrow> file_free (Some (file_handle m)))"

definition single_file_block_manager_destroy :: "SingleFileExtentManager option \<Rightarrow> FILE option" where
  "single_file_block_manager_destroy self = destory_single_manager self"

lemma destroy_leaves_file:
  "\<exists>f. single_file_block_manager_destroy (Some m) = Some f \<and> fl_flushed f = fl_data (file_handle m)"
  by (simp add: single_file_block_manager_destroy_def destory_single_manager_def file_free_def fflush_def)

section \<open>The free-list block\<close>

lemma deinit_file:
  assumes m: "em_inv m" "em_addressable m (blk_id b)" and w: "writer_holds w b bs" "bs \<noteq> []"
    and headers: "12288 \<le> length (fl_data (file_handle m))"
  shows "\<exists>m' w' pad. metaBlockWriter_deinit single_file_block_manager_vtable m w = Some (m', w') \<and> em_inv m' \<and>
     m' = m\<lparr>file_handle := file_handle m'\<rparr> \<and> fl_space (file_handle m') = fl_space (file_handle m) \<and>
     length (fl_data (file_handle m)) \<le> length (fl_data (file_handle m')) \<and>
     take 12288 (fl_data (file_handle m')) = take 12288 (fl_data (file_handle m)) \<and>
     block_chain (em_content m') (em_addressable m') (blk_id b) [bs @ pad] \<and>
     (\<exists>mem. length mem = 8192 \<and> fl_data (file_handle m') = file_put (block_offset (blk_id b)) mem (fl_data (file_handle m)))"
proof -
  from single_file.flush_ok [OF m(1) w m(2)] obtain m' w' pad where
    f: "metaBlockWriter_flush single_file_block_manager_vtable m w = Some (m', w')" "em_inv m'"
       "block_chain (em_content m') (em_addressable m') (blk_id b) [bs @ pad]"
    by blast
  have h: "mw_block w = Some b" "block_ok b" "mw_offset w > SIZEOF_block_id_t"
    using w by (simp_all add: writer_holds_def u64_ord)
  obtain b' where wr: "single_file_block_manager_write m b = (m', b')"
    using f(1) h by (auto simp: metaBlockWriter_flush_def split: prod.splits)
  note l = em_write_ok [OF m h(2) wr]
  have "mem_read 0 12288 (fl_data (file_handle m')) = mem_read 0 12288 (fl_data (file_handle m))"
    using l headers file_put_read_disjoint [of 0 12288 "block_offset (blk_id b)"] by (simp add: block_offset_def)
  moreover have "length (fl_data (file_handle m)) \<le> length (fl_data (file_handle m'))"
    using l by (simp add: length_file_put)
  ultimately show ?thesis
    using f l by (auto simp: metaBlockWriter_deinit_def mem_read_def simp del: block_chain.simps)
qed

lemma write_used_blocks_ok:
  assumes s: "id_slice (used_blocks m)" and w: "writer_holds w b bs"
    and i: "unat i + n = unat (sl_size (used_blocks m))" and fit: "8 + length bs + 8 * n \<le> 8184"
  shows "\<exists>w' b'. write_used_blocks n i (m, w) = Some (m, w') \<and>
     writer_holds w' b' (bs @ concat (drop (unat i) (slice_elems (used_blocks m)))) \<and> blk_id b' = blk_id b"
  using assms(2-)
proof (induction n arbitrary: i w b bs)
  case 0
  then show ?case by auto
next
  case (Suc n)
  let ?s = "used_blocks m" and ?e = "slice_elem (used_blocks m) (unat i)"
  have inv: "slice_inv ?s" "sl_element_size ?s = 8" using s by (simp_all add: id_slice_def)
  from inv(1) obtain d where d: "sl_data ?s = Some d" "length d = unat (sl_capacity ?s) * unat (sl_element_size ?s)"
      "unat (sl_size ?s) \<le> unat (sl_capacity ?s)" by (rule slice_invE)
  have lt: "unat i < unat (sl_size ?s)" using Suc.prems(2) by simp
  have i1: "unat (i + 1) = Suc (unat i)"
    using lt unat_lt_2p64 [of "sl_size ?s"] by (intro unat_inc_u64) linarith
  have get: "slice_get (Some ?s) i = Some (slice_get_ptr ?s i)" using lt by (simp add: slice_get_def u64_ord)
  have ld: "slice_load (slice_get_ptr ?s i) 8 ?s = ?e"
    using slice_copy_out_elem [OF inv(1), of i] lt d(3) inv(2) by (simp add: slice_copy_out_def)
  have len: "length ?e = unat (8 :: usize)"
    using length_slice_elem [OF inv(1), of "unat i"] lt d(3) inv(2) by simp
  from single_file.write_data_fits [OF Suc.prems(1) len, of m] Suc.prems(3) obtain w1 b1 where
    w1: "metaBlockWriter_write_data single_file_block_manager_vtable m w ?e 8 = Some (m, w1)"
        "writer_holds w1 b1 (bs @ ?e)" "blk_id b1 = blk_id b"
    using len by auto
  have "unat (i + 1) + n = unat (sl_size ?s)" "8 + length (bs @ ?e) + 8 * n \<le> 8184"
    using Suc.prems(2,3) len by (simp_all add: i1)
  from Suc.IH [OF w1(2) this] obtain w' b' where
    "write_used_blocks n (i + 1) (m, w1) = Some (m, w')"
    "writer_holds w' b' ((bs @ ?e) @ concat (drop (unat (i + 1)) (slice_elems ?s)))" "blk_id b' = blk_id b1"
    by blast
  moreover have "concat (drop (unat i) (slice_elems ?s)) = ?e @ concat (drop (unat (i + 1)) (slice_elems ?s))"
    using lt by (simp add: i1 Cons_nth_drop_Suc [symmetric])
  ultimately show ?case using w1 get ld by auto
qed

text \<open>A list of blocks is stored on the medium: a count followed by the ids, in the given block.\<close>

definition free_list_stored :: "SingleFileExtentManager \<Rightarrow> block_id_t \<Rightarrow> Slice \<Rightarrow> bool" where
  "free_list_stored m fid s \<longleftrightarrow>
     (if block_ids s = [] then fid = INVALID_BLOCK
      else \<exists>pad. block_chain (em_content m) (em_addressable m) fid
             [(word_bytes (sl_size s) @ concat (slice_elems s)) @ pad])"

text \<open>
  With at most 1021 used blocks the list fits one block.
\<close>

lemma write_free_list_ok:
  assumes m: "em_inv m" "alloc_ok (em_mem m)" "12288 \<le> length (fl_data (file_handle m))"
    and n: "unat (sl_size (used_blocks m)) \<le> 1021"
    and fits: "em_addressable m (fst (single_file_block_manager_get_free_block_id m))"
  shows "\<exists>fid m1. write_free_list m = Some (fid, m1) \<and> em_inv m1 \<and>
     m1 = m\<lparr>file_handle := file_handle m1, free_list := free_list m1, max_block := max_block m1\<rparr> \<and>
     fl_space (file_handle m1) = fl_space (file_handle m) \<and>
     length (fl_data (file_handle m)) \<le> length (fl_data (file_handle m1)) \<and>
     take 12288 (fl_data (file_handle m1)) = take 12288 (fl_data (file_handle m)) \<and>
     (block_ids (used_blocks m) \<noteq> [] \<longrightarrow> fid = fst (single_file_block_manager_get_free_block_id m)) \<and>
     free_list_stored m1 fid (used_blocks m) \<and>
     (if block_ids (used_blocks m) = [] then m1 = m
      else max_block m1 = max_block (snd (single_file_block_manager_get_free_block_id m)) \<and>
           free_list m1 = free_list (snd (single_file_block_manager_get_free_block_id m)) \<and>
           (\<exists>mem. length mem = 8192 \<and> fl_data (file_handle m1) = file_put (block_offset fid) mem (fl_data (file_handle m))))"
proof (cases "block_ids (used_blocks m) = []")
  case True
  then have "sl_size (used_blocks m) = 0" using length_block_ids [of "used_blocks m"] by (simp add: unat_eq_zero)
  then show ?thesis using m True by (simp add: write_free_list_def free_list_stored_def)
next
  case False
  let ?s = "used_blocks m"
  obtain bo m1 where c: "single_file_block_manager_create_block m = (bo, m1)" by fastforce
  from create_block_ok [OF m(1) c] m(2) obtain b i where
    b: "bo = Some b" "single_file_block_manager_get_free_block_id m = (i, m1)" "blk_id b = i" by blast
  note g = get_free_block_id_ok [OF m(1) b(2)]
  have used1: "used_blocks m1 = ?s" "file_handle m1 = file_handle m" using g by simp_all
  from single_file.writer_init_ok [of m b m1] m(1) c b(1) obtain w where
    w: "MetaBlockWriter_init single_file_block_manager_vtable m = (m1, w)" "writer_holds w b []" by auto
  have l8: "length (word_bytes (sl_size ?s)) = unat (of_nat (length (word_bytes (sl_size ?s))) :: usize)" by simp
  from single_file.write_data_fits [OF w(2) l8, of m1] obtain w2 b2 where
    w2: "SERIALIZER_WRITE_TYPE single_file_block_manager_vtable (m1, w) (sl_size ?s) = Some (m1, w2)"
        "writer_holds w2 b2 (word_bytes (sl_size ?s))" "blk_id b2 = i"
    using b(3) by (auto simp: SERIALIZER_WRITE_TYPE_def)
  have "id_slice (used_blocks m1)" using m(1) by (simp add: used1 em_inv_def)
  from write_used_blocks_ok [OF this w2(2), of 0 "unat (sl_size ?s)"] n w2(3) obtain w3 b3 where
    w3: "write_used_blocks (unat (sl_size ?s)) 0 (m1, w2) = Some (m1, w3)"
        "writer_holds w3 b3 (word_bytes (sl_size ?s) @ concat (slice_elems ?s))" "blk_id b3 = i"
    by (auto simp: used1)
  have adr: "em_addressable m1 (blk_id b3)" using fits g by (simp add: w3(3) b(2) em_addressable_def)
  have ne: "word_bytes (sl_size ?s) @ concat (slice_elems ?s) \<noteq> []"
    using length_word_bytes [of "sl_size ?s"] by fastforce
  from deinit_file [OF _ adr w3(2) ne] g m(3) obtain m4 w4 pad where
    d: "metaBlockWriter_deinit single_file_block_manager_vtable m1 w3 = Some (m4, w4)" "em_inv m4"
       "m4 = m1\<lparr>file_handle := file_handle m4\<rparr>" "fl_space (file_handle m4) = fl_space (file_handle m1)"
       "length (fl_data (file_handle m1)) \<le> length (fl_data (file_handle m4))"
       "take 12288 (fl_data (file_handle m4)) = take 12288 (fl_data (file_handle m1))"
       "block_chain (em_content m4) (em_addressable m4) i [(word_bytes (sl_size ?s) @ concat (slice_elems ?s)) @ pad]"
       "\<exists>mem. length mem = 8192 \<and> fl_data (file_handle m4) = file_put (block_offset i) mem (fl_data (file_handle m1))"
    by (auto simp: w3(3) simp del: block_chain.simps)
  have pos: "sl_size ?s > 0" using False by (simp add: u64_ord length_block_ids [symmetric] del: length_block_ids)
  have mw: "mw_block w = Some b" using w(2) by (simp add: writer_holds_def)
  have "write_free_list m = Some (i, m4)"
    using pos w(1) mw w2(1) w3(1) d(1) b(3) by (simp add: write_free_list_def used1)
  moreover have "m4 = m\<lparr>file_handle := file_handle m4, free_list := free_list m4, max_block := max_block m4\<rparr>"
  proof -
    from d(3) obtain f4 where "m4 = m1\<lparr>file_handle := f4\<rparr>" by blast
    moreover from g obtain fl mb where "m1 = m\<lparr>free_list := fl, max_block := mb\<rparr>" by blast
    ultimately show ?thesis by simp
  qed
  moreover from d(3) obtain f4 where "m4 = m1\<lparr>file_handle := f4\<rparr>" by blast
  then have "max_block m4 = max_block m1" "free_list m4 = free_list m1" by simp_all
  ultimately show ?thesis
    using d False b(2) by (auto simp: used1 free_list_stored_def simp del: block_chain.simps)
qed

section \<open>The two headers\<close>

text \<open>Where the active header lies, and the header that is stored at an offset.\<close>

definition header_slot :: "u8 \<Rightarrow> nat" where
  "header_slot a = (if a = 1 then 8192 else 4096)"

definition disk_header :: "SingleFileExtentManager \<Rightarrow> nat \<Rightarrow> DatabaseHeader" where
  "disk_header m off = bytes_database_header (mem_read (off + 8) 4088 (fl_data (file_handle m)))"

definition db_inv :: "SingleFileExtentManager \<Rightarrow> bool" where
  "db_inv m \<longleftrightarrow> em_inv m \<and> 12288 \<le> length (fl_data (file_handle m)) \<and>
     bytes_master_version (mem_read 8 4088 (fl_data (file_handle m))) = VERSION_NUMBER \<and>
     (active_header m = 0 \<or> active_header m = 1) \<and>
     dh_iteration (disk_header m (header_slot (active_header m))) = iteration_count m \<and>
     dh_meta_block (disk_header m (header_slot (active_header m))) = meta_block m \<and>
     dh_iteration (disk_header m (header_slot (1 - active_header m))) < iteration_count m"

lemma bytes_database_header_roundtrip [simp]:
  "bytes_database_header (database_header_bytes h @ rest) = h"
  by (simp add: bytes_database_header_def database_header_bytes_def mem_read_def)

lemma length_database_header_bytes [simp]: "length (database_header_bytes h) = 32"
  by (simp add: database_header_bytes_def)

lemma fileBuffer_clear_ok:
  assumes "fb_inv fb"
  shows "fb_inv (fileBuffer_clear fb) \<and> fb_internal_size (fileBuffer_clear fb) = fb_internal_size fb \<and>
         fb_payload (fileBuffer_clear fb) = replicate (unat (fb_size fb)) 0"
  using assms fb_size_nat [OF assms]
  by (simp add: fileBuffer_clear_def fb_inv_def fb_payload_def mem_write_def)

text \<open>A header buffer that starts with some bytes.\<close>

lemma header_buffer_store:
  assumes "fb_inv fb" "fb_internal_size fb = HEADER_SIZE" "length bs \<le> 4088"
  shows "fb_inv (fb_store 0 bs (fileBuffer_clear fb)) \<and>
         fb_internal_size (fb_store 0 bs (fileBuffer_clear fb)) = HEADER_SIZE \<and>
         fb_payload (fb_store 0 bs (fileBuffer_clear fb)) = bs @ replicate (4088 - length bs) 0"
proof -
  note c = fileBuffer_clear_ok [OF assms(1)]
  have sz: "unat (fb_size fb) = 4088" "unat (fb_size (fileBuffer_clear fb)) = 4088"
    using assms(1,2) c fb_size_nat [of fb] fb_size_nat [of "fileBuffer_clear fb"] by (auto simp: fb_inv_def)
  show ?thesis
    using fb_store_inv [of "fileBuffer_clear fb" 0 bs] c assms(2,3) sz by (simp add: mem_write_def)
qed

text \<open>Writing a header touches its own slot only.\<close>

lemma header_write_ok:
  assumes f: "file_inv f" "12288 \<le> fl_space f" and hb: "fb_inv hb" "fb_internal_size hb = HEADER_SIZE"
    and loc: "unat loc = 0 \<or> unat loc = 4096 \<or> unat loc = 8192"
  obtains hb' f' where "fileBuffer_write hb f loc = (0, hb', f')" "fb_inv hb'" "fb_internal_size hb' = HEADER_SIZE"
    "fb_payload hb' = fb_payload hb"
    "file_inv f'" "fl_space f' = fl_space f" "length (fl_data f') = max (length (fl_data f)) (unat loc + 4096)"
    "mem_read (unat loc + 8) 4088 (fl_data f') = fb_payload hb"
    "\<And>p n. p + n \<le> length (fl_data f) \<Longrightarrow> p + n \<le> unat loc \<or> unat loc + 4096 \<le> p \<Longrightarrow>
       mem_read p n (fl_data f') = mem_read p n (fl_data f)"
proof -
  have "file_fits f loc (fb_internal_size hb)" using f(2) loc by (auto simp: file_fits_def hb(2))
  from fileBuffer_write_ok [OF hb(1) f(1) this] obtain hb' f' where
    w: "fileBuffer_write hb f loc = (0, hb', f')" "fb_inv hb'" "fb_payload hb' = fb_payload hb"
       "fb_internal_size hb' = fb_internal_size hb"
       "fl_data f' = file_put (unat loc) (fb_mem hb') (fl_data f)" "file_inv f'" "fl_space f' = fl_space f"
    by blast
  have len: "length (fb_mem hb') = 4096" using w(2,4) hb(2) by (simp add: fb_inv_def)
  show thesis
  proof (rule that [OF w(1)])
    have "mem_read (unat loc + 8) 4088 (fl_data f') = drop 8 (mem_read (unat loc) (length (fb_mem hb')) (fl_data f'))"
      by (simp add: drop_mem_read len)
    also have "\<dots> = fb_payload hb" unfolding w(5) file_put_read_same using w(3) by (simp add: fb_payload_def)
    finally show "mem_read (unat loc + 8) 4088 (fl_data f') = fb_payload hb" .
    show "length (fl_data f') = max (length (fl_data f)) (unat loc + 4096)"
      using len by (auto simp: w(5) length_file_put)
    show "mem_read p n (fl_data f') = mem_read p n (fl_data f)"
      if "p + n \<le> length (fl_data f)" "p + n \<le> unat loc \<or> unat loc + 4096 \<le> p" for p n
      using that len unfolding w(5) by (intro file_put_read_disjoint) auto
  qed (use w hb in simp_all)
qed

lemma em_content_cong:
  assumes "length (fl_data (file_handle m')) = length (fl_data (file_handle m))"
    and "\<And>p n. p + n \<le> length (fl_data (file_handle m)) \<Longrightarrow> 12288 \<le> p \<Longrightarrow>
      mem_read p n (fl_data (file_handle m')) = mem_read p n (fl_data (file_handle m))"
  shows "em_content m' = em_content m"
  using assms by (simp add: em_content_def block_offset_def fun_eq_iff)

lemma em_content_put:
  assumes "fl_data (file_handle m') = file_put (block_offset i) mem (fl_data (file_handle m))" "length mem = 8192"
    and "j \<noteq> i" "em_content m j = Some d"
  shows "em_content m' j = Some d"
  using assms(2,4) block_offsets_disjoint [OF assms(3)]
    file_put_read_disjoint [of "block_offset j + 8" 8184 "block_offset i" mem "fl_data (file_handle m)"]
  by (auto simp: em_content_def length_file_put assms(1) split: if_splits)

lemma free_list_stored_cong:
  assumes "em_content m' = em_content m" "fl_space (file_handle m') = fl_space (file_handle m)"
  shows "free_list_stored m' = free_list_stored m"
proof -
  have "em_addressable m' = em_addressable m" using assms(2) by (simp add: em_addressable_def fun_eq_iff)
  then show ?thesis by (intro ext) (simp only: free_list_stored_def assms(1))
qed

lemma SLICE_ids:
  assumes "alloc_ok M"
  shows "id_slice (SLICE M 8 0)" "block_ids (SLICE M 8 0) = []" "slice_room M 100000 (SLICE M 8 0)"
  using assms
  by (simp_all add: SLICE_def slice_init_def c_malloc_def PTRDIFF_LIMIT_def slice_inv_def id_slice_def
      block_ids_def slice_elems_def SLICE_DEFAULT_CAPACITY_def slice_room_def)

lemma slot_flip:
  assumes "a = 0 \<or> a = (1 :: u8)"
  shows "unat (if a = 1 then HEADER_SIZE else HEADER_SIZE * 2) = header_slot (1 - a)"
    "header_slot a = 4096 \<and> header_slot (1 - a) = 8192 \<or> header_slot a = 8192 \<and> header_slot (1 - a) = 4096"
    "1 - (1 - a) = a" "1 - a = 0 \<or> 1 - a = 1"
  using assms by (auto simp: header_slot_def HEADER_SIZE_def)

lemma write_header_ok:
  assumes db: "db_inv m" "alloc_ok (em_mem m)" and n: "unat (sl_size (used_blocks m)) \<le> 1021"
    and fits: "em_addressable m (fst (single_file_block_manager_get_free_block_id m))"
    and iter: "unat (iteration_count m) + 1 < 2 ^ 64"
  shows "\<exists>fid m'. single_file_block_manager_write_header m h = Some m' \<and> db_inv m' \<and>
     active_header m' = 1 - active_header m \<and>
     disk_header m' (header_slot (active_header m')) =
       h\<lparr>dh_iteration := iteration_count m + 1, dh_free_list_id := fid, dh_block_count := max_block m\<rparr> \<and>
     disk_header m' (header_slot (active_header m)) = disk_header m (header_slot (active_header m)) \<and>
     block_ids (free_list m') = block_ids (used_blocks m) \<and> block_ids (used_blocks m') = [] \<and>
     iteration_count m' = iteration_count m + 1 \<and> em_mem m' = em_mem m \<and>
     fl_flushed (file_handle m') = fl_data (file_handle m') \<and> free_list_stored m' fid (used_blocks m) \<and>
     (block_ids (used_blocks m) \<noteq> [] \<longrightarrow> fid = fst (single_file_block_manager_get_free_block_id m)) \<and>
     max_block m' = (if block_ids (used_blocks m) = [] then max_block m
                     else max_block (snd (single_file_block_manager_get_free_block_id m))) \<and>
     (\<forall>j d. j \<noteq> fid \<longrightarrow> em_content m j = Some d \<longrightarrow> em_content m' j = Some d) \<and>
     fl_space (file_handle m') = fl_space (file_handle m)"
proof -
  let ?m = "m\<lparr>iteration_count := iteration_count m + 1\<rparr>" and ?a = "active_header m"
  have em: "em_inv m" and long: "12288 \<le> length (fl_data (file_handle m))" and a: "?a = 0 \<or> ?a = 1"
    using db(1) by (simp_all add: db_inv_def)
  note sl = slot_flip [OF a]
  have g: "fst (single_file_block_manager_get_free_block_id ?m) = fst (single_file_block_manager_get_free_block_id m)"
    and g': "max_block (snd (single_file_block_manager_get_free_block_id ?m)) =
      max_block (snd (single_file_block_manager_get_free_block_id m))"
    by (auto simp: single_file_block_manager_get_free_block_id_def split: prod.splits option.splits)
  have m: "em_inv ?m" "alloc_ok (em_mem ?m)" "12288 \<le> length (fl_data (file_handle ?m))"
      "unat (sl_size (used_blocks ?m)) \<le> 1021" "em_addressable ?m (fst (single_file_block_manager_get_free_block_id ?m))"
    using em db(2) n long fits g by (simp_all add: em_inv_def em_addressable_def)
  from write_free_list_ok [OF m] obtain fid m1 where
    fl: "write_free_list ?m = Some (fid, m1)" "em_inv m1"
        "m1 = ?m\<lparr>file_handle := file_handle m1, free_list := free_list m1, max_block := max_block m1\<rparr>"
        "fl_space (file_handle m1) = fl_space (file_handle m)"
        "length (fl_data (file_handle m)) \<le> length (fl_data (file_handle m1))"
        "take 12288 (fl_data (file_handle m1)) = take 12288 (fl_data (file_handle m))"
        "free_list_stored m1 fid (used_blocks m)"
        "block_ids (used_blocks m) \<noteq> [] \<longrightarrow> fid = fst (single_file_block_manager_get_free_block_id m)"
    by (auto simp: g)
  from write_free_list_ok [OF m] fl(1) have "if block_ids (used_blocks m) = [] then m1 = ?m
      else max_block m1 = max_block (snd (single_file_block_manager_get_free_block_id ?m)) \<and>
           (\<exists>mem. length mem = 8192 \<and> fl_data (file_handle m1) = file_put (block_offset fid) mem (fl_data (file_handle ?m)))"
    by (elim exE conjE) (simp split: if_splits)
  then have mb: "max_block m1 = (if block_ids (used_blocks m) = [] then max_block m
      else max_block (snd (single_file_block_manager_get_free_block_id m)))"
    and put: "m1 = ?m \<or> (\<exists>mem. length mem = 8192 \<and>
      fl_data (file_handle m1) = file_put (block_offset fid) mem (fl_data (file_handle m)))"
    by (simp_all add: g' split: if_splits)
  obtain f1 l1 b1 where m1: "m1 = ?m\<lparr>file_handle := f1, free_list := l1, max_block := b1\<rparr>" using fl(3) by blast
  let ?h = "h\<lparr>dh_iteration := iteration_count m + 1, dh_block_count := max_block m, dh_free_list_id := fid\<rparr>"
  let ?hb = "fb_store 0 (database_header_bytes ?h) (fileBuffer_clear (header_buffer m))"
  have hb: "fb_inv ?hb" "fb_internal_size ?hb = HEADER_SIZE" "fb_payload ?hb = database_header_bytes ?h @ replicate 4056 0"
    using header_buffer_store [of "header_buffer m" "database_header_bytes ?h"] em by (simp_all add: em_inv_def)
  let ?loc = "if ?a = 1 then HEADER_SIZE else HEADER_SIZE * 2"
  have f1: "file_inv f1" "12288 \<le> fl_space f1" "12288 \<le> length (fl_data f1)" "id_slice l1"
    using fl(2,4,5) m1 long em by (auto simp: em_inv_def file_inv_def)
  have loc: "unat ?loc = 0 \<or> unat ?loc = 4096 \<or> unat ?loc = 8192" using sl by auto
  obtain hb' f' where w: "fileBuffer_write ?hb f1 ?loc = (0, hb', f')" "fb_inv hb'" "fb_internal_size hb' = HEADER_SIZE"
    "file_inv f'" "fl_space f' = fl_space f1" "length (fl_data f') = max (length (fl_data f1)) (unat ?loc + 4096)"
    "mem_read (unat ?loc + 8) 4088 (fl_data f') = fb_payload ?hb"
    "\<And>p n. p + n \<le> length (fl_data f1) \<Longrightarrow> p + n \<le> unat ?loc \<or> unat ?loc + 4096 \<le> p \<Longrightarrow>
       mem_read p n (fl_data f') = mem_read p n (fl_data f1)"
    using header_write_ok [OF f1(1,2) hb(1,2) loc] by metis
  let ?m' = "m1\<lparr>header_buffer := hb', active_header := 1 - ?a, meta_block := dh_meta_block h,
                file_handle := f'\<lparr>fl_flushed := fl_data f'\<rparr>, free_list := used_blocks m, used_blocks := SLICE (em_mem m) 8 0\<rparr>"
  have res: "single_file_block_manager_write_header m h = Some ?m'"
    using fl(1) w(1) by (simp add: single_file_block_manager_write_header_def m1 fileHandle_sync_def file_sync_def
        fflush_def Let_def)
  have keep: "mem_read p k (fl_data f') = mem_read p k (fl_data (file_handle m))"
    if "p + k \<le> 12288" "p + k \<le> unat ?loc \<or> unat ?loc + 4096 \<le> p" for p k
    using that w(8) [of p k] f1(3) fl(6) m1 take_eq_imp_mem_read_eq [of 12288 "fl_data f1" "fl_data (file_handle m)" p k]
    by simp
  have new: "disk_header ?m' (header_slot (1 - ?a)) = ?h"
    using w(7) by (simp add: disk_header_def sl(1) hb(3))
  have old: "disk_header ?m' (header_slot ?a) = disk_header m (header_slot ?a)"
    using keep [of "header_slot ?a + 8" 4088] sl(1,2) by (auto simp: disk_header_def)
  have master: "mem_read 8 4088 (fl_data f') = mem_read 8 4088 (fl_data (file_handle m))"
    using keep [of 8 4088] sl(1,2) by auto
  have em': "em_inv ?m'"
    using em w f1 SLICE_ids(1) [OF db(2)] by (simp add: em_inv_def m1 file_inv_def)
  have len: "length (fl_data f') = length (fl_data f1)" using w(6) loc f1(3) by auto
  have cont: "em_content ?m' = em_content m1"
    using w(8) loc by (intro em_content_cong) (auto simp: len m1)
  have kept: "em_content ?m' j = Some d" if "j \<noteq> fid" "em_content m j = Some d" for j d
    unfolding cont using put
  proof
    assume "m1 = ?m"
    then show "em_content m1 j = Some d" using that(2) by (auto simp: em_content_def split: if_splits)
  qed (use em_content_put that in blast)
  from cont have stored: "free_list_stored ?m' fid (used_blocks m)"
    using fl(7) free_list_stored_cong [of ?m' m1] w(5) m1 by simp
  have lt: "iteration_count m < iteration_count m + 1" using iter by (simp add: u64_ord unat_inc_u64)
  have "db_inv ?m'"
    using em' len f1(3) master db(1) new old sl(3,4) lt by (simp add: db_inv_def m1)
  then show ?thesis
    using res new old stored fl(8) mb kept w(5) fl(4) SLICE_ids(2) [OF db(2)] by (intro exI [of _ fid] exI [of _ ?m']) (simp add: m1)
qed

section \<open>Reading the free list back\<close>

lemma reserve_ids:
  assumes s: "id_slice s" and room: "slice_room M k s" and n: "unat n * 8 < PTRDIFF_LIMIT"
  shows "\<exists>s'. snd (slice_reserve M (Some s) n) = Some s' \<and> id_slice s' \<and> block_ids s' = block_ids s \<and> slice_room M k s'"
proof -
  obtain rc so where r: "slice_reserve M (Some s) n = (rc, so)" by fastforce
  have inv: "slice_inv s" "sl_element_size s = 8" using s by (simp_all add: id_slice_def)
  show ?thesis
  proof (cases "rc = 0")
    case True
    have "unat (sl_element_size s) * unat n < PTRDIFF_LIMIT" using n inv(2) by (simp add: mult.commute)
    from slice_reserve_ok [OF inv(1) this r [unfolded True]] obtain s' where
      s': "so = Some s'" "slice_inv s'" "slice_elems s' = slice_elems s" "sl_size s' = sl_size s"
          "sl_element_size s' = sl_element_size s" by blast
    have "sl_capacity s' = sl_capacity s \<or> sl_capacity s' = n"
      using r s'(1) by (auto simp: slice_reserve_def split: if_splits option.splits)
    then have "slice_room M k s'"
      using room n inv(2) by (auto simp: slice_room_def s'(4,5) max_def split: if_splits)
    then show ?thesis using r s' inv by (simp add: id_slice_def block_ids_def)
  next
    case False
    then have "so = Some s" using r by (auto simp: slice_reserve_def split: if_splits option.splits)
    then show ?thesis using r s room by simp
  qed
qed

text \<open>A read inside the current block leaves the manager alone.\<close>

lemma read_type_fits:
  assumes "block_ok (mr_block r)" "unat (mr_offset r) + 8 \<le> 8184"
  shows "DESERIALIZER_READ_TYPE vt (m, r) =
     Some (bytes_word (mem_read (unat (mr_offset r)) 8 (fb_payload (blk_fb (mr_block r)))) :: u64, m,
           r\<lparr>mr_offset := mr_offset r + 8\<rparr>)"
proof -
  have "unat (mr_offset r + 8) = unat (mr_offset r) + 8" using assms(2) by (subst unat_add_u64) simp_all
  then have "\<not> mr_offset r + 8 > fb_size (blk_fb (mr_block r))"
    using block_ok_size [OF assms(1)] assms(2) by (simp add: u64_ord)
  then show ?thesis
    unfolding DESERIALIZER_READ_TYPE_def metaBlockReader_read_data_def
    by (subst metaBlockReader_read_loop.simps) (simp add: Let_def)
qed

lemma read_free_ids_ok:
  assumes "id_slice (free_list m)" "slice_room (em_mem m) (length ids) (free_list m)"
    and "block_ok (mr_block r)" "unat (mr_offset r) + 8 * length ids \<le> 8184"
    and "mem_read (unat (mr_offset r)) (8 * length ids) (fb_payload (blk_fb (mr_block r))) = concat (map word_bytes ids)"
  shows "\<exists>s r'. read_free_ids (length ids) (m, r) = Some (m\<lparr>free_list := s\<rparr>, r') \<and> id_slice s \<and>
     block_ids s = block_ids (free_list m) @ ids"
  using assms
proof (induction ids arbitrary: m r)
  case Nil
  then show ?case by (intro exI [of _ "free_list m"]) simp
next
  case (Cons i ids)
  let ?p = "fb_payload (blk_fb (mr_block r))" and ?o = "unat (mr_offset r)"
  have sp: "mem_read ?o 8 ?p @ mem_read (?o + 8) (8 * length ids) ?p = word_bytes i @ concat (map word_bytes ids)"
    using Cons.prems(5) mem_read_append [of ?o 8 "8 * length ids" ?p] by simp
  have l: "length (mem_read ?o 8 ?p) = length (word_bytes i)"
    using Cons.prems(4) block_ok_payload [OF Cons.prems(3)] by (simp add: length_mem_read)
  then have hd: "mem_read ?o 8 ?p = word_bytes i" and tl: "mem_read (?o + 8) (8 * length ids) ?p = concat (map word_bytes ids)"
    using sp by (simp_all add: append_eq_append_conv)
  have o8: "unat (mr_offset r + 8) = ?o + 8" using Cons.prems(4) by (subst unat_add_u64) simp_all
  let ?m = "m\<lparr>free_list := push_block_id (em_mem m) (free_list m) i\<rparr>" and ?r = "r\<lparr>mr_offset := mr_offset r + 8\<rparr>"
  have push: "id_slice (free_list ?m) \<and> block_ids (free_list ?m) = block_ids (free_list m) @ [i] \<and>
      slice_room (em_mem ?m) (length ids) (free_list ?m)"
    using push_block_id_room [OF Cons.prems(1), of "em_mem m" "length ids" i] Cons.prems(2) by simp
  have "\<exists>s r'. read_free_ids (length ids) (?m, ?r) = Some (?m\<lparr>free_list := s\<rparr>, r') \<and> id_slice s \<and>
      block_ids s = block_ids (free_list ?m) @ ids"
    using push Cons.prems(3,4) tl o8 by (intro Cons.IH) simp_all
  then show ?case
    using read_type_fits [OF Cons.prems(3), of single_file_block_manager_vtable m] Cons.prems(4) hd push by auto
qed

lemma initialize_manager_ok:
  assumes m: "em_inv m" "alloc_ok (em_mem m)" "slice_room (em_mem m) 100000 (free_list m)" "block_ids (free_list m) = []"
    and s: "free_list_stored m (dh_free_list_id h) s" "id_slice s" "unat (sl_size s) \<le> 1021"
  shows "\<exists>m'. initialize_manager m h = Some m' \<and> em_inv m' \<and>
     m' = m\<lparr>file_handle := file_handle m', free_list := free_list m', used_blocks := used_blocks m',
            meta_block := dh_meta_block h, iteration_count := dh_iteration h, max_block := dh_block_count h\<rparr> \<and>
     fl_data (file_handle m') = fl_data (file_handle m) \<and> fl_space (file_handle m') = fl_space (file_handle m) \<and>
     block_ids (free_list m') = block_ids s \<and>
     used_blocks m' = (if block_ids s = [] then used_blocks m else push_block_id (em_mem m) (used_blocks m) (dh_free_list_id h))"
proof (cases "block_ids s = []")
  case True
  then have "dh_free_list_id h = INVALID_BLOCK" using s(1) by (simp add: free_list_stored_def)
  then show ?thesis using m True by (simp add: initialize_manager_def em_inv_def)
next
  case False
  let ?i = "dh_free_list_id h" and ?n = "unat (sl_size s)"
  from s(1) False obtain pad d where ch: "em_addressable m ?i" "em_content m ?i = Some d"
      "word_bytes (sl_size s) @ concat (slice_elems s) @ pad = drop 8 d"
    by (auto simp: free_list_stored_def split: option.splits)
  have valid: "?i \<noteq> INVALID_BLOCK"
    using ch(1) m(1) by (auto simp: unat_INVALID_BLOCK em_addressable_def block_offset_def em_inv_def file_inv_def
        PTRDIFF_LIMIT_def)
  have inv: "slice_inv s" "sl_element_size s = 8" using s(2) by (simp_all add: id_slice_def)
  from inv(1) obtain ds where cap: "unat (sl_size s) \<le> unat (sl_capacity s)" by (rule slice_invE)
  have el: "map word_bytes (block_ids s) = slice_elems s"
    unfolding block_ids_def map_map
  proof (rule map_idI)
    fix e assume "e \<in> set (slice_elems s)"
    then obtain k where "k < ?n" "e = slice_elem s k" by (auto simp: slice_elems_def)
    then have "length e = 8" using length_slice_elem [OF inv(1), of k] inv(2) cap by simp
    then show "(word_bytes \<circ> (bytes_word :: bytes \<Rightarrow> block_id_t)) e = e" by (simp add: word_bytes_bytes_word)
  qed
  have lc: "length (concat (slice_elems s)) = 8 * ?n"
    unfolding el [symmetric] by (simp add: length_concat comp_def sum_list_triv)
  from FileBuffer_create_ok [OF m(2), of BLOCK_SIZE] obtain fb where
    fb: "FileBuffer_create (em_mem m) BLOCK_SIZE = Some fb" "fb_internal_size fb = BLOCK_SIZE" "fb_inv fb"
    by (auto simp: PTRDIFF_LIMIT_def)
  let ?b = "\<lparr>blk_id = ?i, blk_fb = fb\<rparr>"
  have bok: "block_ok ?b" using fb by (simp add: block_ok_def)
  obtain m1 b1 where rd: "single_file_block_manager_read m ?b = (m1, b1)" by fastforce
  note r1 = em_read_ok [OF m(1) bok rd]
  have pl: "fb_payload (blk_fb b1) = d" using em_read_content [OF m(1) _ bok rd] ch by simp
  let ?r = "\<lparr>mr_block = b1, mr_offset = 8, mr_next_block_id = bytes_word (mem_read 0 8 (fb_payload (blk_fb b1)))\<rparr>"
  have init: "MetaBlockReader_init (em_mem m) single_file_block_manager_vtable m ?i = Some (m1, ?r)"
    using m(2) fb rd by (simp add: MetaBlockReader_init_def metaBlockReader_read_new_block_def SIZEOF_block_id_t_def)
  have cnt: "mem_read 8 8 d = word_bytes (sl_size s)" and ids: "mem_read 16 (8 * ?n) d = concat (slice_elems s)"
    using ch(3) [symmetric] lc mem_read_drop [of 0 8 8 d] mem_read_drop [of 8 "8 * ?n" 8 d]
    by (simp_all add: mem_read_def)
  have count: "DESERIALIZER_READ_TYPE single_file_block_manager_vtable (m1, ?r) = Some (sl_size s, m1, ?r\<lparr>mr_offset := 16\<rparr>)"
    using read_type_fits [of ?r single_file_block_manager_vtable m1] r1 pl cnt by simp
  have fl1: "free_list m1 = free_list m" "em_mem m1 = em_mem m"
  proof -
    from r1 obtain ub fh where "m1 = m\<lparr>used_blocks := ub, file_handle := fh\<rparr>" by blast
    then show "free_list m1 = free_list m" "em_mem m1 = em_mem m" by simp_all
  qed
  from reserve_ids [of "free_list m" "em_mem m" 100000 "sl_size s"] m s(3) obtain s2 where
    s2: "snd (slice_reserve (em_mem m) (Some (free_list m)) (sl_size s)) = Some s2" "id_slice s2"
        "block_ids s2 = []" "slice_room (em_mem m) 100000 s2"
    by (auto simp: em_inv_def PTRDIFF_LIMIT_def)
  let ?m2 = "m1\<lparr>free_list := s2\<rparr>"
  have room: "slice_room (em_mem m) (length (block_ids s)) s2"
    using s2(4) s(3) by (elim slice_room_mono) simp
  have "\<exists>s3 r3. read_free_ids (length (block_ids s)) (?m2, ?r\<lparr>mr_offset := 16\<rparr>) = Some (?m2\<lparr>free_list := s3\<rparr>, r3) \<and>
      id_slice s3 \<and> block_ids s3 = block_ids (free_list ?m2) @ block_ids s"
    using s2 room r1 s(3) ids pl el fl1 by (intro read_free_ids_ok) simp_all
  then obtain s3 r3 where s3: "read_free_ids ?n (?m2, ?r\<lparr>mr_offset := 16\<rparr>) = Some (m1\<lparr>free_list := s3\<rparr>, r3)"
      "id_slice s3" "block_ids s3 = block_ids s"
    using s2(3) by auto
  let ?m' = "m1\<lparr>free_list := s3, meta_block := dh_meta_block h, iteration_count := dh_iteration h,
      max_block := dh_block_count h\<rparr>"
  have "initialize_manager m h = Some ?m'"
    using valid init count s2(1) s3(1) by (simp add: initialize_manager_def fl1 Let_def)
  moreover have "em_inv ?m'" using r1 [THEN conjunct1] s3(2) by (simp add: em_inv_def)
  moreover from r1 obtain ub fh where "m1 = m\<lparr>used_blocks := ub, file_handle := fh\<rparr>" by blast
  ultimately show ?thesis using r1 s3(3) False by (intro exI [of _ ?m']) simp
qed

section \<open>Opening and creating\<close>

lemma header_read_ok:
  assumes f: "file_inv f" "unat loc + 4096 \<le> length (fl_data f)" and hb: "fb_inv hb" "fb_internal_size hb = HEADER_SIZE"
  obtains rc hb' f' where "fileBuffer_read hb f loc = (rc, hb', f')" "fb_inv hb'" "fb_internal_size hb' = HEADER_SIZE"
    "fb_payload hb' = mem_read (unat loc + 8) 4088 (fl_data f)" "file_inv f'" "fl_data f' = fl_data f"
    "fl_space f' = fl_space f"
proof -
  have l: "unat loc + unat (fb_internal_size hb) \<le> length (fl_data f)" using f(2) hb(2) by simp
  have "unat (fb_size hb) = 4088" using fb_size_nat [OF hb(1)] hb by (simp add: fb_inv_def)
  then show thesis
    using fileBuffer_read_ok [OF hb(1) f(1) l] hb(2) that by metis
qed

lemma fresh_manager_ok:
  assumes "alloc_ok M" "file_inv f" "fb_inv hb" "fb_internal_size hb = HEADER_SIZE"
  shows "em_inv (fresh_manager M path hb f) \<and> block_ids (free_list (fresh_manager M path hb f)) = [] \<and>
     slice_room M 100000 (free_list (fresh_manager M path hb f)) \<and> em_mem (fresh_manager M path hb f) = M"
  using assms SLICE_ids [OF assms(1)] by (simp add: fresh_manager_def em_inv_def)

lemma reopen_ok:
  assumes db: "db_inv m" and M: "alloc_ok M"
    and s: "free_list_stored m (dh_free_list_id (disk_header m (header_slot (active_header m)))) s"
      "id_slice s" "unat (sl_size s) \<le> 1021"
  shows "\<exists>m'. create_new_database M path (Some (file_handle m)) False = Some (Some m') \<and> db_inv m' \<and>
     active_header m' = active_header m \<and> meta_block m' = meta_block m \<and> iteration_count m' = iteration_count m \<and>
     max_block m' = dh_block_count (disk_header m (header_slot (active_header m))) \<and>
     block_ids (free_list m') = block_ids s \<and> fl_data (file_handle m') = fl_data (file_handle m) \<and>
     fl_space (file_handle m') = fl_space (file_handle m) \<and> em_mem m' = M \<and>
     block_ids (used_blocks m') =
       (if block_ids s = [] then [] else [dh_free_list_id (disk_header m (header_slot (active_header m)))])"
proof -
  let ?f0 = "(file_handle m)\<lparr>fl_pos := 0\<rparr>" and ?d = "fl_data (file_handle m)" and ?a = "active_header m"
  have em: "em_inv m" and long: "12288 \<le> length ?d" and a: "?a = 0 \<or> ?a = 1"
    using db by (simp_all add: db_inv_def)
  have f0: "file_inv ?f0" using em by (simp add: em_inv_def file_inv_def)
  from FileBuffer_create_ok [OF M, of HEADER_SIZE] obtain hb where
    hb: "FileBuffer_create M HEADER_SIZE = Some hb" "fb_internal_size hb = HEADER_SIZE" "fb_inv hb"
    by (auto simp: PTRDIFF_LIMIT_def)
  obtain rc0 hb0 f1 where r0: "fileBuffer_read hb ?f0 0 = (rc0, hb0, f1)" "fb_inv hb0" "fb_internal_size hb0 = HEADER_SIZE"
      "fb_payload hb0 = mem_read 8 4088 ?d" "file_inv f1" "fl_data f1 = ?d" "fl_space f1 = fl_space (file_handle m)"
    using header_read_ok [OF f0, of 0 hb] long hb by (auto elim!: meta_mp)
  obtain rc1 hb1 f2 where r1: "fileBuffer_read hb0 f1 HEADER_SIZE = (rc1, hb1, f2)" "fb_inv hb1"
      "fb_internal_size hb1 = HEADER_SIZE" "fb_payload hb1 = mem_read (4096 + 8) 4088 ?d" "file_inv f2" "fl_data f2 = ?d"
      "fl_space f2 = fl_space (file_handle m)"
    using header_read_ok [OF r0(5), of HEADER_SIZE hb0] long r0 by (auto elim!: meta_mp)
  have h2: "unat (HEADER_SIZE * 2) = 8192" by (simp add: HEADER_SIZE_def)
  obtain rc2 hb2 f3 where r2: "fileBuffer_read hb1 f2 (HEADER_SIZE * 2) = (rc2, hb2, f3)" "fb_inv hb2"
      "fb_internal_size hb2 = HEADER_SIZE" "fb_payload hb2 = mem_read (8192 + 8) 4088 ?d" "file_inv f3" "fl_data f3 = ?d"
      "fl_space f3 = fl_space (file_handle m)"
    using header_read_ok [OF r1(5), of "HEADER_SIZE * 2" hb1] long r1 h2 by (auto elim!: meta_mp)
  let ?fm = "(fresh_manager M path hb ?f0)\<lparr>header_buffer := hb2, file_handle := f3, active_header := ?a\<rparr>"
  let ?h = "disk_header m (header_slot ?a)"
  have version: "bytes_master_version (fb_payload hb0) = VERSION_NUMBER" using db r0(4) by (simp add: db_inv_def)
  have h1: "bytes_database_header (fb_payload hb1) = disk_header m 4096" using r1(4) by (simp add: disk_header_def)
  have h2': "bytes_database_header (fb_payload hb2) = disk_header m 8192" using r2(4) by (simp add: disk_header_def)
  have opn: "create_new_database M path (Some (file_handle m)) False = map_option Some (initialize_manager ?fm ?h)"
    using a db M hb(1) r0(1) r1(1) r2(1) version h1 h2'
    by (auto simp: create_new_database_def open_existing_def fresh_manager_def db_inv_def header_slot_def Let_def)
  have fm: "em_inv ?fm" "alloc_ok (em_mem ?fm)" "slice_room (em_mem ?fm) 100000 (free_list ?fm)" "block_ids (free_list ?fm) = []"
    using fresh_manager_ok [OF M r2(5,2,3), of path] M by (simp_all add: fresh_manager_def em_inv_def)
  have "em_content ?fm = em_content m" by (simp add: em_content_def r2(6) fun_eq_iff)
  then have st: "free_list_stored ?fm (dh_free_list_id ?h) s"
    using s(1) free_list_stored_cong [of ?fm m] r2(7) by simp
  from initialize_manager_ok [OF fm st s(2,3)] obtain m' where
    m': "initialize_manager ?fm ?h = Some m'" "em_inv m'"
        "m' = ?fm\<lparr>file_handle := file_handle m', free_list := free_list m', used_blocks := used_blocks m',
            meta_block := dh_meta_block ?h, iteration_count := dh_iteration ?h, max_block := dh_block_count ?h\<rparr>"
        "fl_data (file_handle m') = ?d" "block_ids (free_list m') = block_ids s"
        "fl_space (file_handle m') = fl_space (file_handle m)"
        "used_blocks m' = (if block_ids s = [] then used_blocks ?fm
           else push_block_id (em_mem ?fm) (used_blocks ?fm) (dh_free_list_id ?h))"
    using r2(6,7) by auto
  from m'(3) obtain fh fl ub where e: "m' = ?fm\<lparr>file_handle := fh, free_list := fl, used_blocks := ub,
      meta_block := dh_meta_block ?h, iteration_count := dh_iteration ?h, max_block := dh_block_count ?h\<rparr>" by blast
  then have fields: "active_header m' = ?a" "meta_block m' = dh_meta_block ?h" "iteration_count m' = dh_iteration ?h"
      "max_block m' = dh_block_count ?h" "em_mem m' = M" by (simp_all add: fresh_manager_def)
  have "id_slice (SLICE M 8 0)" "slice_room M (Suc 0) (SLICE M 8 0)"
    using SLICE_ids [OF M] slice_room_mono [of M 100000 "SLICE M 8 0" "Suc 0"] by simp_all
  then have used: "block_ids (used_blocks m') = (if block_ids s = [] then [] else [dh_free_list_id ?h])"
    using m'(7) push_block_id_room [of "SLICE M 8 0" M 0] SLICE_ids(2) [OF M] by (simp add: fresh_manager_def)
  have dh: "disk_header m' = disk_header m" using m'(4) by (simp add: disk_header_def fun_eq_iff)
  have "db_inv m'" using db m'(2,4) fields dh by (simp add: db_inv_def)
  then show ?thesis using opn m' fields used db by (simp add: db_inv_def)
qed

lemma bytes_master_version_header [simp]: "bytes_master_version (master_header_bytes h @ rest) = mh_version h"
  by (simp add: bytes_master_version_def master_header_bytes_def mem_read_def)

lemma header_write_at:
  assumes "file_inv f" "12288 \<le> fl_space f" "fb_inv hb" "fb_internal_size hb = HEADER_SIZE"
    and "unat loc = l" "l = 0 \<or> l = 4096 \<or> l = 8192" "fb_payload hb = p"
  shows "\<exists>hb' f'. fileBuffer_write hb f loc = (0, hb', f') \<and> fb_inv hb' \<and> fb_internal_size hb' = HEADER_SIZE \<and>
     fb_payload hb' = p \<and> file_inv f' \<and> fl_space f' = fl_space f \<and>
     length (fl_data f') = max (length (fl_data f)) (l + 4096) \<and> mem_read (l + 8) 4088 (fl_data f') = p \<and>
     (\<forall>q n. q + n \<le> length (fl_data f) \<longrightarrow> q + n \<le> l \<or> l + 4096 \<le> q \<longrightarrow>
        mem_read q n (fl_data f') = mem_read q n (fl_data f))"
proof -
  have "unat loc = 0 \<or> unat loc = 4096 \<or> unat loc = 8192" using assms(5,6) by simp
  from header_write_ok [OF assms(1-4) this] show ?thesis unfolding assms(5,7) by metis
qed

lemma create_ok:
  assumes M: "alloc_ok M" and f0: "12288 \<le> fl_space f0" "fl_space f0 < PTRDIFF_LIMIT"
  shows "\<exists>m. create_new_database M path (Some f0) True = Some (Some m) \<and> db_inv m \<and> active_header m = 1 \<and>
     iteration_count m = 1 \<and> meta_block m = INVALID_BLOCK \<and> max_block m = 0 \<and>
     block_ids (free_list m) = [] \<and> block_ids (used_blocks m) = [] \<and>
     disk_header m 8192 = \<lparr>dh_iteration = 1, dh_meta_block = INVALID_BLOCK, dh_free_list_id = INVALID_BLOCK, dh_block_count = 0\<rparr> \<and>
     em_mem m = M \<and> fl_space (file_handle m) = fl_space f0 \<and> slice_room M 100000 (used_blocks m)"
proof -
  let ?f0 = "f0\<lparr>fl_data := [], fl_pos := 0\<rparr>"
  have fi: "file_inv ?f0" "12288 \<le> fl_space ?f0" using f0 by (simp_all add: file_inv_def)
  from FileBuffer_create_ok [OF M, of HEADER_SIZE] obtain hb where
    hb: "FileBuffer_create M HEADER_SIZE = Some hb" "fb_internal_size hb = HEADER_SIZE" "fb_inv hb"
    by (auto simp: PTRDIFF_LIMIT_def)
  let ?mh = "\<lparr>mh_magic = MAGIC_NUMBER, mh_version = VERSION_NUMBER, mh_flags = [0, 0, 0, 0]\<rparr>"
  let ?dh = "\<lambda>i. \<lparr>dh_iteration = i, dh_meta_block = INVALID_BLOCK, dh_free_list_id = INVALID_BLOCK, dh_block_count = 0\<rparr>"
  define mb where "mb = master_header_bytes ?mh @ replicate 4040 0"
  define db where "db = (\<lambda>i. database_header_bytes (?dh i) @ replicate 4056 0)"
  let ?b0 = "fb_store 0 (master_header_bytes ?mh) (fileBuffer_clear hb)"
  have b0: "fb_inv ?b0" "fb_internal_size ?b0 = HEADER_SIZE" "fb_payload ?b0 = mb"
    using header_buffer_store [OF hb(3,2), of "master_header_bytes ?mh"]
    by (simp_all add: mb_def master_header_bytes_def)
  from header_write_at [OF fi b0(1,2) _ _ b0(3), of 0 0] obtain hb1 f1 where
    w0: "fileBuffer_write ?b0 ?f0 0 = (0, hb1, f1)" "fb_inv hb1" "fb_internal_size hb1 = HEADER_SIZE" "file_inv f1"
        "fl_space f1 = fl_space f0" "length (fl_data f1) = 4096" "mem_read 8 4088 (fl_data f1) = mb"
    by auto
  let ?b1 = "fb_store 0 (database_header_bytes (?dh 0)) (fileBuffer_clear hb1)"
  have b1: "fb_inv ?b1" "fb_internal_size ?b1 = HEADER_SIZE" "fb_payload ?b1 = db 0"
    using header_buffer_store [OF w0(2,3), of "database_header_bytes (?dh 0)"] by (simp_all add: db_def)
  have s1: "12288 \<le> fl_space f1" using w0(5) f0(1) by simp
  from header_write_at [OF w0(4) s1 b1(1,2) _ _ b1(3), of HEADER_SIZE 4096] obtain hb2 f2 where
    w1: "fileBuffer_write ?b1 f1 HEADER_SIZE = (0, hb2, f2)" "fb_inv hb2" "fb_internal_size hb2 = HEADER_SIZE"
        "fb_payload hb2 = db 0" "file_inv f2" "fl_space f2 = fl_space f1" "length (fl_data f2) = max (length (fl_data f1)) (4096 + 4096)"
        "mem_read (4096 + 8) 4088 (fl_data f2) = db 0"
        "\<forall>q n. q + n \<le> length (fl_data f1) \<longrightarrow> q + n \<le> 4096 \<or> 4096 + 4096 \<le> q \<longrightarrow>
          mem_read q n (fl_data f2) = mem_read q n (fl_data f1)"
    unfolding unat_storage_sizes by blast
  let ?b2 = "fb_store 0 (word_bytes (1 :: u64)) hb2"
  have "unat (fb_size hb2) = 4088" using fb_size_nat [OF w1(2)] w1(2,3) by (simp add: fb_inv_def)
  then have b2: "fb_inv ?b2" "fb_internal_size ?b2 = HEADER_SIZE" "fb_payload ?b2 = db 1"
    using fb_store_inv [OF w1(2), of 0 "word_bytes (1 :: u64)"] w1(3,4)
    by (simp_all add: db_def database_header_bytes_def mem_write_def)
  have s2: "12288 \<le> fl_space f2" using w1(6) s1 by simp
  have h2: "unat (HEADER_SIZE * 2) = 8192" by (simp add: HEADER_SIZE_def)
  from header_write_at [OF w1(5) s2 b2(1,2) h2 _ b2(3)] obtain hb3 f3 where
    w2: "fileBuffer_write ?b2 f2 (HEADER_SIZE * 2) = (0, hb3, f3)" "fb_inv hb3" "fb_internal_size hb3 = HEADER_SIZE"
        "file_inv f3" "fl_space f3 = fl_space f2" "length (fl_data f3) = max (length (fl_data f2)) (8192 + 4096)"
        "mem_read (8192 + 8) 4088 (fl_data f3) = db 1"
        "\<forall>q n. q + n \<le> length (fl_data f2) \<longrightarrow> q + n \<le> 8192 \<or> 8192 + 4096 \<le> q \<longrightarrow>
          mem_read q n (fl_data f3) = mem_read q n (fl_data f2)"
    by blast
  let ?m = "(fresh_manager M path hb ?f0)\<lparr>header_buffer := hb3, file_handle := f3\<lparr>fl_flushed := fl_data f3\<rparr>,
      active_header := 1, max_block := 0, meta_block := INVALID_BLOCK, iteration_count := 1\<rparr>"
  have len: "length (fl_data f1) = 4096" "length (fl_data f2) = 8192" "length (fl_data f3) = 12288"
    using w0(6) w1(7) w2(6) by simp_all
  have mst: "mem_read 8 4088 (fl_data f3) = mb"
    using w0(7) w1(9) [rule_format, of 8 4088] w2(8) [rule_format, of 8 4088] len by simp
  have d1: "mem_read (4096 + 8) 4088 (fl_data f3) = db 0"
    using w1(8) w2(8) [rule_format, of "4096 + 8" 4088] len by simp
  have res: "create_new_database M path (Some f0) True = Some (Some ?m)"
    using M hb(1) w0(1) w1(1) w2(1)
    by (simp add: create_new_database_def write_initial_headers_def fresh_manager_def fileHandle_sync_def file_sync_def
        fflush_def Let_def)
  have em: "em_inv ?m"
    using SLICE_ids [OF M] w2(2,3,4) by (simp add: em_inv_def fresh_manager_def file_inv_def)
  have dh: "disk_header ?m 8192 = ?dh 1" "disk_header ?m 4096 = ?dh 0"
    using w2(7) d1 by (simp_all add: disk_header_def db_def)
  have "db_inv ?m"
    unfolding db_inv_def using em dh mst len(3)
    by (simp add: header_slot_def mb_def u64_ord)
  then show ?thesis
    using res dh(1) SLICE_ids [OF M] w2(5) w1(6) w0(5)
    by (intro exI [of _ ?m]) (simp add: fresh_manager_def)
qed

section \<open>Properties\<close>

text \<open>
  C4. A checkpoint survives closing and reopening: after \<^verbatim>\<open>write_header\<close> the file opened again
  gives a manager with the new meta block, the incremented iteration count, the block count,
  the header slot just written as the active one, and as its free list exactly the blocks that
  had been read since the previous checkpoint.
\<close>

theorem checkpoint_then_open:
  assumes "db_inv m" "alloc_ok (em_mem m)" "alloc_ok M" "unat (sl_size (used_blocks m)) \<le> 1021"
    and "em_addressable m (fst (single_file_block_manager_get_free_block_id m))"
    and "unat (iteration_count m) + 1 < 2 ^ 64"
  shows "\<exists>m' m''. single_file_block_manager_write_header m h = Some m' \<and>
     create_new_database M path (Some (file_handle m')) False = Some (Some m'') \<and> db_inv m'' \<and>
     active_header m'' = active_header m' \<and> active_header m' = 1 - active_header m \<and>
     meta_block m'' = dh_meta_block h \<and> iteration_count m'' = iteration_count m + 1 \<and> max_block m'' = max_block m \<and>
     block_ids (free_list m'') = block_ids (used_blocks m)"
proof -
  from write_header_ok [OF assms(1,2,4-6), of h] obtain fid m' where
    w: "single_file_block_manager_write_header m h = Some m'" "db_inv m'" "active_header m' = 1 - active_header m"
       "disk_header m' (header_slot (active_header m')) =
          h\<lparr>dh_iteration := iteration_count m + 1, dh_free_list_id := fid, dh_block_count := max_block m\<rparr>"
       "free_list_stored m' fid (used_blocks m)" "iteration_count m' = iteration_count m + 1"
    by blast
  have s: "id_slice (used_blocks m)" using assms(1) by (simp add: db_inv_def em_inv_def)
  have mb: "meta_block m' = dh_meta_block h" using w(2,4) by (simp add: db_inv_def)
  from reopen_ok [OF w(2) assms(3) _ s assms(4), of path] w(4,5) obtain m'' where
    "create_new_database M path (Some (file_handle m')) False = Some (Some m'')" "db_inv m''"
    "active_header m'' = active_header m'" "meta_block m'' = meta_block m'" "iteration_count m'' = iteration_count m'"
    "max_block m'' = dh_block_count (disk_header m' (header_slot (active_header m')))"
    "block_ids (free_list m'') = block_ids (used_blocks m)"
    by auto
  then show ?thesis using w mb by auto
qed

definition sample_disk :: FILE where "sample_disk = sample_file 1000000"

lemma sample_create:
  "\<exists>m. create_new_database ample_memory [100, 98] (Some sample_disk) True = Some (Some m) \<and> db_inv m \<and>
     iteration_count m = 1 \<and> block_ids (free_list m) = [] \<and> block_ids (used_blocks m) = [] \<and> sl_size (used_blocks m) = 0 \<and>
     alloc_ok (em_mem m) \<and> em_addressable m (fst (single_file_block_manager_get_free_block_id m)) \<and> active_header m = 1 \<and>
     em_mem m = ample_memory \<and> max_block m = 0 \<and> fl_space (file_handle m) = 1000000 \<and>
     free_list_stored m (dh_free_list_id (disk_header m (header_slot (active_header m)))) (used_blocks m) \<and>
     slice_room ample_memory 100000 (used_blocks m)"
proof -
  have M: "alloc_ok ample_memory" by (simp add: ample_memory_def)
  from create_ok [OF M, of sample_disk "[100, 98]"] obtain m where
    m: "create_new_database ample_memory [100, 98] (Some sample_disk) True = Some (Some m)" "db_inv m" "active_header m = 1"
       "iteration_count m = 1" "max_block m = 0" "block_ids (free_list m) = []" "block_ids (used_blocks m) = []"
       "disk_header m 8192 = \<lparr>dh_iteration = 1, dh_meta_block = INVALID_BLOCK, dh_free_list_id = INVALID_BLOCK, dh_block_count = 0\<rparr>"
       "em_mem m = ample_memory" "fl_space (file_handle m) = 1000000" "slice_room ample_memory 100000 (used_blocks m)"
    by (auto simp: sample_disk_def sample_file_ok PTRDIFF_LIMIT_def)
  have em: "em_inv m" using m(2) by (simp add: db_inv_def)
  have "fst (single_file_block_manager_get_free_block_id m) = 0"
    using get_free_block_id_ok [OF em surjective_pairing] m(5,6) by simp
  moreover have "sl_size (used_blocks m) = 0"
    using m(7) length_block_ids [of "used_blocks m"] by (simp add: unat_eq_zero)
  ultimately show ?thesis
    using m M by (simp add: em_addressable_def block_offset_def header_slot_def free_list_stored_def)
qed

text \<open>
  C6. Atomicity of the header switch: a checkpoint writes the inactive header slot only, the
  header that was active is still on the file unchanged when it returns, and the free-list
  block, written before the header, changes neither header; everything written has been handed
  to the operating system at the end.
\<close>

theorem checkpoint_keeps_active_header:
  assumes "db_inv m" "alloc_ok (em_mem m)" "unat (sl_size (used_blocks m)) \<le> 1021"
    and "em_addressable m (fst (single_file_block_manager_get_free_block_id m))"
    and "unat (iteration_count m) + 1 < 2 ^ 64"
  shows "(\<exists>fid m1. write_free_list m = Some (fid, m1) \<and> (\<forall>a. disk_header m1 (header_slot a) = disk_header m (header_slot a))) \<and>
     (\<exists>m'. single_file_block_manager_write_header m h = Some m' \<and>
       disk_header m' (header_slot (active_header m)) = disk_header m (header_slot (active_header m)) \<and>
       dh_iteration (disk_header m' (header_slot (1 - active_header m))) = iteration_count m + 1 \<and>
       fl_flushed (file_handle m') = fl_data (file_handle m'))"
proof
  have em: "em_inv m" "12288 \<le> length (fl_data (file_handle m))" using assms(1) by (simp_all add: db_inv_def)
  from write_free_list_ok [OF em(1) assms(2) em(2) assms(3,4)] obtain fid m1 where
    w: "write_free_list m = Some (fid, m1)" "take 12288 (fl_data (file_handle m1)) = take 12288 (fl_data (file_handle m))"
    by blast
  have "disk_header m1 (header_slot a) = disk_header m (header_slot a)" for a
    unfolding disk_header_def
    by (rule arg_cong [OF take_eq_imp_mem_read_eq [OF w(2)]]) (simp add: header_slot_def)
  with w(1) show "\<exists>fid m1. write_free_list m = Some (fid, m1) \<and>
      (\<forall>a. disk_header m1 (header_slot a) = disk_header m (header_slot a))" by blast
next
  from write_header_ok [OF assms, of h] show "\<exists>m'. single_file_block_manager_write_header m h = Some m' \<and>
       disk_header m' (header_slot (active_header m)) = disk_header m (header_slot (active_header m)) \<and>
       dh_iteration (disk_header m' (header_slot (1 - active_header m))) = iteration_count m + 1 \<and>
       fl_flushed (file_handle m') = fl_data (file_handle m')" by auto
qed

theorem checkpoint_keeps_active_header_witness:
  "\<exists>m. create_new_database ample_memory [100, 98] (Some sample_disk) True = Some (Some m) \<and>
     (\<exists>m'. single_file_block_manager_write_header m \<lparr>dh_iteration = 0, dh_meta_block = 7, dh_free_list_id = 0, dh_block_count = 0\<rparr> = Some m' \<and>
       disk_header m' 8192 = disk_header m 8192 \<and> dh_iteration (disk_header m' 4096) = 2)"
proof -
  from sample_create obtain m where
    m: "create_new_database ample_memory [100, 98] (Some sample_disk) True = Some (Some m)" "db_inv m" "iteration_count m = 1"
       "sl_size (used_blocks m) = 0" "alloc_ok (em_mem m)"
       "em_addressable m (fst (single_file_block_manager_get_free_block_id m))" "active_header m = 1"
    by blast
  have "unat (sl_size (used_blocks m)) \<le> 1021" "unat (iteration_count m) + 1 < 2 ^ 64" using m(3,4) by simp_all
  from checkpoint_keeps_active_header [OF m(2,5) this(1) m(6) this(2)] m(1,3,7) show ?thesis
    by (auto simp: header_slot_def)
qed

text \<open>
  Creating a database file gives a well-formed empty database: version, two headers of which
  the second is active, no blocks, no meta block; opening the file at once gives the same state.
\<close>

theorem create_then_open:
  assumes "alloc_ok M" "alloc_ok M'" "12288 \<le> fl_space f" "fl_space f < PTRDIFF_LIMIT"
  shows "\<exists>m m'. create_new_database M path (Some f) True = Some (Some m) \<and> db_inv m \<and>
     create_new_database M' path (Some (file_handle m)) False = Some (Some m') \<and> db_inv m' \<and>
     active_header m' = active_header m \<and> iteration_count m' = iteration_count m \<and>
     meta_block m' = INVALID_BLOCK \<and> max_block m' = 0 \<and> block_ids (free_list m') = []"
proof -
  from create_ok [OF assms(1,3,4), of path] obtain m where
    m: "create_new_database M path (Some f) True = Some (Some m)" "db_inv m" "active_header m = 1"
       "meta_block m = INVALID_BLOCK" "block_ids (used_blocks m) = []"
       "disk_header m 8192 = \<lparr>dh_iteration = 1, dh_meta_block = INVALID_BLOCK, dh_free_list_id = INVALID_BLOCK, dh_block_count = 0\<rparr>"
    by blast
  have s: "id_slice (used_blocks m)" using m(2) by (simp add: db_inv_def em_inv_def)
  have z: "unat (sl_size (used_blocks m)) \<le> 1021" using m(5) length_block_ids [of "used_blocks m"] by simp
  from reopen_ok [OF m(2) assms(2) _ s z, of path] m show ?thesis
    by (auto simp: header_slot_def free_list_stored_def)
qed

theorem create_then_open_witness:
  "\<exists>m m'. create_new_database ample_memory [100, 98] (Some sample_disk) True = Some (Some m) \<and> db_inv m \<and>
     create_new_database ample_memory [100, 98] (Some (file_handle m)) False = Some (Some m') \<and> db_inv m' \<and>
     active_header m' = active_header m \<and> iteration_count m' = iteration_count m \<and>
     meta_block m' = INVALID_BLOCK \<and> max_block m' = 0 \<and> block_ids (free_list m') = []"
  by (rule create_then_open) (simp_all add: ample_memory_def sample_disk_def sample_file_ok PTRDIFF_LIMIT_def)

text \<open>
  Opening never looks at the magic number or at any checksum: whatever the first 16 bytes of
  the file (checksum of the master header and magic number) and the checksums of the two
  database headers are, opening succeeds with the same state.
\<close>

theorem open_ignores_magic_and_checksums:
  assumes db: "db_inv m" and M: "alloc_ok M"
    and s: "free_list_stored m (dh_free_list_id (disk_header m (header_slot (active_header m)))) s"
      "id_slice s" "unat (sl_size s) \<le> 1021"
    and len: "length d = length (fl_data (file_handle m))"
    and same: "\<forall>i < length d. 16 \<le> i \<longrightarrow> i \<notin> {4096..<4104} \<longrightarrow> i \<notin> {8192..<8200} \<longrightarrow> d ! i = fl_data (file_handle m) ! i"
  shows "\<exists>m'. create_new_database M path (Some ((file_handle m)\<lparr>fl_data := d\<rparr>)) False = Some (Some m') \<and>
     active_header m' = active_header m \<and> meta_block m' = meta_block m \<and> iteration_count m' = iteration_count m \<and>
     block_ids (free_list m') = block_ids s"
proof -
  let ?m = "m\<lparr>file_handle := (file_handle m)\<lparr>fl_data := d\<rparr>\<rparr>"
  have eq: "mem_read p n d = mem_read p n (fl_data (file_handle m))"
    if "p + n \<le> length d" "\<forall>i. p \<le> i \<longrightarrow> i < p + n \<longrightarrow> 16 \<le> i \<and> i \<notin> {4096..<4104} \<and> i \<notin> {8192..<8200}" for p n
    using that same len by (intro nth_equalityI) (auto simp: length_mem_read nth_mem_read)
  have long: "12288 \<le> length d" using db len by (simp add: db_inv_def)
  have dh: "disk_header ?m (header_slot a) = disk_header m (header_slot a)" for a
    using eq [of "header_slot a + 8" 4088] long by (simp add: disk_header_def header_slot_def)
  have "mem_read 16 8 d = mem_read 16 8 (fl_data (file_handle m))" using eq [of 16 8] long by simp
  then have ver: "bytes_master_version (mem_read 8 4088 d) = bytes_master_version (mem_read 8 4088 (fl_data (file_handle m)))"
    by (simp add: bytes_master_version_def mem_read_mem_read)
  have "em_inv ?m" using db len by (simp add: db_inv_def em_inv_def file_inv_def)
  then have db': "db_inv ?m" using db len ver dh by (simp add: db_inv_def)
  have "em_content ?m = em_content m"
    using eq len by (intro em_content_cong) auto
  then have "free_list_stored ?m = free_list_stored m" by (rule free_list_stored_cong) simp
  then show ?thesis using reopen_ok [OF db' M _ s(2,3), of path] s(1) dh by auto
qed

theorem open_ignores_magic_and_checksums_witness:
  "\<exists>m m'. create_new_database ample_memory [100, 98] (Some sample_disk) True = Some (Some m) \<and>
     create_new_database ample_memory [100, 98]
       (Some ((file_handle m)\<lparr>fl_data := mem_write 0 (replicate 16 0) (fl_data (file_handle m))\<rparr>)) False = Some (Some m') \<and>
     iteration_count m' = 1"
proof -
  from sample_create obtain m where
    m: "create_new_database ample_memory [100, 98] (Some sample_disk) True = Some (Some m)" "db_inv m" "iteration_count m = 1"
       "sl_size (used_blocks m) = 0" "alloc_ok (em_mem m)"
       "free_list_stored m (dh_free_list_id (disk_header m (header_slot (active_header m)))) (used_blocks m)"
    by blast
  have "id_slice (used_blocks m)" "unat (sl_size (used_blocks m)) \<le> 1021" "12288 \<le> length (fl_data (file_handle m))"
    using m(2,4) by (simp_all add: db_inv_def em_inv_def)
  moreover have "alloc_ok ample_memory" by (simp add: ample_memory_def)
  ultimately show ?thesis
    using open_ignores_magic_and_checksums [OF m(2) _ m(6), of ample_memory
        "mem_write 0 (replicate 16 0) (fl_data (file_handle m))" "[100, 98]"] m(1,3)
    by (auto simp: length_mem_write nth_mem_write)
qed

text \<open>
  The checkpoint records the block count before it allocates the free-list block. When the
  free list is empty and blocks were read, the block that holds the new free list is the block
  with the number \<open>block_count\<close>: by the header's own convention it counts as free, and after
  reopening it is the next block the high-water mark hands out.
\<close>

theorem checkpoint_free_list_block_counts_as_free:
  assumes "db_inv m" "alloc_ok (em_mem m)" "unat (sl_size (used_blocks m)) \<le> 1021"
    and "em_addressable m (fst (single_file_block_manager_get_free_block_id m))"
    and "unat (iteration_count m) + 1 < 2 ^ 64" "block_ids (free_list m) = []" "block_ids (used_blocks m) \<noteq> []"
  shows "\<exists>m'. single_file_block_manager_write_header m h = Some m' \<and>
     dh_free_list_id (disk_header m' (header_slot (active_header m'))) =
       dh_block_count (disk_header m' (header_slot (active_header m')))"
proof -
  have "em_inv m" using assms(1) by (simp add: db_inv_def)
  then have "fst (single_file_block_manager_get_free_block_id m) = max_block m"
    using get_free_block_id_ok [OF _ surjective_pairing, of m] assms(6) by simp
  then show ?thesis using write_header_ok [OF assms(1-5), of h] assms(7) by fastforce
qed

definition sample_used :: "block_id_t list \<Rightarrow> SingleFileExtentManager \<Rightarrow> SingleFileExtentManager" where
  "sample_used is m = m\<lparr>used_blocks := fold (\<lambda>i s. push_block_id ample_memory s i) is sample_ids\<rparr>"

lemma sample_used_ok:
  assumes "length is \<le> 2000"
  shows "id_slice (used_blocks (sample_used is m)) \<and> block_ids (used_blocks (sample_used is m)) = is"
proof -
  have "id_slice (fold (\<lambda>i s. push_block_id ample_memory s i) is s0) \<and>
      block_ids (fold (\<lambda>i s. push_block_id ample_memory s i) is s0) = block_ids s0 @ is"
    if "id_slice s0" "slice_room ample_memory (length is) s0" for s0
    using that
  proof (induction "is" arbitrary: s0)
    case Nil
    then show ?case by simp
  next
    case (Cons i "is")
    then show ?case using push_block_id_room [OF Cons.prems(1), of ample_memory "length is" i] by simp
  qed
  moreover have "slice_room ample_memory (length is) sample_ids"
    using sample_ids_ok(3) assms by (elim slice_room_mono) simp
  ultimately show ?thesis using sample_ids_ok by (simp add: sample_used_def)
qed

lemma sample_used_db:
  assumes "db_inv m" "length is \<le> 2000"
  shows "db_inv (sample_used is m) \<and> block_ids (used_blocks (sample_used is m)) = is"
  using assms sample_used_ok [OF assms(2), of m]
  by (simp add: db_inv_def em_inv_def sample_used_def disk_header_def)

lemma sample_used_free:
  "fst (single_file_block_manager_get_free_block_id (sample_used is m)) = fst (single_file_block_manager_get_free_block_id m)"
  by (auto simp: single_file_block_manager_get_free_block_id_def sample_used_def split: prod.splits option.splits)

theorem checkpoint_free_list_block_counts_as_free_witness:
  "\<exists>m m'. create_new_database ample_memory [100, 98] (Some sample_disk) True = Some (Some m) \<and>
     single_file_block_manager_write_header (sample_used [4] m)
       \<lparr>dh_iteration = 0, dh_meta_block = 7, dh_free_list_id = 0, dh_block_count = 0\<rparr> = Some m' \<and>
     dh_free_list_id (disk_header m' (header_slot (active_header m'))) =
       dh_block_count (disk_header m' (header_slot (active_header m')))"
proof -
  from sample_create obtain m where
    m: "create_new_database ample_memory [100, 98] (Some sample_disk) True = Some (Some m)" "db_inv m" "iteration_count m = 1"
       "alloc_ok (em_mem m)" "em_addressable m (fst (single_file_block_manager_get_free_block_id m))" "block_ids (free_list m) = []"
    by blast
  let ?m = "sample_used [4] m"
  have u: "db_inv ?m" "block_ids (used_blocks ?m) = [4]" using sample_used_db [OF m(2), of "[4]"] by simp_all
  have f: "alloc_ok (em_mem ?m)" "iteration_count ?m = 1" "block_ids (free_list ?m) = []"
      "em_addressable ?m (fst (single_file_block_manager_get_free_block_id ?m))"
    using m by (simp_all add: sample_used_free) (simp_all add: sample_used_def em_addressable_def)
  have n: "unat (sl_size (used_blocks ?m)) \<le> 1021" using arg_cong [OF u(2), of length] by simp
  from checkpoint_free_list_block_counts_as_free [OF u(1) f(1) n f(4) _ f(3)] u(2) f(2) m(1) show ?thesis by fastforce
qed

lemma write_used_blocks_overflow:
  assumes s: "id_slice (used_blocks m)" and w: "writer_holds w b bs"
    and i: "unat i + n = unat (sl_size (used_blocks m))" and over: "8184 < 8 + length bs + 8 * n"
  shows "write_used_blocks n i (m, w) = None"
  using assms(2-)
proof (induction n arbitrary: i w b bs)
  case 0
  then show ?case by (simp add: writer_holds_def)
next
  case (Suc n)
  let ?s = "used_blocks m" and ?e = "slice_load (slice_get_ptr (used_blocks m) i) 8 (used_blocks m)"
  have lt: "unat i < unat (sl_size ?s)" using Suc.prems(2) by simp
  have get: "slice_get (Some ?s) i = Some (slice_get_ptr ?s i)" using lt by (simp add: slice_get_def u64_ord)
  show ?case
  proof (cases "8 + length bs + 8 \<le> 8184")
    case True
    from s have inv: "slice_inv ?s" "sl_element_size ?s = 8" by (simp_all add: id_slice_def)
    from inv(1) obtain d where d: "unat (sl_size ?s) \<le> unat (sl_capacity ?s)" by (rule slice_invE)
    have "?e = slice_elem ?s (unat i)"
      using slice_copy_out_elem [OF inv(1), of i] lt d inv(2) by (simp add: slice_copy_out_def)
    then have len: "length ?e = unat (8 :: usize)"
      using length_slice_elem [OF inv(1), of "unat i"] lt d inv(2) by simp
    from single_file.write_data_fits [OF Suc.prems(1) len, of m] True obtain w1 b1 where
      w1: "metaBlockWriter_write_data single_file_block_manager_vtable m w ?e 8 = Some (m, w1)" "writer_holds w1 b1 (bs @ ?e)"
      using len by auto
    have i1: "unat (i + 1) = Suc (unat i)"
      using lt unat_lt_2p64 [of "sl_size ?s"] by (intro unat_inc_u64) linarith
    have "write_used_blocks n (i + 1) (m, w1) = None"
      using Suc.IH [OF w1(2), of "i + 1"] Suc.prems(2,3) len by (simp add: i1)
    then show ?thesis using get w1(1) by simp
  next
    case False
    have h: "mw_block w = Some b" "block_ok b" "unat (mw_offset w) = 8 + length bs" "8 + length bs \<le> 8184"
      using Suc.prems(1) by (simp_all add: writer_holds_def)
    have "metaBlockWriter_write_data single_file_block_manager_vtable m w ?e 8 = None"
      using write_data_overflows_block [OF single_file_write_keeps_size h(1), of 8 m ?e] block_ok_size [OF h(2)] h(3,4) False
      by (simp add: u64_ord)
    then show ?thesis using get by simp
  qed
qed

lemma write_free_list_hangs:
  assumes "em_inv m" "1022 \<le> unat (sl_size (used_blocks m))"
  shows "write_free_list m = None"
proof -
  let ?s = "used_blocks m" and ?vt = single_file_block_manager_vtable
  obtain bo m1 where c: "single_file_block_manager_create_block m = (bo, m1)" by fastforce
  have pos: "sl_size ?s > 0" using assms(2) by (simp add: u64_ord)
  show ?thesis
  proof (cases bo)
    case None
    then show ?thesis using pos c by (simp add: write_free_list_def MetaBlockWriter_init_def)
  next
    case (Some b)
    from create_block_ok [OF assms(1) c] obtain i where "single_file_block_manager_get_free_block_id m = (i, m1)" by blast
    note g = get_free_block_id_ok [OF assms(1) this]
    then have used1: "used_blocks m1 = ?s" by simp
    from single_file.writer_init_ok [of m b m1] assms(1) c Some obtain w where
      w: "MetaBlockWriter_init ?vt m = (m1, w)" "writer_holds w b []" by auto
    have l8: "length (word_bytes (sl_size ?s)) = unat (of_nat (length (word_bytes (sl_size ?s))) :: usize)" by simp
    from single_file.write_data_fits [OF w(2) l8, of m1] obtain w2 b2 where
      w2: "SERIALIZER_WRITE_TYPE ?vt (m1, w) (sl_size ?s) = Some (m1, w2)" "writer_holds w2 b2 (word_bytes (sl_size ?s))"
      by (auto simp: SERIALIZER_WRITE_TYPE_def)
    have "id_slice (used_blocks m1)" using assms(1) by (simp add: used1 em_inv_def)
    then have "write_used_blocks (unat (sl_size ?s)) 0 (m1, w2) = None"
      using write_used_blocks_overflow [OF _ w2(2), of m1 0 "unat (sl_size ?s)"] assms(2) by (simp add: used1)
    moreover have "mw_block w = Some b" using w(2) by (simp add: writer_holds_def)
    ultimately show ?thesis using pos w(1) w2(1) by (simp add: write_free_list_def used1)
  qed
qed

lemma write_header_hangs:
  assumes "em_inv m" "1022 \<le> unat (sl_size (used_blocks m))"
  shows "single_file_block_manager_write_header m h = None"
proof -
  have "em_inv (m\<lparr>iteration_count := iteration_count m + 1\<rparr>)" using assms(1) by (simp add: em_inv_def)
  from write_free_list_hangs [OF this] assms(2) show ?thesis by (simp add: single_file_block_manager_write_header_def)
qed

text \<open>So the free list of a checkpoint that returned fits its block.\<close>

lemma write_free_list_fits: "em_inv m \<Longrightarrow> write_free_list m = Some r \<Longrightarrow> unat (sl_size (used_blocks m)) \<le> 1021"
  using write_free_list_hangs [of m] by (cases "unat (sl_size (used_blocks m)) \<le> 1021") simp_all

lemma write_header_fits:
  "em_inv m \<Longrightarrow> single_file_block_manager_write_header m h = Some m1 \<Longrightarrow> unat (sl_size (used_blocks m)) \<le> 1021"
  using write_header_hangs [of m h] by (cases "unat (sl_size (used_blocks m)) \<le> 1021") simp_all

text \<open>
  C38. A checkpoint after 1022 or more block reads never returns: the list of used blocks does not
  fit one block, and writing across the end of a block does not terminate.
\<close>

theorem checkpoint_hangs_after_1022_reads:
  assumes "em_inv m" "1022 \<le> unat (sl_size (used_blocks m))"
  shows "single_file_block_manager_write_header m h = None"
  by (rule write_header_hangs [OF assms])

theorem checkpoint_hangs_after_1022_reads_witness:
  "single_file_block_manager_write_header (sample_used (replicate 1500 4) sample_db)
     \<lparr>dh_iteration = 0, dh_meta_block = 7, dh_free_list_id = 0, dh_block_count = 0\<rparr> = None"
proof (rule checkpoint_hangs_after_1022_reads)
  note u = sample_used_ok [of "replicate 1500 4" sample_db, simplified]
  show "em_inv (sample_used (replicate 1500 4) sample_db)"
    using u sample_db_ok(1) by (simp add: em_inv_def sample_used_def)
  show "1022 \<le> unat (sl_size (used_blocks (sample_used (replicate 1500 4) sample_db)))"
    using u length_block_ids [of "used_blocks (sample_used (replicate 1500 4) sample_db)"] by simp
qed

text \<open>
  C39. The manager does not notice that a block is read twice: the id is recorded twice, so that
  after the next checkpoint two successive allocations return the same block.
\<close>

theorem double_read_gives_block_twice:
  assumes "db_inv m" "alloc_ok (em_mem m)" "block_ids (used_blocks m) = []" "slice_room (em_mem m) 2 (used_blocks m)"
    and "block_ok b" "em_addressable m (fst (single_file_block_manager_get_free_block_id m))"
    and "unat (iteration_count m) + 1 < 2 ^ 64"
  shows "\<exists>m1 b1 m2 b2 m3. single_file_block_manager_read m b = (m1, b1) \<and> single_file_block_manager_read m1 b1 = (m2, b2) \<and>
     single_file_block_manager_write_header m2 h = Some m3 \<and> fst (allocate_blocks 2 m3) = [blk_id b, blk_id b]"
proof -
  have em: "em_inv m" using assms(1) by (simp add: db_inv_def)
  obtain m1 b1 where r1: "single_file_block_manager_read m b = (m1, b1)" by fastforce
  note l1 = em_read_ok [OF em assms(5) r1]
  obtain m2 b2 where r2: "single_file_block_manager_read m1 b1 = (m2, b2)" by fastforce
  have l2: "em_inv m2" "used_blocks m2 = push_block_id (em_mem m1) (used_blocks m1) (blk_id b1)"
      "fl_data (file_handle m2) = fl_data (file_handle m1)" "fl_space (file_handle m2) = fl_space (file_handle m1)"
      "m2 = m1\<lparr>used_blocks := used_blocks m2, file_handle := file_handle m2\<rparr>"
    using em_read_ok [OF _ _ r2] l1 by blast+
  from l1 obtain ub fh where e1: "m1 = m\<lparr>used_blocks := ub, file_handle := fh\<rparr>" by blast
  from l2(5) obtain ub2 fh2 where e2: "m2 = m1\<lparr>used_blocks := ub2, file_handle := fh2\<rparr>" by blast
  have s0: "id_slice (used_blocks m)" using em by (simp add: em_inv_def)
  have "slice_room (em_mem m) (Suc (Suc 0)) (used_blocks m)" using assms(4) by (simp add: numeral_2_eq_2)
  note p1 = push_block_id_room [OF s0 this, of "blk_id b"]
  have u1: "id_slice (used_blocks m1)" "block_ids (used_blocks m1) = [blk_id b]" "slice_room (em_mem m) (Suc 0) (used_blocks m1)"
    using p1 l1 assms(3) by simp_all
  have u2: "block_ids (used_blocks m2) = [blk_id b, blk_id b]"
    using push_block_id_room [OF u1(1,3), of "blk_id b"] u1(2) l1 l2(2) e1 by simp
  have "disk_header m2 = disk_header m" using l1 l2(3) by (simp add: disk_header_def fun_eq_iff)
  then have db2: "db_inv m2" using assms(1) l2(1,3) l1 e1 e2 by (simp add: db_inv_def)
  have g: "fst (single_file_block_manager_get_free_block_id m2) = fst (single_file_block_manager_get_free_block_id m)"
    by (auto simp: single_file_block_manager_get_free_block_id_def e1 e2 split: prod.splits option.splits)
  have side: "alloc_ok (em_mem m2)" "unat (sl_size (used_blocks m2)) \<le> 1021" "unat (iteration_count m2) + 1 < 2 ^ 64"
      "em_addressable m2 (fst (single_file_block_manager_get_free_block_id m2))"
    using assms(2,6,7) arg_cong [OF u2, of length] l1 l2(4) g by (simp_all add: e1 e2 em_addressable_def)
  from write_header_ok [OF db2 side(1,2,4,3), of h] obtain m3 where
    m3: "single_file_block_manager_write_header m2 h = Some m3" "db_inv m3" "block_ids (free_list m3) = [blk_id b, blk_id b]"
    using u2 by auto
  obtain i m4 where g4: "single_file_block_manager_get_free_block_id m3 = (i, m4)" by fastforce
  have em3: "em_inv m3" using m3(2) by (simp add: db_inv_def)
  note a4 = get_free_block_id_ok [OF em3 g4]
  obtain j m5 where g5: "single_file_block_manager_get_free_block_id m4 = (j, m5)" by fastforce
  have "j = blk_id b" "i = blk_id b" using a4 get_free_block_id_ok [OF _ g5] m3(3) by simp_all
  then show ?thesis using r1 r2 m3(1) g4 g5 by (auto simp: numeral_2_eq_2)
qed

theorem double_read_gives_block_twice_witness:
  "\<exists>m m1 b1 m2 b2 m3. single_file_block_manager_read (sample_used [] m) (sample_block 4 0) = (m1, b1) \<and>
     single_file_block_manager_read m1 b1 = (m2, b2) \<and>
     single_file_block_manager_write_header m2 \<lparr>dh_iteration = 0, dh_meta_block = 7, dh_free_list_id = 0, dh_block_count = 0\<rparr> = Some m3 \<and>
     fst (allocate_blocks 2 m3) = [4, 4]"
proof -
  from sample_create obtain m where
    m: "db_inv m" "iteration_count m = 1" "alloc_ok (em_mem m)" "em_mem m = ample_memory"
       "em_addressable m (fst (single_file_block_manager_get_free_block_id m))"
    by blast
  let ?m = "sample_used [] m"
  have u: "db_inv ?m" "block_ids (used_blocks ?m) = []" using sample_used_db [OF m(1), of "[]"] by simp_all
  have f: "alloc_ok (em_mem ?m)" "unat (iteration_count ?m) + 1 < 2 ^ 64"
      "em_addressable ?m (fst (single_file_block_manager_get_free_block_id ?m))"
    using m by (simp_all add: sample_used_free) (simp_all add: sample_used_def em_addressable_def)
  have "slice_room (em_mem ?m) 2 (used_blocks ?m)"
    using slice_room_mono [OF sample_ids_ok(3), of 2] m(4) by (simp add: sample_used_def)
  from double_read_gives_block_twice [OF u(1) f(1) u(2) this sample_block_ok(1) [of 4 0] f(3,2),
      of "\<lparr>dh_iteration = 0, dh_meta_block = 7, dh_free_list_id = 0, dh_block_count = 0\<rparr>"]
  show ?thesis unfolding sample_block_ok(2) by (rule exI [of _ m])
qed

end
