(* ===== verification/Crash.thy ===== *)
theory Crash
  imports Database
begin

text \<open>
  What a crash leaves behind (\<^verbatim>\<open>src/storage/table/storage.c\<close>): the calls of the extent manager that lead
  from one checkpoint to the next form a step relation, the file after a crash may hold any part of what they wrote,
  and opening it gives the state of the last checkpoint.
\<close>

section \<open>Bytes outside a set of blocks\<close>

definition outside :: "block_id_t set \<Rightarrow> nat \<Rightarrow> bool" where
  "outside A k \<longleftrightarrow> (\<forall>i \<in> A. k < block_offset i \<or> block_offset i + 8192 \<le> k)"

definition kept_outside :: "block_id_t set \<Rightarrow> bytes \<Rightarrow> bytes \<Rightarrow> bool" where
  "kept_outside A d d' \<longleftrightarrow> length d \<le> length d' \<and> (\<forall>k < length d. outside A k \<longrightarrow> d' ! k = d ! k)"

lemma kept_outside_refl [simp]: "kept_outside A d d"
  by (simp add: kept_outside_def)

lemma kept_outside_mono: "kept_outside A d d' \<Longrightarrow> A \<subseteq> B \<Longrightarrow> kept_outside B d d'"
  by (auto simp: kept_outside_def outside_def)

lemma kept_outside_trans: "kept_outside A d d' \<Longrightarrow> kept_outside A d' d'' \<Longrightarrow> kept_outside A d d''"
  by (auto simp: kept_outside_def)

lemma kept_outside_put:
  assumes "i \<in> A" "length mem = 8192"
  shows "kept_outside A d (file_put (block_offset i) mem d)"
  unfolding kept_outside_def
proof (intro conjI allI impI)
  show "length d \<le> length (file_put (block_offset i) mem d)" by (simp add: length_file_put)
  fix k assume k: "k < length d" "outside A k"
  then have "k + 1 \<le> block_offset i \<or> block_offset i + length mem \<le> k" using assms by (auto simp: outside_def)
  then have "mem_read k 1 (file_put (block_offset i) mem d) = mem_read k 1 d"
    using k(1) by (intro file_put_read_disjoint) simp_all
  moreover have "k < length (file_put (block_offset i) mem d)" using k(1) by (auto simp: length_file_put)
  ultimately show "file_put (block_offset i) mem d ! k = d ! k"
    using k(1) nth_mem_read [of k 1 d 0] nth_mem_read [of k 1 "file_put (block_offset i) mem d" 0] by simp
qed

lemma kept_outside_read:
  assumes "kept_outside A d d'" "p + n \<le> length d" "\<And>k. p \<le> k \<Longrightarrow> k < p + n \<Longrightarrow> outside A k"
  shows "mem_read p n d' = mem_read p n d"
proof (rule nth_equalityI)
  show "length (mem_read p n d') = length (mem_read p n d)" using assms(1,2) by (simp add: mem_simps kept_outside_def)
  fix k assume "k < length (mem_read p n d')"
  then have "k < n" by (simp add: mem_read_def)
  then show "mem_read p n d' ! k = mem_read p n d ! k"
    using assms by (simp add: nth_mem_read kept_outside_def)
qed

lemma outside_headers: "k < 12288 \<Longrightarrow> outside A k"
  by (simp add: outside_def block_offset_def)

lemma outside_other:
  assumes "j \<notin> A" "block_offset j \<le> k" "k < block_offset j + 8192"
  shows "outside A k"
  unfolding outside_def
proof
  fix i assume "i \<in> A"
  then have "i \<noteq> j" using assms(1) by blast
  then show "k < block_offset i \<or> block_offset i + 8192 \<le> k" using block_offsets_disjoint [of i j] assms(2,3) by linarith
qed

section \<open>From one checkpoint to the next\<close>

text \<open>
  A call of a client between two checkpoints, with the blocks it is given and the blocks it writes. It may write any
  block there is room for on the disk, its own or not. The last rule is the part of the next checkpoint that comes before
  its header is written.
\<close>

inductive em_call ::
  "SingleFileExtentManager \<Rightarrow> block_id_t set \<Rightarrow> block_id_t set \<Rightarrow> SingleFileExtentManager \<Rightarrow> bool" where
  allocates: "single_file_block_manager_get_free_block_id m = (i, m') \<Longrightarrow> unat (max_block m) + 1 < 2 ^ 64 \<Longrightarrow>
    em_call m {i} {} m'"
| creates: "single_file_block_manager_create_block m = (bo, m') \<Longrightarrow> unat (max_block m) + 1 < 2 ^ 64 \<Longrightarrow>
    em_call m {fst (single_file_block_manager_get_free_block_id m)} {} m'"
| writes: "block_ok b \<Longrightarrow> em_addressable m (blk_id b) \<Longrightarrow> single_file_block_manager_write m b = (m', b') \<Longrightarrow>
    em_call m {} {blk_id b} m'"
| reads: "block_ok b \<Longrightarrow> single_file_block_manager_read m b = (m', b') \<Longrightarrow> em_call m {} {} m'"
| stores_free_list: "write_free_list m = Some (fid, m') \<Longrightarrow> alloc_ok (em_mem m) \<Longrightarrow> block_ids (used_blocks m) \<noteq> [] \<Longrightarrow>
    em_addressable m (fst (single_file_block_manager_get_free_block_id m)) \<Longrightarrow> unat (max_block m) + 1 < 2 ^ 64 \<Longrightarrow>
    em_call m {fid} {fid} m'"

text \<open>The calls made since the checkpoint, with the blocks handed out and the blocks written since.\<close>

inductive session ::
  "SingleFileExtentManager \<Rightarrow> block_id_t set \<Rightarrow> block_id_t set \<Rightarrow> SingleFileExtentManager \<Rightarrow> bool" for m0 where
  begins: "session m0 {} {} m0"
| calls: "session m0 A W m \<Longrightarrow> em_call m a w m' \<Longrightarrow> session m0 (a \<union> A) (w \<union> W) m'"

lemma alloc_inv_cong:
  "alloc_inv m \<Longrightarrow> em_inv m' \<Longrightarrow> free_list m' = free_list m \<Longrightarrow> max_block m' = max_block m \<Longrightarrow>
    alloc_inv m' \<and> live_blocks m' = live_blocks m"
  by (simp add: alloc_inv_def live_blocks_def)

text \<open>What a state keeps of another: the invariant, the disk, the header, and everything outside the blocks written.\<close>

definition em_keeps :: "block_id_t set \<Rightarrow> SingleFileExtentManager \<Rightarrow> SingleFileExtentManager \<Rightarrow> bool" where
  "em_keeps W m m' \<longleftrightarrow> em_inv m' \<and> fl_space (file_handle m') = fl_space (file_handle m) \<and>
     12288 \<le> length (fl_data (file_handle m')) \<and> kept_outside W (fl_data (file_handle m)) (fl_data (file_handle m')) \<and>
     active_header m' = active_header m \<and> meta_block m' = meta_block m \<and> iteration_count m' = iteration_count m \<and>
     em_mem m' = em_mem m"

lemma em_keeps_trans: "em_keeps W m m' \<Longrightarrow> em_keeps w m' m'' \<Longrightarrow> em_keeps (w \<union> W) m m''"
  unfolding em_keeps_def using kept_outside_trans kept_outside_mono [of W _ _ "w \<union> W"] kept_outside_mono [of w _ _ "w \<union> W"]
  by (metis Un_upper1 Un_upper2)

lemma free_list_call:
  assumes "em_inv m" "12288 \<le> length (fl_data (file_handle m))" "write_free_list m = Some (fid, m')" "alloc_ok (em_mem m)"
    and "block_ids (used_blocks m) \<noteq> []" "em_addressable m (fst (single_file_block_manager_get_free_block_id m))"
  obtains mem where "em_inv m'" "m' = m\<lparr>file_handle := file_handle m', free_list := free_list m', max_block := max_block m'\<rparr>"
    "fl_space (file_handle m') = fl_space (file_handle m)" "fid = fst (single_file_block_manager_get_free_block_id m)"
    "max_block m' = max_block (snd (single_file_block_manager_get_free_block_id m))"
    "free_list m' = free_list (snd (single_file_block_manager_get_free_block_id m))"
    "length mem = 8192" "fl_data (file_handle m') = file_put (block_offset fid) mem (fl_data (file_handle m))"
    "length (fl_data (file_handle m)) \<le> length (fl_data (file_handle m'))"
  using write_free_list_ok [OF assms(1,4,2) write_free_list_fits [OF assms(1,3)] assms(6)] assms(3,5) that by auto

lemma em_call_keeps:
  assumes "em_call m a w m'" "em_inv m" "12288 \<le> length (fl_data (file_handle m))"
  shows "em_keeps w m m'"
  using assms
proof (induction rule: em_call.induct)
  case (allocates m i m')
  from get_free_block_id_ok [OF allocates(3,1)] obtain fl mb where "em_inv m'" "m' = m\<lparr>free_list := fl, max_block := mb\<rparr>" by blast
  then show ?case using allocates(4) by (simp add: em_keeps_def)
next
  case (creates m bo m')
  from create_block_ok [OF creates(3,1)] obtain i where "single_file_block_manager_get_free_block_id m = (i, m')" by blast
  from get_free_block_id_ok [OF creates(3) this] obtain fl mb where "em_inv m'" "m' = m\<lparr>free_list := fl, max_block := mb\<rparr>" by blast
  then show ?case using creates(4) by (simp add: em_keeps_def)
next
  case (writes b m m' b')
  note w = em_write_ok [OF writes(4,2,1,3)]
  then obtain f where m': "m' = m\<lparr>file_handle := f\<rparr>" by blast
  then show ?case using w writes(5) kept_outside_put [of "blk_id b" "{blk_id b}"] by (simp add: em_keeps_def length_file_put le_max_iff_disj)
next
  case (reads b m m' b')
  note r = em_read_ok [OF reads(3,1,2)]
  then have k: "em_inv m'" "fl_data (file_handle m') = fl_data (file_handle m)" "fl_space (file_handle m') = fl_space (file_handle m)"
    by simp_all
  from r obtain f u where m': "m' = m\<lparr>used_blocks := u, file_handle := f\<rparr>" by blast
  show ?case unfolding em_keeps_def k(2,3) using k(1) reads(4) by (simp add: m')
next
  case (stores_free_list m fid m')
  from free_list_call [OF stores_free_list(6,7,1-4)] obtain mem f fl mb where
    w: "em_inv m'" "m' = m\<lparr>file_handle := f, free_list := fl, max_block := mb\<rparr>" "fl_space f = fl_space (file_handle m)"
       "length mem = 8192" "fl_data f = file_put (block_offset fid) mem (fl_data (file_handle m))"
       "length (fl_data (file_handle m)) \<le> length (fl_data f)"
    by metis
  then show ?case using stores_free_list(7) kept_outside_put [of fid "{fid}"] by (simp add: em_keeps_def)
qed

text \<open>The blocks handed out were not in use, and are from then on.\<close>

definition em_gives :: "block_id_t set \<Rightarrow> SingleFileExtentManager \<Rightarrow> SingleFileExtentManager \<Rightarrow> bool" where
  "em_gives A m m' \<longleftrightarrow> alloc_inv m' \<and> live_blocks m' = A \<union> live_blocks m \<and> A \<inter> live_blocks m = {}"

lemma em_call_gives:
  assumes "em_call m a w m'" "alloc_inv m" "12288 \<le> length (fl_data (file_handle m))"
  shows "em_gives a m m'"
  using assms
proof (induction rule: em_call.induct)
  case (allocates m i m')
  then show ?case using get_free_block_id_alloc by (simp add: em_gives_def)
next
  case (creates m bo m')
  have "em_inv m" using creates(3) by (simp add: alloc_inv_def)
  from create_block_ok [OF this creates(1)] obtain i where i: "single_file_block_manager_get_free_block_id m = (i, m')" by blast
  then show ?case using get_free_block_id_alloc [OF creates(3) i creates(2)] by (simp add: em_gives_def)
next
  case (writes b m m' b')
  have em: "em_inv m" using writes(4) by (simp add: alloc_inv_def)
  note w = em_write_ok [OF em writes(2,1,3)]
  then obtain f where "m' = m\<lparr>file_handle := f\<rparr>" by blast
  then show ?case using w alloc_inv_cong [OF writes(4), of m'] by (simp add: em_gives_def)
next
  case (reads b m m' b')
  have em: "em_inv m" using reads(3) by (simp add: alloc_inv_def)
  note r = em_read_ok [OF em reads(1,2)]
  then obtain f u where m': "m' = m\<lparr>used_blocks := u, file_handle := f\<rparr>" by blast
  have "em_inv m'" using r by simp
  from alloc_inv_cong [OF reads(3) this] show ?case by (simp add: m' em_gives_def)
next
  case (stores_free_list m fid m')
  have em: "em_inv m" using stores_free_list(6) by (simp add: alloc_inv_def)
  from free_list_call [OF em stores_free_list(7,1-4)] have
    w: "em_inv m'" "fid = fst (single_file_block_manager_get_free_block_id m)"
       "max_block m' = max_block (snd (single_file_block_manager_get_free_block_id m))"
       "free_list m' = free_list (snd (single_file_block_manager_get_free_block_id m))"
    by metis+
  have g: "single_file_block_manager_get_free_block_id m = (fid, snd (single_file_block_manager_get_free_block_id m))"
    using w(2) by simp
  from get_free_block_id_alloc [OF stores_free_list(6) g stores_free_list(5)] show ?case
    using alloc_inv_cong [OF _ w(1,4,3)] by (simp add: em_gives_def)
qed

lemma session_keeps:
  assumes "session m0 A W m" "em_inv m0" "12288 \<le> length (fl_data (file_handle m0))"
  shows "em_keeps W m0 m"
  using assms
proof (induction rule: session.induct)
  case begins
  then show ?case by (simp add: em_keeps_def)
next
  case (calls A W m a w m')
  then show ?case using em_keeps_trans em_call_keeps [OF calls(2)] by (simp add: em_keeps_def)
qed

lemma session_gives:
  assumes "session m0 A W m" "alloc_inv m0" "12288 \<le> length (fl_data (file_handle m0))"
  shows "em_gives A m0 m"
  using assms
proof (induction rule: session.induct)
  case begins
  then show ?case by (simp add: em_gives_def)
next
  case (calls A W m a w m')
  have "em_inv m0" using calls(4) by (simp add: alloc_inv_def)
  then have "12288 \<le> length (fl_data (file_handle m))" using session_keeps [OF calls(1) _ calls(5)] by (simp add: em_keeps_def)
  with calls have "em_gives A m0 m" "em_gives a m m'" using em_call_gives [OF calls(2)] by (auto simp: em_gives_def)
  then show ?case by (auto simp: em_gives_def)
qed

section \<open>The file after a crash\<close>

text \<open>
  Everything outside the blocks of \<open>A\<close> is as it was at the checkpoint; inside them, and past the end of the old
  file, there may be anything: writes lost, torn or done out of order.
\<close>

definition crash_image :: "block_id_t set \<Rightarrow> FILE \<Rightarrow> FILE \<Rightarrow> bool" where
  "crash_image A f0 f \<longleftrightarrow> file_inv f \<and> fl_space f = fl_space f0 \<and> kept_outside A (fl_data f0) (fl_data f)"

lemma crash_image_db:
  assumes db: "db_inv m" and c: "crash_image A (file_handle m) f"
  shows "db_inv (m\<lparr>file_handle := f\<rparr>) \<and> disk_header (m\<lparr>file_handle := f\<rparr>) (header_slot a) = disk_header m (header_slot a)"
proof -
  let ?d = "fl_data (file_handle m)"
  have k: "kept_outside A ?d (fl_data f)" "file_inv f" using c by (simp_all add: crash_image_def)
  have long: "12288 \<le> length ?d" using db by (simp add: db_inv_def)
  have r: "mem_read p n (fl_data f) = mem_read p n ?d" if "p + n \<le> 12288" for p n
    using that long by (intro kept_outside_read [OF k(1)] outside_headers) simp_all
  have h: "disk_header (m\<lparr>file_handle := f\<rparr>) (header_slot a) = disk_header m (header_slot a)" for a
    by (simp add: disk_header_def r header_slot_def)
  have "12288 \<le> length (fl_data f)" using k(1) long by (simp add: kept_outside_def)
  then show ?thesis using db k(2) r [of 8 4088] h by (simp add: db_inv_def em_inv_def)
qed

lemma crash_image_content:
  assumes "crash_image A (file_handle m) f" "j \<notin> A" "em_content m j = Some d"
  shows "em_content (m\<lparr>file_handle := f\<rparr>) j = Some d"
proof -
  have k: "kept_outside A (fl_data (file_handle m)) (fl_data f)" using assms(1) by (simp add: crash_image_def)
  have len: "block_offset j + 8192 \<le> length (fl_data (file_handle m))" using assms(3) by (simp add: em_content_def split: if_splits)
  then have "mem_read (block_offset j + 8) 8184 (fl_data f) = mem_read (block_offset j + 8) 8184 (fl_data (file_handle m))"
    using assms(2) by (intro kept_outside_read [OF k] outside_other [of j]) simp_all
  then show ?thesis using assms(3) len k by (simp add: em_content_def kept_outside_def split: if_splits)
qed

lemma kept_outside_content:
  assumes "em_keeps W m m'" "j \<notin> W" "em_content m j = Some d"
  shows "em_content m' j = Some d"
proof -
  have "crash_image W (file_handle m) (file_handle m')"
    using assms(1) by (simp add: em_keeps_def crash_image_def em_inv_def)
  note c = crash_image_content [OF this assms(2,3)]
  have "em_content (m\<lparr>file_handle := file_handle m'\<rparr>) = em_content m'" by (simp add: em_content_def fun_eq_iff)
  then show ?thesis using c by simp
qed

text \<open>A session keeps the invariant of the database, and the file itself is one of those a crash may leave.\<close>

lemma session_db:
  assumes "session m0 A W m" "db_inv m0"
  shows "db_inv m \<and> crash_image W (file_handle m0) (file_handle m)"
proof -
  have k: "em_keeps W m0 m" using session_keeps [OF assms(1)] assms(2) by (simp add: db_inv_def)
  then have im: "crash_image W (file_handle m0) (file_handle m)"
    by (simp add: em_keeps_def crash_image_def em_inv_def)
  have c: "db_inv (m0\<lparr>file_handle := file_handle m\<rparr>)" using crash_image_db [OF assms(2) im] by simp
  have "disk_header m = disk_header (m0\<lparr>file_handle := file_handle m\<rparr>)" by (simp add: disk_header_def fun_eq_iff)
  then have "db_inv m" using c k by (simp add: db_inv_def em_keeps_def)
  then show ?thesis using im by simp
qed

lemma session_alloc:
  assumes "session m0 A W m" "db_inv m0" "alloc_inv m0"
  shows "alloc_inv m" "live_blocks m = A \<union> live_blocks m0" "A \<inter> live_blocks m0 = {}"
  using session_gives [OF assms(1,3)] assms(2) by (simp_all add: em_gives_def db_inv_def)

lemma get_free_block_id_below:
  assumes "alloc_inv m" "unat (max_block m) + 1 < 2 ^ 64"
  shows "max_block m \<le> max_block (snd (single_file_block_manager_get_free_block_id m))"
    "fst (single_file_block_manager_get_free_block_id m) \<notin> live_blocks m"
    "fst (single_file_block_manager_get_free_block_id m) < max_block (snd (single_file_block_manager_get_free_block_id m))"
proof -
  have g: "single_file_block_manager_get_free_block_id m =
      (fst (single_file_block_manager_get_free_block_id m), snd (single_file_block_manager_get_free_block_id m))" by simp
  have "em_inv m" using assms(1) by (simp add: alloc_inv_def)
  from get_free_block_id_ok [OF this g] show "max_block m \<le> max_block (snd (single_file_block_manager_get_free_block_id m))"
    using assms(2) by (simp add: u64_ord unat_inc_u64 split: if_splits)
  from get_free_block_id_alloc [OF assms(1) g assms(2)] have
    "fst (single_file_block_manager_get_free_block_id m) \<notin> live_blocks m"
    "fst (single_file_block_manager_get_free_block_id m) \<in> live_blocks (snd (single_file_block_manager_get_free_block_id m))"
    by auto
  then show "fst (single_file_block_manager_get_free_block_id m) \<notin> live_blocks m"
    "fst (single_file_block_manager_get_free_block_id m) < max_block (snd (single_file_block_manager_get_free_block_id m))"
    by (simp_all add: live_blocks_def)
qed

lemma room_for_block:
  assumes "alloc_inv m" "12288 + 8192 * (unat (max_block m) + 1 + k) \<le> fl_space (file_handle m)"
  shows "em_addressable m (fst (single_file_block_manager_get_free_block_id m))" "unat (max_block m) + 1 + k < 2 ^ 64"
proof -
  have em: "em_inv m" using assms(1) by (simp add: alloc_inv_def)
  then show n: "unat (max_block m) + 1 + k < 2 ^ 64"
    using assms(2) by (simp add: em_inv_def file_inv_def PTRDIFF_LIMIT_def)
  let ?ids = "block_ids (free_list m)"
  have "?ids \<noteq> [] \<Longrightarrow> last ?ids < max_block m" using assms(1) by (simp add: alloc_inv_def)
  then have "unat (fst (single_file_block_manager_get_free_block_id m)) \<le> unat (max_block m)"
    using get_free_block_id_ok [OF em surjective_pairing] by (auto simp: u64_ord split: if_splits)
  then show "em_addressable m (fst (single_file_block_manager_get_free_block_id m))"
    using assms(2) by (simp add: em_addressable_def block_offset_def)
qed

section \<open>Checkpointed states\<close>

text \<open>
  What opening relies on: the active header on the file names the block that holds the free list, if there is one. This is
  the one block that must not be overwritten before the next checkpoint.
\<close>

abbreviation active_disk_header :: "SingleFileExtentManager \<Rightarrow> DatabaseHeader" where
  "active_disk_header m \<equiv> disk_header m (header_slot (active_header m))"

definition free_list_block :: "SingleFileExtentManager \<Rightarrow> block_id_t set" where
  "free_list_block m = (if block_ids (free_list m) = [] then {} else {dh_free_list_id (active_disk_header m)})"

definition recoverable :: "SingleFileExtentManager \<Rightarrow> bool" where
  "recoverable m \<longleftrightarrow> db_inv m \<and> alloc_ok (em_mem m) \<and>
     (\<exists>s. free_list_stored m (dh_free_list_id (active_disk_header m)) s \<and> id_slice s \<and> unat (sl_size s) \<le> 1021 \<and>
        block_ids s = block_ids (free_list m))"

lemma recoverable_db: "recoverable m \<Longrightarrow> db_inv m"
  by (simp add: recoverable_def)

text \<open>When no block was recorded twice, and only blocks in use were, the manager's books are right as well.\<close>

definition sound_use :: "SingleFileExtentManager \<Rightarrow> bool" where
  "sound_use m \<longleftrightarrow> distinct (block_ids (used_blocks m)) \<and> set (block_ids (used_blocks m)) \<subseteq> live_blocks m"

definition checkpointed :: "SingleFileExtentManager \<Rightarrow> bool" where
  "checkpointed m \<longleftrightarrow> recoverable m \<and> alloc_inv m \<and> free_list_block m \<subseteq> live_blocks m \<and>
     (\<forall>i \<in> set (block_ids (free_list m)). i < dh_block_count (active_disk_header m)) \<and>
     dh_block_count (active_disk_header m) \<le> max_block m"

text \<open>The state of a checkpoint that has been done: its header on the medium, and the blocks it has left alone.\<close>

definition checkpoint_done :: "SingleFileExtentManager \<Rightarrow> DatabaseHeader \<Rightarrow> SingleFileExtentManager \<Rightarrow> bool" where
  "checkpoint_done m h m1 \<longleftrightarrow> recoverable m1 \<and> meta_block m1 = dh_meta_block h \<and> iteration_count m1 = iteration_count m + 1 \<and>
     block_ids (free_list m1) = block_ids (used_blocks m) \<and> block_ids (used_blocks m1) = [] \<and>
     dh_block_count (active_disk_header m1) = max_block m \<and> fl_space (file_handle m1) = fl_space (file_handle m) \<and>
     max_block m1 = (if block_ids (used_blocks m) = [] then max_block m
                     else max_block (snd (single_file_block_manager_get_free_block_id m))) \<and>
     free_list_block m1 =
       (if block_ids (used_blocks m) = [] then {} else {fst (single_file_block_manager_get_free_block_id m)}) \<and>
     (\<forall>j d. j \<notin> free_list_block m1 \<longrightarrow> em_content m j = Some d \<longrightarrow> em_content m1 j = Some d)"

lemma em_content_not_INVALID: "em_inv m \<Longrightarrow> em_content m j = Some d \<Longrightarrow> j \<noteq> INVALID_BLOCK"
  by (auto simp: em_content_def em_inv_def file_inv_def block_offset_def PTRDIFF_LIMIT_def unat_INVALID_BLOCK split: if_splits)

lemma checkpoint_is_done:
  assumes "db_inv m" "alloc_ok (em_mem m)" "em_addressable m (fst (single_file_block_manager_get_free_block_id m))"
    and "unat (iteration_count m) + 1 < 2 ^ 64" "single_file_block_manager_write_header m h = Some m1"
  shows "checkpoint_done m h m1"
proof -
  let ?used = "block_ids (used_blocks m)"
  have em: "em_inv m" using assms(1) by (simp add: db_inv_def)
  note n = write_header_fits [OF em assms(5)]
  from write_header_ok [OF assms(1,2) n assms(3,4), of h] obtain fid m' where m': "single_file_block_manager_write_header m h = Some m'"
    and w': "db_inv m'" "active_disk_header m' =
          h\<lparr>dh_iteration := iteration_count m + 1, dh_free_list_id := fid, dh_block_count := max_block m\<rparr>"
       "block_ids (free_list m') = ?used" "iteration_count m' = iteration_count m + 1"
       "free_list_stored m' fid (used_blocks m)"
       "?used \<noteq> [] \<longrightarrow> fid = fst (single_file_block_manager_get_free_block_id m)"
       "max_block m' = (if ?used = [] then max_block m else max_block (snd (single_file_block_manager_get_free_block_id m)))"
       "\<forall>j d. j \<noteq> fid \<longrightarrow> em_content m j = Some d \<longrightarrow> em_content m' j = Some d" "em_mem m' = em_mem m"
       "block_ids (used_blocks m') = []" "fl_space (file_handle m') = fl_space (file_handle m)"
    by blast
  have "m' = m1" using m' assms(5) by simp
  note w = w' [unfolded this]
  have "id_slice (used_blocks m)" using em by (simp add: em_inv_def)
  then have "recoverable m1" using w(1-3,5,9) n assms(2) unfolding recoverable_def by (intro conjI exI [of _ "used_blocks m"]) simp_all
  moreover have fb: "free_list_block m1 = (if ?used = [] then {} else {fid})" using w(2,3) by (simp add: free_list_block_def)
  have "em_content m1 j = Some d" if "j \<notin> free_list_block m1" "em_content m j = Some d" for j d
  proof (cases "?used = []")
    case True
    then have "fid = INVALID_BLOCK" using w(5) by (simp add: free_list_stored_def)
    then show ?thesis using w(8) that(2) em_content_not_INVALID [OF em that(2)] by simp
  qed (use w(8) that fb in simp)
  moreover have "meta_block m1 = dh_meta_block h" using w(1,2) by (simp add: db_inv_def)
  ultimately show ?thesis using w fb unfolding checkpoint_done_def by simp
qed

lemma checkpoint_blocks:
  assumes "checkpoint_done m h m1" "alloc_inv m" "sound_use m" "unat (max_block m) + 1 < 2 ^ 64"
  shows "checkpointed m1" "free_list_block m1 \<inter> live_blocks m = {}"
    "live_blocks m - set (block_ids (used_blocks m)) \<subseteq> live_blocks m1"
proof -
  let ?used = "block_ids (used_blocks m)"
  have d: "recoverable m1" "block_ids (free_list m1) = ?used" "dh_block_count (active_disk_header m1) = max_block m"
      "max_block m1 = (if ?used = [] then max_block m else max_block (snd (single_file_block_manager_get_free_block_id m)))"
      "free_list_block m1 = (if ?used = [] then {} else {fst (single_file_block_manager_get_free_block_id m)})"
    using assms(1) by (simp_all add: checkpoint_done_def)
  note below = get_free_block_id_below [OF assms(2,4)]
  have le: "max_block m \<le> max_block m1" using d(4) below(1) by simp
  have used: "\<forall>i \<in> set ?used. i < max_block m" using assms(3) by (auto simp: sound_use_def live_blocks_def)
  have "em_inv m1" using d(1) by (simp add: recoverable_def db_inv_def)
  moreover have "\<forall>i \<in> set ?used. i < max_block m1" using used le by auto
  ultimately have "alloc_inv m1" using assms(3) d(2) by (simp add: alloc_inv_def sound_use_def)
  moreover have "free_list_block m1 \<subseteq> live_blocks m1"
    using d below(2,3) assms(3) by (auto simp: live_blocks_def sound_use_def)
  ultimately show "checkpointed m1" unfolding checkpointed_def using d(1-3) used le by simp
  show "free_list_block m1 \<inter> live_blocks m = {}" using d(5) below(2) by simp
  show "live_blocks m - set ?used \<subseteq> live_blocks m1" using d(2) le by (auto simp: live_blocks_def)
qed

lemma created_checkpointed:
  assumes "alloc_ok M" "12288 \<le> fl_space f" "fl_space f < PTRDIFF_LIMIT"
    and "create_new_database M path (Some f) True = Some (Some m)"
  shows "checkpointed m \<and> block_ids (used_blocks m) = []"
proof -
  from create_ok [OF assms(1-3), of path] assms(4) have m: "db_inv m" "active_header m = 1" "max_block m = 0"
      "block_ids (free_list m) = []" "block_ids (used_blocks m) = []" "em_mem m = M"
      "disk_header m 8192 = \<lparr>dh_iteration = 1, dh_meta_block = INVALID_BLOCK, dh_free_list_id = INVALID_BLOCK, dh_block_count = 0\<rparr>"
    by auto
  have "id_slice (free_list m)" using m(1) by (simp add: db_inv_def em_inv_def)
  moreover have "unat (sl_size (free_list m)) = 0" using m(4) length_block_ids [of "free_list m"] by simp
  ultimately have "\<exists>s. free_list_stored m INVALID_BLOCK s \<and> id_slice s \<and> unat (sl_size s) \<le> 1021 \<and> block_ids s = []"
    using m(4) by (intro exI [of _ "free_list m"]) (simp add: free_list_stored_def)
  moreover have "active_disk_header m =
      \<lparr>dh_iteration = 1, dh_meta_block = INVALID_BLOCK, dh_free_list_id = INVALID_BLOCK, dh_block_count = 0\<rparr>"
    using m(2,7) by (simp add: header_slot_def)
  moreover have "alloc_inv m" using m(1,4) by (simp add: alloc_inv_def db_inv_def)
  ultimately show ?thesis using m(1,3-6) assms(1) by (simp add: checkpointed_def recoverable_def free_list_block_def)
qed

text \<open>
  Opening a file that differs from a recoverable one anywhere but in the block of the free list. A file whose free list is
  held by a block beyond the block count opens to a manager that takes this block for free.
\<close>

definition reopened :: "SingleFileExtentManager \<Rightarrow> block_id_t set \<Rightarrow> SingleFileExtentManager \<Rightarrow> bool" where
  "reopened m W m' \<longleftrightarrow> recoverable m' \<and> meta_block m' = meta_block m \<and> iteration_count m' = iteration_count m \<and>
     block_ids (free_list m') = block_ids (free_list m) \<and> max_block m' = dh_block_count (active_disk_header m) \<and>
     free_list_block m' = free_list_block m \<and> set (block_ids (used_blocks m')) = free_list_block m \<and>
     distinct (block_ids (used_blocks m')) \<and>
     (\<forall>j d. j \<notin> W \<longrightarrow> em_content m j = Some d \<longrightarrow> em_content m' j = Some d)"

lemma recoverable_reopens:
  assumes "recoverable m" "alloc_ok M" "W \<inter> free_list_block m = {}" "crash_image W (file_handle m) f"
  shows "\<exists>m'. create_new_database M path (Some f) False = Some (Some m') \<and> reopened m W m' \<and>
     active_disk_header m' = active_disk_header m"
proof -
  let ?m = "m\<lparr>file_handle := f\<rparr>" and ?fid = "dh_free_list_id (active_disk_header m)" and ?free = "block_ids (free_list m)"
  from assms(1) obtain s where db: "db_inv m"
    and s: "free_list_stored m ?fid s" "id_slice s" "unat (sl_size s) \<le> 1021" "block_ids s = ?free"
    by (auto simp: recoverable_def)
  note c = crash_image_db [OF db assms(4), of "active_header m"]
  have adr: "em_addressable ?m = em_addressable m"
    using assms(4) by (simp add: crash_image_def em_addressable_def fun_eq_iff)
  have st: "free_list_stored ?m ?fid s"
  proof (cases "?free = []")
    case False
    then have "?fid \<notin> W" using assms(3) by (simp add: free_list_block_def)
    with s(1,4) False show ?thesis
      using crash_image_content [OF assms(4)] by (force simp: free_list_stored_def adr split: option.splits)
  qed (use s in \<open>simp add: free_list_stored_def\<close>)
  then obtain m' where m': "create_new_database M path (Some f) False = Some (Some m')" "db_inv m'"
      "active_header m' = active_header m"
      "meta_block m' = meta_block m" "iteration_count m' = iteration_count m" "block_ids (free_list m') = ?free"
      "fl_data (file_handle m') = fl_data f" "max_block m' = dh_block_count (active_disk_header m)"
      "fl_space (file_handle m') = fl_space f" "em_mem m' = M"
      "block_ids (used_blocks m') = (if ?free = [] then [] else [?fid])"
    using reopen_ok [of ?m M s path] c assms(2) s(2-4) by auto
  have cont: "em_content m' = em_content ?m" by (simp add: em_content_def m'(7) fun_eq_iff)
  have hd: "active_disk_header m' = active_disk_header m" using c m'(3,7) by (simp add: disk_header_def)
  have "free_list_stored m' ?fid s" using st free_list_stored_cong [OF cont] m'(9) by simp
  then have "recoverable m'" using m'(2,6,10) s(2-4) hd assms(2) by (auto simp: recoverable_def)
  moreover have "free_list_block m' = free_list_block m" using m'(6) hd by (simp add: free_list_block_def)
  moreover have "set (block_ids (used_blocks m')) = free_list_block m" "distinct (block_ids (used_blocks m'))"
    using m'(11) by (simp_all add: free_list_block_def)
  ultimately have "reopened m W m'"
    using m'(4-6,8) crash_image_content [OF assms(4)] by (simp add: reopened_def cont)
  with m'(1) hd show ?thesis by blast
qed

lemma reopened_sound:
  assumes "checkpointed m" "reopened m W m'"
  shows "alloc_inv m'"
  using assms by (auto simp: checkpointed_def reopened_def alloc_inv_def recoverable_def db_inv_def)

lemma reopened_checkpointed:
  assumes "checkpointed m" "reopened m W m'" "active_disk_header m' = active_disk_header m"
    and "\<forall>i \<in> free_list_block m. i < dh_block_count (active_disk_header m)"
  shows "checkpointed m'" "sound_use m'"
proof -
  have "free_list_block m \<subseteq> live_blocks m'"
    using assms(1,2,4) by (auto simp: checkpointed_def reopened_def live_blocks_def)
  then show "checkpointed m'" "sound_use m'"
    using assms(1-3) reopened_sound [OF assms(1,2)] by (auto simp: checkpointed_def reopened_def sound_use_def)
qed

section \<open>Properties\<close>

text \<open>
  C5. A checkpoint survives any crash before the header of the next one is written. After a checkpoint that returned, with room
  on the disk for one more block, the client may allocate blocks, read and write any blocks, also old ones and the same ones twice, and
  begin the next checkpoint. Whatever part of the writes reaches the file, in whatever order and however torn, as long
  as none of them goes to the block that holds the free list, opening the file gives the database of the checkpoint: its
  meta block, its iteration, its block count, its free list, and the contents of every block not written since. If, at the checkpoint, the
  manager's books were right and no block had been read twice or without being in use, they are right after opening, and no block handed out
  since the checkpoint is the block of the free list or one in use, so that a client who writes only what it is given meets the condition.
  (Blocks that were free and not handed out before the checkpoint count as in use from then on: the new free list replaces the
  old one.)
\<close>

theorem crash_keeps_checkpoint:
  assumes "db_inv m" "alloc_ok (em_mem m)" "alloc_ok M"
    and "em_addressable m (fst (single_file_block_manager_get_free_block_id m))" "unat (iteration_count m) + 1 < 2 ^ 64"
    and "single_file_block_manager_write_header m h = Some m1" "session m1 A W m2"
    and "W \<inter> free_list_block m1 = {}" "crash_image W (file_handle m1) f"
  shows "crash_image W (file_handle m1) (file_handle m2) \<and>
    (\<exists>m3. create_new_database M path (Some f) False = Some (Some m3) \<and> db_inv m3 \<and> meta_block m3 = dh_meta_block h \<and>
       iteration_count m3 = iteration_count m + 1 \<and> max_block m3 = max_block m \<and>
       block_ids (free_list m3) = block_ids (used_blocks m) \<and>
       (\<forall>j d. j \<notin> W \<longrightarrow> j \<notin> free_list_block m1 \<longrightarrow> em_content m j = Some d \<longrightarrow> em_content m3 j = Some d) \<and>
       (alloc_inv m \<and> sound_use m \<and> unat (max_block m) + 1 < 2 ^ 64 \<longrightarrow>
          alloc_inv m3 \<and> live_blocks m3 = live_blocks m - set (block_ids (used_blocks m)) \<union> set (block_ids (free_list m)) \<and>
          A \<inter> (free_list_block m1 \<union> (live_blocks m - set (block_ids (used_blocks m)))) = {}))"
proof -
  have d: "checkpoint_done m h m1" by (rule checkpoint_is_done [OF assms(1,2,4-6)])
  then have r: "recoverable m1" by (simp add: checkpoint_done_def)
  note db1 = recoverable_db [OF r]
  from recoverable_reopens [OF r assms(3,8,9), of path] obtain m3 where
    m3: "create_new_database M path (Some f) False = Some (Some m3)" "reopened m1 W m3" by blast
  have sound: "alloc_inv m3 \<and> live_blocks m3 = live_blocks m - set (block_ids (used_blocks m)) \<union> set (block_ids (free_list m)) \<and>
      A \<inter> (free_list_block m1 \<union> (live_blocks m - set (block_ids (used_blocks m)))) = {}"
    if s: "alloc_inv m" "sound_use m" "unat (max_block m) + 1 < 2 ^ 64"
  proof -
    note c = checkpoint_blocks [OF d s]
    then have "A \<inter> live_blocks m1 = {}" using session_alloc(3) [OF assms(7) db1] by (simp add: checkpointed_def)
    then have "A \<inter> (free_list_block m1 \<union> (live_blocks m - set (block_ids (used_blocks m)))) = {}"
      using c by (auto simp: checkpointed_def)
    moreover have "live_blocks m3 = live_blocks m - set (block_ids (used_blocks m)) \<union> set (block_ids (free_list m))"
      using m3(2) d s(1,2) by (auto simp: live_blocks_def alloc_inv_def sound_use_def reopened_def checkpoint_done_def)
    ultimately show ?thesis using reopened_sound [OF c(1) m3(2)] by blast
  qed
  have "recoverable m3" "meta_block m3 = dh_meta_block h" "iteration_count m3 = iteration_count m + 1" "max_block m3 = max_block m"
      "block_ids (free_list m3) = block_ids (used_blocks m)"
      "\<forall>j d. j \<notin> W \<longrightarrow> j \<notin> free_list_block m1 \<longrightarrow> em_content m j = Some d \<longrightarrow> em_content m3 j = Some d"
    using m3(2) d by (simp_all add: reopened_def checkpoint_done_def)
  with session_db [OF assms(7) db1] recoverable_db [of m3] m3(1) sound show ?thesis by blast
qed

text \<open>
  A database in which block 0 is written, and read, and superseded by a checkpoint: its header names the block 1 that
  holds the free list, which is block 0.
\<close>

abbreviation sample_header :: DatabaseHeader where
  "sample_header \<equiv> \<lparr>dh_iteration = 0, dh_meta_block = 7, dh_free_list_id = 0, dh_block_count = 0\<rparr>"

definition sample_checkpoint :: "SingleFileExtentManager \<Rightarrow> SingleFileExtentManager \<Rightarrow> SingleFileExtentManager \<Rightarrow> bool" where
  "sample_checkpoint m0 m m1 \<longleftrightarrow> create_new_database ample_memory [100, 98] (Some sample_disk) True = Some (Some m0) \<and>
     session m0 {0} {0} m \<and> db_inv m \<and> alloc_inv m \<and> alloc_ok (em_mem m) \<and> block_ids (used_blocks m) = [0] \<and>
     max_block m = 1 \<and> iteration_count m = 1 \<and> sound_use m \<and>
     em_addressable m (fst (single_file_block_manager_get_free_block_id m)) \<and>
     single_file_block_manager_write_header m sample_header = Some m1 \<and> checkpoint_done m sample_header m1 \<and>
     db_inv m1 \<and> alloc_inv m1 \<and> free_list_block m1 = {1} \<and> block_ids (free_list m1) = [0] \<and>
     dh_block_count (active_disk_header m1) = 1 \<and> fl_space (file_handle m1) = 1000000 \<and> em_mem m1 = ample_memory \<and>
     iteration_count m1 = 2 \<and> meta_block m1 = 7 \<and> max_block m1 = 2"

lemma sample_checkpoint: "\<exists>m0 m m1. sample_checkpoint m0 m m1"
proof -
  from sample_create obtain m0 where
    m0: "create_new_database ample_memory [100, 98] (Some sample_disk) True = Some (Some m0)" "db_inv m0" "iteration_count m0 = 1"
       "block_ids (free_list m0) = []" "block_ids (used_blocks m0) = []" "em_mem m0 = ample_memory" "max_block m0 = 0"
       "fl_space (file_handle m0) = 1000000" "slice_room ample_memory 100000 (used_blocks m0)"
    by blast
  have M: "alloc_ok ample_memory" by (simp add: ample_memory_def)
  have em: "em_inv m0" and al: "alloc_inv m0" using m0(2,4) by (simp_all add: alloc_inv_def db_inv_def)
  obtain bo m2 where c: "single_file_block_manager_create_block m0 = (bo, m2)" by fastforce
  have i: "fst (single_file_block_manager_get_free_block_id m0) = 0"
    using get_free_block_id_ok [OF em surjective_pairing] m0(4,7) by simp
  from create_block_ok [OF em c] m0(6) M i obtain b where b: "bo = Some b" "block_ok b" "blk_id b = 0"
      "single_file_block_manager_get_free_block_id m0 = (0, m2)" by auto
  note g = get_free_block_id_ok [OF em b(4)]
  obtain m3 b' where wr: "single_file_block_manager_write m2 b = (m3, b')" by fastforce
  have ad: "em_addressable m2 (blk_id b)" using g m0(8) b(3) by (simp add: em_addressable_def block_offset_def)
  note w = em_write_ok [OF _ ad b(2) wr]
  then obtain f3 where m3: "m3 = m2\<lparr>file_handle := f3\<rparr>" using g by blast
  obtain m b2 where rd: "single_file_block_manager_read m3 b' = (m, b2)" by fastforce
  have b': "block_ok b'" "blk_id b' = 0" "em_inv m3" using w g b(3) by simp_all
  note r = em_read_ok [OF b'(3,1) rd]
  have c1: "em_call m0 {0} {} m2" using creates [OF c] m0(7) i by simp
  have c2: "em_call m2 {} {0} m3" using writes [OF b(2) ad wr] b(3) by simp
  have c3: "em_call m3 {} {} m" by (rule reads [OF b'(1) rd])
  have s: "session m0 {0} {0} m" using calls [OF calls [OF calls [OF begins c1] c2] c3] by simp
  have u: "used_blocks m = push_block_id ample_memory (used_blocks m0) 0" using r b' g m3 m0(6) by simp
  have sl: "id_slice (used_blocks m0)" "slice_room ample_memory (Suc 0) (used_blocks m0)"
    using em slice_room_mono [OF m0(9), of "Suc 0"] by (simp_all add: em_inv_def)
  have used: "block_ids (used_blocks m) = [0]" using push_block_id_room [OF sl] m0(5) by (simp add: u)
  have fr: "free_list m = free_list m0" "max_block m = 1"
  proof -
    from r obtain ub fh where "m = m3\<lparr>used_blocks := ub, file_handle := fh\<rparr>" by blast
    then show "free_list m = free_list m0" "max_block m = 1" using m3 g m0(4,7) by simp_all
  qed
  have long: "12288 \<le> length (fl_data (file_handle m0))" using m0(2) by (simp add: db_inv_def)
  have k: "em_keeps {0} m0 m" by (rule session_keeps [OF s em long])
  have m: "db_inv m" "alloc_inv m" "em_mem m = ample_memory" "iteration_count m = 1" "fl_space (file_handle m) = 1000000"
    using session_db [OF s m0(2)] session_alloc(1) [OF s m0(2) al] k m0(3,6,8) by (simp_all add: em_keeps_def)
  have su: "sound_use m" using used fr m0(4) by (simp add: sound_use_def live_blocks_def)
  have em1: "em_inv m" using k by (simp add: em_keeps_def)
  have nx: "fst (single_file_block_manager_get_free_block_id m) = 1" "max_block (snd (single_file_block_manager_get_free_block_id m)) = 2"
    using get_free_block_id_ok [OF em1 surjective_pairing] fr m0(4) by (simp_all split: if_splits)
  have side: "alloc_ok (em_mem m)" "unat (sl_size (used_blocks m)) \<le> 1021" "unat (iteration_count m) + 1 < 2 ^ 64"
      "em_addressable m (fst (single_file_block_manager_get_free_block_id m))" "unat (max_block m) + 1 < 2 ^ 64"
    using M m(3-5) arg_cong [OF used, of length] nx fr(2) by (simp_all add: em_addressable_def block_offset_def)
  from write_header_ok [OF m(1) side(1,2,4,3), of sample_header] m(3) obtain m1 where
    w1: "single_file_block_manager_write_header m sample_header = Some m1" "em_mem m1 = ample_memory" by auto
  note d = checkpoint_is_done [OF m(1) side(1,4,3) w1(1)]
  note cb = checkpoint_blocks [OF d m(2) su side(5)]
  have "db_inv m1" using d recoverable_db by (simp add: checkpoint_done_def)
  then show ?thesis
    using m0(1) s m used fr(2) su side w1 d cb(1) nx unfolding sample_checkpoint_def
    by (intro exI [of _ m0] exI [of _ m] exI [of _ m1]) (simp add: checkpoint_done_def checkpointed_def)
qed

theorem checkpoint_then_open_witness:
  "\<exists>m0 m m1 m3. sample_checkpoint m0 m m1 \<and> block_ids (used_blocks m) = [0] \<and>
     create_new_database ample_memory [100, 98] (Some (file_handle m1)) False = Some (Some m3) \<and>
     meta_block m3 = 7 \<and> iteration_count m3 = 2 \<and> max_block m3 = 1 \<and> block_ids (free_list m3) = [0]"
proof -
  obtain m0 m m1 where sc: "sample_checkpoint m0 m m1" using sample_checkpoint by blast
  then have m: "db_inv m" "alloc_ok (em_mem m)" "block_ids (used_blocks m) = [0]" "max_block m = 1" "iteration_count m = 1"
      "em_addressable m (fst (single_file_block_manager_get_free_block_id m))" "unat (iteration_count m) + 1 < 2 ^ 64"
      "single_file_block_manager_write_header m sample_header = Some m1"
    by (simp_all add: sample_checkpoint_def)
  have n: "unat (sl_size (used_blocks m)) \<le> 1021" using arg_cong [OF m(3), of length] by simp
  have M: "alloc_ok ample_memory" by (simp add: ample_memory_def)
  from checkpoint_then_open [OF m(1,2) M n m(6,7), of sample_header "[100, 98]"] sc m show ?thesis by auto
qed

text \<open>Then the client is given block 0 again, and writes it.\<close>

lemma sample_next_session:
  assumes "sample_checkpoint m0 m m1"
  shows "\<exists>m2. session m1 {0} {0} m2 \<and> em_content m2 0 \<noteq> None"
proof -
  have c: "db_inv m1" "block_ids (free_list m1) = [0]" "fl_space (file_handle m1) = 1000000" "em_mem m1 = ample_memory"
      "max_block m1 = 2"
    using assms by (simp_all add: sample_checkpoint_def)
  have M: "alloc_ok ample_memory" by (simp add: ample_memory_def)
  have em: "em_inv m1" using c(1) by (simp add: db_inv_def)
  obtain bo m2 where cr: "single_file_block_manager_create_block m1 = (bo, m2)" by fastforce
  have i: "fst (single_file_block_manager_get_free_block_id m1) = 0"
    using get_free_block_id_ok [OF em surjective_pairing] c(2) by simp
  from create_block_ok [OF em cr] c(4) M i obtain b where b: "bo = Some b" "block_ok b" "blk_id b = 0" by auto
  have c2: "em_call m1 {0} {} m2" using creates [OF cr] c(5) i by simp
  have em2: "em_inv m2" "em_addressable m2 = em_addressable m1"
    using single_file.create_law [of m1 b m2] em cr b(1) by simp_all
  have ad: "em_addressable m2 (blk_id b)" using c(3) b(3) by (simp add: em2(2) em_addressable_def block_offset_def)
  obtain m3 b' where wr: "single_file_block_manager_write m2 b = (m3, b')" by fastforce
  have c3: "em_call m2 {} {0} m3" using writes [OF b(2) ad wr] b(3) by simp
  have "session m1 {0} {0} m3" using calls [OF calls [OF begins c2] c3] by simp
  moreover have "em_content m3 0 \<noteq> None" using single_file.write_law [OF em2(1) ad b(2), of m3 b'] wr b(3) by simp
  ultimately show ?thesis by blast
qed

theorem crash_keeps_checkpoint_witness:
  "\<exists>m0 m m1 m2 m3. sample_checkpoint m0 m m1 \<and> session m1 {0} {0} m2 \<and> em_content m2 0 \<noteq> None \<and>
     create_new_database ample_memory [100, 98] (Some (file_handle m2)) False = Some (Some m3) \<and>
     meta_block m3 = 7 \<and> iteration_count m3 = 2 \<and> block_ids (free_list m3) = [0] \<and> alloc_inv m3"
proof -
  obtain m0 m m1 where sc: "sample_checkpoint m0 m m1" using sample_checkpoint by blast
  then obtain m2 where s: "session m1 {0} {0} m2" "em_content m2 0 \<noteq> None" using sample_next_session by blast
  have m: "db_inv m" "alloc_inv m" "alloc_ok (em_mem m)" "block_ids (used_blocks m) = [0]" "sound_use m"
      "em_addressable m (fst (single_file_block_manager_get_free_block_id m))" "iteration_count m = 1"
      "unat (iteration_count m) + 1 < 2 ^ 64" "unat (max_block m) + 1 < 2 ^ 64"
      "single_file_block_manager_write_header m sample_header = Some m1" "db_inv m1" "{0} \<inter> free_list_block m1 = {}"
    using sc by (simp_all add: sample_checkpoint_def)
  from session_db [OF s(1) m(11)] have c: "crash_image {0} (file_handle m1) (file_handle m2)" by simp
  have M: "alloc_ok ample_memory" by (simp add: ample_memory_def)
  from crash_keeps_checkpoint [OF m(1,3) M m(6,8,10) s(1) m(12) c, of "[100, 98]"] m(2,4,5,7,9) obtain m3 where
    "create_new_database ample_memory [100, 98] (Some (file_handle m2)) False = Some (Some m3)"
    "meta_block m3 = 7 \<and> iteration_count m3 = 2 \<and> block_ids (free_list m3) = [0] \<and> alloc_inv m3" by auto
  with sc s show ?thesis by blast
qed

end
