(* ===== verification/Persist.thy ===== *)
theory Persist
  imports Checkpoint Crash
begin

text \<open>
  From the catalog to the medium and back (\<^verbatim>\<open>src/storage/table/storage.c\<close>, \<^verbatim>\<open>src/parse/parser.c\<close>): the
  descriptions of tables are written to the metadata stream, a checkpoint makes that stream the one of the database, the
  program goes on and crashes, the file is opened, and the descriptions are read.
\<close>

section \<open>Descriptions of several tables in one stream\<close>

fun write_tables ::
  "'m ExtentManagerVTable \<Rightarrow> heap \<Rightarrow> 'm \<times> MetaBlockWriter \<Rightarrow> addr list \<Rightarrow> ('m \<times> MetaBlockWriter) option" where
  "write_tables vt h mw [] = Some mw"
| "write_tables vt h mw (e # es) =
     do { mw1 \<leftarrow> checkpointManager_write_table_catalog vt h mw e; write_tables vt h mw1 es }"

fun read_tables ::
  "allocator \<Rightarrow> 'm ExtentManagerVTable \<Rightarrow> nat \<Rightarrow> 'm \<times> MetaBlockReader \<Rightarrow>
     (CreateTableInfo list \<times> 'm \<times> MetaBlockReader) option" where
  "read_tables M vt 0 mr = Some ([], mr)"
| "read_tables M vt (Suc n) mr =
     do {
       (t, mr1) \<leftarrow> createTableInfo_deserialize M vt mr;
       (ts, mr2) \<leftarrow> read_tables M vt n mr1;
       Some (t # ts, mr2)
     }"

text \<open>
  The creation request that describes a table of the catalog, and the bytes it takes in a stream. A column keeps everything
  but its number, which is its position.
\<close>

definition describes :: "heap \<Rightarrow> addr \<Rightarrow> CreateTableInfo \<Rightarrow> bool" where
  "describes h e i \<longleftrightarrow> (\<exists>t sc c. table_part h e = Some t \<and> h_cells h (tb_schema t) = Some sc \<and>
     ce_name (base sc) = Some (cti_schema_name i) \<and> h_cells h e = Some c \<and> ce_name (base c) = Some (cti_table_name i) \<and>
     unat (tb_column_count t) = length (tb_columns t) \<and> (\<forall>c \<in> set (tb_columns t). column_ok c) \<and>
     cti_if_not_exists i \<and> cti_columns i = number_columns 0 (tb_columns t) \<and> cti_col_count i = tb_column_count t)"

lemma describesE:
  assumes "describes h e i"
  obtains t sc c where "table_part h e = Some t" "h_cells h (tb_schema t) = Some sc"
      "ce_name (base sc) = Some (cti_schema_name i)" "h_cells h e = Some c" "ce_name (base c) = Some (cti_table_name i)"
      "unat (tb_column_count t) = length (tb_columns t)" "\<forall>c \<in> set (tb_columns t). column_ok c"
      "cti_if_not_exists i" "cti_columns i = number_columns 0 (tb_columns t)" "cti_col_count i = tb_column_count t"
  using assms unfolding describes_def by (elim exE conjE) (rule that)

definition info_bytes :: "CreateTableInfo \<Rightarrow> bytes" where
  "info_bytes i = string_bytes (cti_schema_name i) @ string_bytes (cti_table_name i) @
     word_bytes (of_nat (length (cti_columns i)) :: u32) @ concat (map column_bytes (cti_columns i))"

lemma number_columns_bytes [simp]: "map column_bytes (number_columns i cs) = map column_bytes cs"
  by (induction cs arbitrary: i) (simp_all add: column_bytes_def)

lemma length_number_columns [simp]: "length (number_columns i cs) = length cs"
  by (induction cs arbitrary: i) simp_all

lemma length_info_bytes: "length (cti_columns i) \<le> length (info_bytes i) \<and> length (cti_schema_name i) \<le> length (info_bytes i) \<and>
    length (cti_table_name i) \<le> length (info_bytes i) \<and> info_bytes i \<noteq> []"
proof -
  have "length cs \<le> length (concat (map column_bytes cs))" for cs
    by (induction cs) (simp_all add: column_bytes_def string_bytes_def)
  from this [of "cti_columns i"] show ?thesis by (simp add: info_bytes_def string_bytes_def word_bytes_def)
qed

lemma write_table_items:
  assumes "describes h e i" "length (info_bytes i) < 2 ^ 31"
  shows "\<exists>items. concat items = info_bytes i \<and>
    (\<forall>vt (mw :: 'm \<times> MetaBlockWriter). checkpointManager_write_table_catalog vt h mw e = write_items vt mw items)"
proof -
  from assms(1) obtain t sc c where t: "table_part h e = Some t" "h_cells h (tb_schema t) = Some sc"
      "ce_name (base sc) = Some (cti_schema_name i)" "h_cells h e = Some c" "ce_name (base c) = Some (cti_table_name i)"
      "unat (tb_column_count t) = length (tb_columns t)" "\<forall>c \<in> set (tb_columns t). column_ok c"
      "cti_columns i = number_columns 0 (tb_columns t)"
    by (rule describesE)
  have "length (tb_columns t) < 2 ^ 31" using length_info_bytes [of i] assms(2) t(8) by simp
  note w = write_table_catalog_items [OF t(1-6) this t(7)]
  show ?thesis
    by (rule exI [of _ "table_items (cti_schema_name i) (cti_table_name i) (tb_columns t)"])
      (simp add: concat_table_items info_bytes_def t(8) w)
qed

lemma write_tables_items:
  assumes "list_all2 (describes h) es is" "length (concat (map info_bytes is)) < 2 ^ 31"
  shows "\<exists>items. concat items = concat (map info_bytes is) \<and>
    (\<forall>vt (mw :: 'm \<times> MetaBlockWriter). write_tables vt h mw es = write_items vt mw items)"
  using assms
proof (induction es "is" rule: list_all2_induct)
  case Nil
  show ?case by (rule exI [of _ "[]"]) simp
next
  case (Cons e es i "is")
  then obtain xs where xs: "concat xs = concat (map info_bytes is)"
      "\<And>vt (mw :: 'm \<times> MetaBlockWriter). write_tables vt h mw es = write_items vt mw xs" by auto
  from write_table_items [OF Cons(1)] Cons(4) obtain ys where ys: "concat ys = info_bytes i"
      "\<And>vt (mw :: 'm \<times> MetaBlockWriter). checkpointManager_write_table_catalog vt h mw e = write_items vt mw ys" by auto
  show ?case by (rule exI [of _ "ys @ xs"]) (simp add: xs ys write_items_append)
qed

context extent_store
begin

lemma read_tables_sees:
  assumes "inv m" "alloc_ok M" "list_all2 (describes h) es is" "length (concat (map info_bytes is)) < 2 ^ 32"
    and "reader_sees m r (concat (map info_bytes is) @ ys)"
  shows "\<exists>m' r'. read_tables M vt (length is) (m, r) = Some (is, m', r')"
  using assms(3,1,4,5)
proof (induction es "is" arbitrary: m r rule: list_all2_induct)
  case Nil
  then show ?case by simp
next
  case (Cons e es i "is")
  from Cons(1) obtain t :: TablePart where t: "unat (tb_column_count t) = length (tb_columns t)" "\<forall>c \<in> set (tb_columns t). column_ok c"
      "cti_if_not_exists i" "cti_columns i = number_columns 0 (tb_columns t)" "cti_col_count i = tb_column_count t"
    by (rule describesE)
  have n: "tb_column_count t = of_nat (length (tb_columns t))"
    using arg_cong [OF t(1), of "of_nat :: nat \<Rightarrow> usize"] by simp
  have small: "length (cti_schema_name i) < 2 ^ 32" "length (cti_table_name i) < 2 ^ 32" "length (tb_columns t) < 2 ^ 32"
    using length_info_bytes [of i] Cons(5) t(4) by simp_all
  have "reader_sees m r (string_bytes (cti_schema_name i) @ string_bytes (cti_table_name i) @
      word_bytes (of_nat (length (tb_columns t)) :: u32) @ concat (map column_bytes (tb_columns t)) @
      (concat (map info_bytes is) @ ys))"
    using Cons(6) t(4) by (simp add: info_bytes_def [of i])
  from createTableInfo_sees [OF Cons(4) assms(2) small t(2) this] obtain m1 r1 where
    r1: "createTableInfo_deserialize M vt (m, r) = Some (i, m1, r1)" "inv m1" "reader_sees m1 r1 (concat (map info_bytes is) @ ys)"
    using t n by (cases i) auto
  from Cons.IH [OF r1(2) _ r1(3)] Cons(5) obtain m' r' where "read_tables M vt (length is) (m1, r1) = Some (is, m', r')" by auto
  then show ?case using r1(1) by simp
qed

end

section \<open>The stream and the checkpoint\<close>

lemma stream_written:
  assumes "db_inv m" "alloc_inv m" "alloc_ok (em_mem m)" "unat (max_block m) + 1 < 2 ^ 64"
    and "em_addressable m (fst (single_file_block_manager_get_free_block_id m))"
    and "concat items \<noteq> []" "length (concat items) \<le> 8176"
  shows "\<exists>m2 w2 m3 w3 pad.
     write_items single_file_block_manager_vtable (MetaBlockWriter_init single_file_block_manager_vtable m) items = Some (m2, w2) \<and>
     metaBlockWriter_deinit single_file_block_manager_vtable m2 w2 = Some (m3, w3) \<and> db_inv m3 \<and> alloc_inv m3 \<and>
     live_blocks m3 = insert (fst (single_file_block_manager_get_free_block_id m)) (live_blocks m) \<and>
     m3 = (snd (single_file_block_manager_get_free_block_id m))\<lparr>file_handle := file_handle m3\<rparr> \<and>
     fl_space (file_handle m3) = fl_space (file_handle m) \<and>
     block_chain (em_content m3) (em_addressable m3) (fst (single_file_block_manager_get_free_block_id m)) [concat items @ pad] \<and>
     (\<forall>j d. j \<noteq> fst (single_file_block_manager_get_free_block_id m) \<longrightarrow> em_content m j = Some d \<longrightarrow> em_content m3 j = Some d)"
proof -
  let ?vt = single_file_block_manager_vtable
  have em: "em_inv m" and long: "12288 \<le> length (fl_data (file_handle m))" using assms(1) by (simp_all add: db_inv_def)
  obtain bo m1 where c: "single_file_block_manager_create_block m = (bo, m1)" by fastforce
  from create_block_ok [OF em c] assms(3) obtain b i where
    b: "bo = Some b" "single_file_block_manager_get_free_block_id m = (i, m1)" "blk_id b = i" by blast
  note g = get_free_block_id_ok [OF em b(2)] and al = get_free_block_id_alloc [OF assms(2) b(2) assms(4)]
  from single_file.writer_init_ok [of m b m1] em c b(1) obtain w where
    w: "MetaBlockWriter_init ?vt m = (m1, w)" "writer_holds w b []" by auto
  from single_file.write_items_ok [OF w(2), of items m1] assms(7) obtain w2 b2 where
    w2: "write_items ?vt (m1, w) items = Some (m1, w2)" "writer_holds w2 b2 (concat items)" "blk_id b2 = i"
    using b(3) by auto
  have adr: "em_addressable m1 (blk_id b2)" using assms(5) g by (simp add: w2(3) b(2) em_addressable_def)
  from deinit_file [OF _ adr w2(2) assms(6)] g long obtain m3 w3 pad where
    d: "metaBlockWriter_deinit ?vt m1 w2 = Some (m3, w3)" "em_inv m3" "m3 = m1\<lparr>file_handle := file_handle m3\<rparr>"
       "fl_space (file_handle m3) = fl_space (file_handle m)"
       "length (fl_data (file_handle m)) \<le> length (fl_data (file_handle m3))"
       "take 12288 (fl_data (file_handle m3)) = take 12288 (fl_data (file_handle m))"
       "block_chain (em_content m3) (em_addressable m3) i [concat items @ pad]"
       "\<exists>mem. length mem = 8192 \<and> fl_data (file_handle m3) = file_put (block_offset i) mem (fl_data (file_handle m))"
    by (auto simp: w2(3) simp del: block_chain.simps)
  obtain f where m3: "m3 = m1\<lparr>file_handle := f\<rparr>" using d(3) by blast
  from g obtain fl mb where m1: "m1 = m\<lparr>free_list := fl, max_block := mb\<rparr>" by blast
  have r: "mem_read p n (fl_data f) = mem_read p n (fl_data (file_handle m))" if "p + n \<le> 12288" for p n
    using d(6) that by (intro take_eq_imp_mem_read_eq [of 12288]) (simp_all add: m3)
  then have "disk_header m3 (header_slot a) = disk_header m (header_slot a)" for a
    by (simp add: disk_header_def header_slot_def m3)
  then have "db_inv m3" using assms(1) d(2,5) r [of 8 4088] by (simp add: db_inv_def m3 m1)
  moreover have "alloc_inv m3 \<and> live_blocks m3 = live_blocks m1"
    using al alloc_inv_cong [of m1 m3] d(2) by (simp add: m3)
  moreover have "\<forall>j d. j \<noteq> i \<longrightarrow> em_content m j = Some d \<longrightarrow> em_content m3 j = Some d"
    using d(8) em_content_put [of m3 i _ m] by blast
  ultimately show ?thesis
    using w(1) w2(1) d(1,4,7) al by (simp add: b(2) m3 del: block_chain.simps) blast
qed

section \<open>The descriptions survive\<close>

text \<open>Writing the descriptions and the checkpoint that names them.\<close>

lemma catalog_checkpoint:
  assumes "db_inv m" "alloc_inv m" "alloc_ok (em_mem m)" "unat (sl_size (used_blocks m)) \<le> 1021"
    and "unat (iteration_count m) + 1 < 2 ^ 64" "12288 + 8192 * (unat (max_block m) + 2) \<le> fl_space (file_handle m)"
    and "list_all2 (describes h) es is" "es \<noteq> []" "length (concat (map info_bytes is)) \<le> 8176"
  shows "\<exists>b m1 w1 m2 w2 m3 d pad.
     mw_block (snd (MetaBlockWriter_init single_file_block_manager_vtable m)) = Some b \<and>
     write_tables single_file_block_manager_vtable h (MetaBlockWriter_init single_file_block_manager_vtable m) es = Some (m1, w1) \<and>
     metaBlockWriter_deinit single_file_block_manager_vtable m1 w1 = Some (m2, w2) \<and>
     single_file_block_manager_write_header m2 (hdr\<lparr>dh_meta_block := blk_id b\<rparr>) = Some m3 \<and>
     checkpoint_done m2 (hdr\<lparr>dh_meta_block := blk_id b\<rparr>) m3 \<and> alloc_inv m2 \<and> unat (max_block m2) + 1 < 2 ^ 64 \<and>
     live_blocks m2 = insert (blk_id b) (live_blocks m) \<and> blk_id b \<notin> live_blocks m \<and> used_blocks m2 = used_blocks m \<and>
     blk_id b \<notin> free_list_block m3 \<and> em_content m2 (blk_id b) = Some d \<and> drop 8 d = concat (map info_bytes is) @ pad \<and>
     (\<forall>j d. j \<noteq> blk_id b \<longrightarrow> em_content m j = Some d \<longrightarrow> em_content m2 j = Some d)"
proof -
  let ?vt = single_file_block_manager_vtable and ?i = "fst (single_file_block_manager_get_free_block_id m)"
  let ?bytes = "concat (map info_bytes is)"
  have len: "length es = length is" using assms(7) by (rule list_all2_lengthD)
  have em: "em_inv m" using assms(2) by (simp add: alloc_inv_def)
  have room: "em_addressable m ?i" "unat (max_block m) + 2 < 2 ^ 64"
    using room_for_block [OF assms(2), of 1] assms(6) by simp_all
  have "?bytes \<noteq> []" using len assms(8) length_info_bytes by (cases "is") auto
  moreover from write_tables_items [OF assms(7), where 'm = SingleFileExtentManager] assms(9) obtain items where
    items: "concat items = ?bytes" "\<And>mw. write_tables ?vt h mw es = write_items ?vt mw items" by auto
  ultimately obtain m1 w1 m2 w2 pad where
    w: "write_items ?vt (MetaBlockWriter_init ?vt m) items = Some (m1, w1)" "metaBlockWriter_deinit ?vt m1 w1 = Some (m2, w2)"
       "db_inv m2" "alloc_inv m2" "live_blocks m2 = insert ?i (live_blocks m)"
       "m2 = (snd (single_file_block_manager_get_free_block_id m))\<lparr>file_handle := file_handle m2\<rparr>"
       "fl_space (file_handle m2) = fl_space (file_handle m)"
       "block_chain (em_content m2) (em_addressable m2) ?i [?bytes @ pad]"
       "\<forall>j d. j \<noteq> ?i \<longrightarrow> em_content m j = Some d \<longrightarrow> em_content m2 j = Some d"
    using stream_written [OF assms(1-3) _ room(1), of items] room(2) assms(9) by auto
  obtain bo m0 where c: "single_file_block_manager_create_block m = (bo, m0)" by fastforce
  from create_block_ok [OF em c] assms(3) obtain b where
    b: "bo = Some b" "single_file_block_manager_get_free_block_id m = (?i, m0)" "blk_id b = ?i" by auto
  note g = get_free_block_id_ok [OF em b(2)] and al = get_free_block_id_alloc [OF assms(2) b(2)]
  have blk: "mw_block (snd (MetaBlockWriter_init ?vt m)) = Some b" using c b(1) by (simp add: MetaBlockWriter_init_def)
  obtain f2 where "m2 = m0\<lparr>file_handle := f2\<rparr>" using w(6) b(2) by (metis snd_conv)
  moreover from g obtain fl mb where "m0 = m\<lparr>free_list := fl, max_block := mb\<rparr>" by blast
  ultimately have m2: "used_blocks m2 = used_blocks m" "iteration_count m2 = iteration_count m" "em_mem m2 = em_mem m"
      "max_block m2 = max_block m0"
    by simp_all
  have pre: "em_addressable m2 (fst (single_file_block_manager_get_free_block_id m2))" "unat (max_block m2) + 1 < 2 ^ 64"
      "alloc_ok (em_mem m2)" "unat (sl_size (used_blocks m2)) \<le> 1021" "unat (iteration_count m2) + 1 < 2 ^ 64"
    using room_for_block [OF w(4), of 0] w(7) al assms(3-6) room(2) by (simp_all add: m2)
  obtain m3 where m3: "single_file_block_manager_write_header m2 (hdr\<lparr>dh_meta_block := ?i\<rparr>) = Some m3"
    using write_header_ok [OF w(3) pre(3,4,1,5)] by blast
  have d: "checkpoint_done m2 (hdr\<lparr>dh_meta_block := ?i\<rparr>) m3" by (rule checkpoint_is_done [OF w(3) pre(3,1,5) m3])
  have "?i \<notin> free_list_block m3"
    using d get_free_block_id_below(2) [OF w(4) pre(2)] w(5) by (auto simp: checkpoint_done_def)
  moreover obtain x where "em_content m2 ?i = Some x" "drop 8 x = ?bytes @ pad" using w(8) by (auto split: option.splits)
  moreover have "?i \<notin> live_blocks m" using al room(2) by simp
  ultimately show ?thesis using blk w(1,2,4,5,9) items(2) m3 d m2(1) pre(2) b(3)
    by (intro exI [of _ b] exI [of _ m1] exI [of _ w1] exI [of _ m2] exI [of _ w2] exI [of _ m3] exI [of _ x] exI [of _ pad] conjI)
      simp_all
qed

text \<open>Opening a file that differs from the one of the checkpoint elsewhere, and reading the descriptions.\<close>

lemma catalog_read_back:
  assumes "recoverable m" "alloc_ok M" "list_all2 (describes h) es is" "length (concat (map info_bytes is)) < 2 ^ 32"
    and "em_content m (meta_block m) = Some d" "drop 8 d = concat (map info_bytes is) @ pad"
    and "crash_image W (file_handle m) f" "W \<inter> insert (meta_block m) (free_list_block m) = {}"
  shows "\<exists>m5 m6 r m7 r'. create_new_database M path (Some f) False = Some (Some m5) \<and>
     MetaBlockReader_init M single_file_block_manager_vtable m5
       (em_get_frist_meta_block single_file_block_manager_vtable m5) = Some (m6, r) \<and>
     read_tables M single_file_block_manager_vtable (length es) (m6, r) = Some (is, m7, r') \<and>
     (\<forall>j d. j \<notin> W \<longrightarrow> em_content m j = Some d \<longrightarrow> em_content m5 j = Some d)"
proof -
  let ?vt = single_file_block_manager_vtable and ?i = "meta_block m" and ?bytes = "concat (map info_bytes is)"
  have "W \<inter> free_list_block m = {}" using assms(8) by blast
  from recoverable_reopens [OF assms(1,2) this assms(7), of path] obtain m5 where
    m5: "create_new_database M path (Some f) False = Some (Some m5)" "recoverable m5" "meta_block m5 = ?i"
        "\<forall>j d. j \<notin> W \<longrightarrow> em_content m j = Some d \<longrightarrow> em_content m5 j = Some d"
    by (auto simp: reopened_def)
  have em5: "em_inv m5" using m5(2) by (simp add: recoverable_def db_inv_def)
  have c: "em_content m5 ?i = Some d" using m5(4) assms(5,8) by blast
  then have "em_addressable m5 ?i" using em5
    by (auto simp: em_content_def em_addressable_def em_inv_def file_inv_def split: if_splits)
  then have "block_chain (em_content m5) (em_addressable m5) ?i [?bytes @ pad]" using c assms(6) by simp
  from single_file.reader_init_ok [OF em5 assms(2) this] obtain m6 r where
    r: "MetaBlockReader_init M ?vt m5 ?i = Some (m6, r)" "em_inv m6"
       "stream_rest (em_content m6) (em_addressable m6) r (?bytes @ pad)"
    by auto
  from single_file.read_tables_sees [OF r(2) assms(2-4) r(3)] list_all2_lengthD [OF assms(3)] obtain m7 r' where
    "read_tables M ?vt (length es) (m6, r) = Some (is, m7, r')" by auto
  then show ?thesis using r(1) m5(1,3,4) by (simp add: single_file_block_manager_get_frist_meta_block_def)
qed

text \<open>
  C1. Durability of the catalog. Take a database in which the free list is sound (no block twice, none at or beyond the
  block count), at most 1021 blocks have been read since the last checkpoint, there is room on the disk for two more blocks, and
  any allocation succeeds. The descriptions of at least one table of well-formed columns, which fit one block of the stream together
  (8176 bytes: beyond that the writer does not return, see SingleFile), are written to a fresh metadata stream, and a
  checkpoint names that stream in the header. All these calls return. From then on the client may allocate, read and write any blocks but
  that of the stream and that of the new free list, and whatever of the writes a crash loses, tears or reorders, opening the
  file and reading the database's metadata stream gives the descriptions of exactly these tables, in order, and every
  block that the checkpoint and the client did not write (the tables' data) still has its contents. If no block had been read twice or without
  being in use, the manager never hands out the block of the stream, the block of the free list, or a block that was in
  use and not read, so that a client who writes only what it is given meets the condition.
\<close>

theorem tables_survive_crash:
  assumes "db_inv m" "alloc_inv m" "alloc_ok (em_mem m)" "alloc_ok M" "unat (sl_size (used_blocks m)) \<le> 1021"
    and "unat (iteration_count m) + 1 < 2 ^ 64" "12288 + 8192 * (unat (max_block m) + 2) \<le> fl_space (file_handle m)"
    and "list_all2 (describes h) es is" "es \<noteq> []" "length (concat (map info_bytes is)) \<le> 8176"
  shows "\<exists>b m1 w1 m2 w2 m3.
     mw_block (snd (MetaBlockWriter_init single_file_block_manager_vtable m)) = Some b \<and>
     write_tables single_file_block_manager_vtable h (MetaBlockWriter_init single_file_block_manager_vtable m) es = Some (m1, w1) \<and>
     metaBlockWriter_deinit single_file_block_manager_vtable m1 w1 = Some (m2, w2) \<and>
     single_file_block_manager_write_header m2 (header\<lparr>dh_meta_block := blk_id b\<rparr>) = Some m3 \<and> db_inv m3 \<and>
     (\<forall>A W m4 f. session m3 A W m4 \<longrightarrow> crash_image W (file_handle m3) f \<longrightarrow> W \<inter> insert (blk_id b) (free_list_block m3) = {} \<longrightarrow>
        (\<exists>m5 m6 r m7 r'. create_new_database M path (Some f) False = Some (Some m5) \<and>
           MetaBlockReader_init M single_file_block_manager_vtable m5
             (em_get_frist_meta_block single_file_block_manager_vtable m5) = Some (m6, r) \<and>
           read_tables M single_file_block_manager_vtable (length es) (m6, r) = Some (is, m7, r') \<and>
           (\<forall>j d. j \<notin> insert (blk_id b) (free_list_block m3) \<union> W \<longrightarrow> em_content m j = Some d \<longrightarrow> em_content m5 j = Some d))) \<and>
     (sound_use m \<longrightarrow> alloc_inv m3 \<and> (\<forall>A W m4. session m3 A W m4 \<longrightarrow>
        A \<inter> (insert (blk_id b) (free_list_block m3) \<union> (live_blocks m - set (block_ids (used_blocks m)))) = {}))"
proof -
  let ?vt = single_file_block_manager_vtable
  from catalog_checkpoint [OF assms(1-3,5-10), where hdr = "header"] obtain b m1 w1 m2 w2 m3 x pad where
    w: "mw_block (snd (MetaBlockWriter_init ?vt m)) = Some b" "write_tables ?vt h (MetaBlockWriter_init ?vt m) es = Some (m1, w1)"
       "metaBlockWriter_deinit ?vt m1 w1 = Some (m2, w2)"
       "single_file_block_manager_write_header m2 (header\<lparr>dh_meta_block := blk_id b\<rparr>) = Some m3"
    and d: "checkpoint_done m2 (header\<lparr>dh_meta_block := blk_id b\<rparr>) m3" "alloc_inv m2" "unat (max_block m2) + 1 < 2 ^ 64"
    and b: "live_blocks m2 = insert (blk_id b) (live_blocks m)" "blk_id b \<notin> live_blocks m" "used_blocks m2 = used_blocks m"
       "blk_id b \<notin> free_list_block m3" "em_content m2 (blk_id b) = Some x" "drop 8 x = concat (map info_bytes is) @ pad"
       "\<forall>j d. j \<noteq> blk_id b \<longrightarrow> em_content m j = Some d \<longrightarrow> em_content m2 j = Some d"
    by (elim exE conjE) (rule that)
  have r: "recoverable m3" "meta_block m3 = blk_id b"
      "\<forall>j d. j \<notin> free_list_block m3 \<longrightarrow> em_content m2 j = Some d \<longrightarrow> em_content m3 j = Some d"
    using d(1) by (simp_all add: checkpoint_done_def)
  have x: "em_content m3 (meta_block m3) = Some x" using r(3) b(4,5) unfolding r(2) by blast
  have "length (concat (map info_bytes is)) < 2 ^ 32" using assms(10) by simp
  note rb = catalog_read_back [OF r(1) assms(4,8) this x b(6), unfolded r(2)]
  have kept: "\<forall>j d. j \<notin> insert (blk_id b) (free_list_block m3) \<union> W \<longrightarrow> em_content m j = Some d \<longrightarrow> em_content m5 j = Some d"
    if "\<forall>j d. j \<notin> W \<longrightarrow> em_content m3 j = Some d \<longrightarrow> em_content m5 j = Some d" for W m5
    using that b(7) r(3) by simp
  have "alloc_inv m3 \<and> (\<forall>A W m4. session m3 A W m4 \<longrightarrow>
      A \<inter> (insert (blk_id b) (free_list_block m3) \<union> (live_blocks m - set (block_ids (used_blocks m)))) = {})" if u: "sound_use m"
  proof -
    have "sound_use m2" using u b(1) by (auto simp: sound_use_def b(3))
    note cb = checkpoint_blocks [OF d(1,2) this d(3)]
    have "blk_id b \<notin> set (block_ids (used_blocks m))" using u b(2) by (auto simp: sound_use_def)
    then have "insert (blk_id b) (live_blocks m - set (block_ids (used_blocks m))) \<subseteq> live_blocks m3"
      using cb(3) b(1) by (auto simp: b(3))
    then show ?thesis using cb(1) session_alloc(3) [OF _ recoverable_db [OF r(1)]] by (fastforce simp: checkpointed_def)
  qed
  moreover have "\<exists>m5 m6 r m7 r'. create_new_database M path (Some f) False = Some (Some m5) \<and>
      MetaBlockReader_init M ?vt m5 (em_get_frist_meta_block ?vt m5) = Some (m6, r) \<and>
      read_tables M ?vt (length es) (m6, r) = Some (is, m7, r') \<and>
      (\<forall>j d. j \<notin> insert (blk_id b) (free_list_block m3) \<union> W \<longrightarrow> em_content m j = Some d \<longrightarrow> em_content m5 j = Some d)"
    if "crash_image W (file_handle m3) f" "W \<inter> insert (blk_id b) (free_list_block m3) = {}" for W f
    using rb [OF that, of path] kept by blast
  ultimately show ?thesis using w recoverable_db [OF r(1)]
    by (intro exI [of _ b] exI [of _ m1] exI [of _ w1] exI [of _ m2] exI [of _ w2] exI [of _ m3] conjI) simp_all
qed

definition sample_info :: CreateTableInfo where
  "sample_info = \<lparr>cti_schema_name = [115], cti_table_name = [116], cti_if_not_exists = True,
     cti_columns = number_columns 0 (tb_columns sample_part), cti_col_count = tb_column_count sample_part\<rparr>"

lemma sample_described: "describes sample_table_heap 1 sample_info"
proof -
  have "table_part sample_table_heap 1 = Some sample_part" by (simp add: sample_table_heap_def table_part_def)
  moreover have "h_cells sample_table_heap (tb_schema sample_part) = Some (empty_schema_cell [115])"
    "h_cells sample_table_heap 1 = Some \<lparr>base = catalogEntry_init TABLE (Some [116]), body = TableCatalogEntry sample_part\<rparr>"
    by (simp_all add: sample_table_heap_def sample_part_def)
  moreover have "\<forall>c \<in> set (tb_columns sample_part). column_ok c" by (simp add: sample_part_def column_ok_def sqlt_defs)
  ultimately show ?thesis
    by (simp add: describes_def sample_info_def empty_schema_cell_def catalogEntry_init_def) (simp add: sample_part_def)
qed

theorem tables_survive_crash_witness:
  "\<exists>m b m1 w1 m2 w2 m3 m5 m6 r m7 r'. create_new_database ample_memory [100, 98] (Some sample_disk) True = Some (Some m) \<and>
     mw_block (snd (MetaBlockWriter_init single_file_block_manager_vtable m)) = Some b \<and>
     write_tables single_file_block_manager_vtable sample_table_heap (MetaBlockWriter_init single_file_block_manager_vtable m) [1, 1] =
       Some (m1, w1) \<and>
     metaBlockWriter_deinit single_file_block_manager_vtable m1 w1 = Some (m2, w2) \<and>
     single_file_block_manager_write_header m2
       \<lparr>dh_iteration = 0, dh_meta_block = blk_id b, dh_free_list_id = 0, dh_block_count = 0\<rparr> = Some m3 \<and>
     create_new_database ample_memory [100, 98] (Some (file_handle m3)) False = Some (Some m5) \<and>
     MetaBlockReader_init ample_memory single_file_block_manager_vtable m5
       (em_get_frist_meta_block single_file_block_manager_vtable m5) = Some (m6, r) \<and>
     read_tables ample_memory single_file_block_manager_vtable 2 (m6, r) = Some ([sample_info, sample_info], m7, r')"
proof -
  let ?h = "\<lparr>dh_iteration = 0, dh_meta_block = 7, dh_free_list_id = 0, dh_block_count = 0\<rparr>"
  from sample_create obtain m where
    m: "create_new_database ample_memory [100, 98] (Some sample_disk) True = Some (Some m)" "db_inv m" "iteration_count m = 1"
       "block_ids (free_list m) = []" "block_ids (used_blocks m) = []" "sl_size (used_blocks m) = 0" "alloc_ok (em_mem m)"
       "max_block m = 0" "fl_space (file_handle m) = 1000000"
    by blast
  have al: "alloc_inv m" using m(2,4) by (simp add: alloc_inv_def db_inv_def)
  have d: "list_all2 (describes sample_table_heap) [1, 1] [sample_info, sample_info]" using sample_described by simp
  have fit: "length (concat (map info_bytes [sample_info, sample_info])) \<le> 8176"
    by (simp add: info_bytes_def sample_info_def sample_part_def column_bytes_def string_bytes_def sqlt_defs)
  have M: "alloc_ok ample_memory" by (simp add: ample_memory_def)
  have p: "unat (sl_size (used_blocks m)) \<le> 1021" "unat (iteration_count m) + 1 < 2 ^ 64"
      "12288 + 8192 * (unat (max_block m) + 2) \<le> fl_space (file_handle m)" "[1 :: addr, 1] \<noteq> []"
    using m(3,6,8,9) by simp_all
  have two: "length [1 :: addr, 1] = 2" by simp
  note tsc = tables_survive_crash [OF m(2) al m(7) M p(1-3) d p(4) fit, of ?h "[100, 98]", unfolded two]
  then obtain b m1 w1 m2 w2 m3 where
    w: "mw_block (snd (MetaBlockWriter_init single_file_block_manager_vtable m)) = Some b"
       "write_tables single_file_block_manager_vtable sample_table_heap
          (MetaBlockWriter_init single_file_block_manager_vtable m) [1, 1] = Some (m1, w1)"
       "metaBlockWriter_deinit single_file_block_manager_vtable m1 w1 = Some (m2, w2)"
       "single_file_block_manager_write_header m2 (?h\<lparr>dh_meta_block := blk_id b\<rparr>) = Some m3" "db_inv m3"
    and open_it: "\<forall>A W m4 f. session m3 A W m4 \<longrightarrow> crash_image W (file_handle m3) f \<longrightarrow>
        W \<inter> insert (blk_id b) (free_list_block m3) = {} \<longrightarrow>
        (\<exists>m5 m6 r m7 r'. create_new_database ample_memory [100, 98] (Some f) False = Some (Some m5) \<and>
           MetaBlockReader_init ample_memory single_file_block_manager_vtable m5
             (em_get_frist_meta_block single_file_block_manager_vtable m5) = Some (m6, r) \<and>
           read_tables ample_memory single_file_block_manager_vtable 2 (m6, r) = Some ([sample_info, sample_info], m7, r') \<and>
           (\<forall>j d. j \<notin> insert (blk_id b) (free_list_block m3) \<union> W \<longrightarrow> em_content m j = Some d \<longrightarrow> em_content m5 j = Some d))"
    by (elim exE conjE) (rule that)
  have "crash_image {} (file_handle m3) (file_handle m3)" using session_db [OF begins w(5)] by simp
  from open_it [rule_format, OF begins this] obtain m5 m6 r m7 r' where
    o: "create_new_database ample_memory [100, 98] (Some (file_handle m3)) False = Some (Some m5)"
       "MetaBlockReader_init ample_memory single_file_block_manager_vtable m5
          (em_get_frist_meta_block single_file_block_manager_vtable m5) = Some (m6, r)"
       "read_tables ample_memory single_file_block_manager_vtable 2 (m6, r) = Some ([sample_info, sample_info], m7, r')"
    by auto
  have "?h\<lparr>dh_meta_block := blk_id b\<rparr> = \<lparr>dh_iteration = 0, dh_meta_block = blk_id b, dh_free_list_id = 0, dh_block_count = 0\<rparr>"
    by simp
  from w(4) [unfolded this] show ?thesis using m(1) w(1-3) o by (intro exI conjI)
qed

end
