(* ===== verification/Lifetime.thy ===== *)
theory Lifetime
  imports Crash
begin

text \<open>
  The whole life of a database file (\<^verbatim>\<open>src/storage/table/storage.c\<close>): it is created, checkpointed any number of
  times, and opened again after any number of crashes. Every state that a checkpoint, a creation or an opening leaves can
  be recovered.
\<close>

section \<open>The states that checkpoints leave\<close>

text \<open>
  The only thing asked of the clients is that they do not overwrite the block that holds the active free list before
  the file is opened again. A \<open>careful\<close> history is one in which, in addition, no checkpoint was made after a block was read
  twice, or read without being in use, and in which no file was opened whose free list is held by a block beyond the block
  count of its header: such a file opens to a manager that takes that block for free.
\<close>

inductive history :: "bool \<Rightarrow> SingleFileExtentManager \<Rightarrow> bool" for careful where
  creates_file: "alloc_ok M \<Longrightarrow> 12288 \<le> fl_space f \<Longrightarrow> fl_space f < PTRDIFF_LIMIT \<Longrightarrow>
    create_new_database M path (Some f) True = Some (Some m) \<Longrightarrow> history careful m"
| next_checkpoint: "history careful m0 \<Longrightarrow> session m0 A W m \<Longrightarrow>
    em_addressable m (fst (single_file_block_manager_get_free_block_id m)) \<Longrightarrow> unat (iteration_count m) + 1 < 2 ^ 64 \<Longrightarrow>
    careful \<longrightarrow> sound_use m \<and> unat (max_block m) + 1 < 2 ^ 64 \<Longrightarrow>
    single_file_block_manager_write_header m h = Some m1 \<Longrightarrow> history careful m1"
| opens_again: "history careful m0 \<Longrightarrow> session m0 A W m \<Longrightarrow> W \<inter> free_list_block m0 = {} \<Longrightarrow>
    crash_image W (file_handle m0) f \<Longrightarrow> alloc_ok M \<Longrightarrow>
    careful \<longrightarrow> (\<forall>i \<in> free_list_block m0. i < dh_block_count (active_disk_header m0)) \<Longrightarrow>
    create_new_database M path (Some f) False = Some (Some m1) \<Longrightarrow> history careful m1"

lemma history_careless: "history careful m \<Longrightarrow> history False m"
  by (induction rule: history.induct) (blast intro: history.intros)+

lemma history_ok: "history careful m \<Longrightarrow> recoverable m \<and> (careful \<longrightarrow> checkpointed m \<and> sound_use m)"
proof (induction rule: history.induct)
  case (creates_file M f path m)
  from created_checkpointed [OF this] show ?case by (simp add: checkpointed_def sound_use_def)
next
  case (next_checkpoint m0 A W m h m1)
  have db0: "db_inv m0" "alloc_ok (em_mem m0)" using next_checkpoint.IH by (simp_all add: recoverable_def)
  have em: "em_inv m0" "12288 \<le> length (fl_data (file_handle m0))" using db0(1) by (simp_all add: db_inv_def)
  have "alloc_ok (em_mem m)" using session_keeps [OF next_checkpoint(2) em] db0(2) by (simp add: em_keeps_def)
  with session_db [OF next_checkpoint(2) db0(1)] have d: "checkpoint_done m h m1"
    using checkpoint_is_done next_checkpoint(3,4,6) by blast
  have "checkpointed m1" if careful
  proof -
    have "alloc_inv m" using session_alloc(1) [OF next_checkpoint(2) db0(1)] next_checkpoint.IH that by (simp add: checkpointed_def)
    then show ?thesis using checkpoint_blocks(1) [OF d] next_checkpoint(5) that by simp
  qed
  with d show ?case by (simp add: checkpoint_done_def sound_use_def)
next
  case (opens_again m0 A W m f M path m1)
  then have "recoverable m0" by simp
  from recoverable_reopens [OF this opens_again(5,3,4), of path] opens_again(7) have
    r: "reopened m0 W m1" "active_disk_header m1 = active_disk_header m0" by auto
  then show ?case using opens_again.IH opens_again(6) reopened_checkpointed [OF _ r] by (simp add: reopened_def)
qed

section \<open>Properties\<close>

text \<open>
  C2. The file is never lost. Over the whole life of a database, with any number of checkpoints, crashes and openings
  before, whatever calls were made in between, as long as the block that holds the active free list is not overwritten:
  the invariant of the database holds between any two calls, and whatever a crash at this moment loses, tears or reorders of the writes
  since the last checkpoint, opening the file succeeds and gives the state of that checkpoint: its meta block, its
  iteration, its free list, and every block that has not been written since. In a careful history (no block read
  twice or while not in use before a checkpoint, and no file opened whose free list lies beyond its block count) the books of the manager are right
  as well: a block that is handed out was not in use and is not the one of the free list, so that a client who writes only
  what it is given does not overwrite it.
\<close>

theorem every_crash_recovers:
  assumes "history careful m0" "session m0 A W m" "W \<inter> free_list_block m0 = {}" "crash_image W (file_handle m0) f" "alloc_ok M"
  shows "db_inv m \<and> crash_image W (file_handle m0) (file_handle m) \<and>
    (\<exists>m'. create_new_database M path (Some f) False = Some (Some m') \<and> db_inv m' \<and>
       meta_block m' = meta_block m0 \<and> iteration_count m' = iteration_count m0 \<and>
       block_ids (free_list m') = block_ids (free_list m0) \<and>
       (\<forall>j d. j \<notin> W \<longrightarrow> em_content m0 j = Some d \<longrightarrow> em_content m' j = Some d) \<and>
       (careful \<longrightarrow> alloc_inv m')) \<and>
    (careful \<longrightarrow> alloc_inv m \<and> live_blocks m = A \<union> live_blocks m0 \<and> A \<inter> live_blocks m0 = {} \<and> A \<inter> free_list_block m0 = {})"
proof -
  note h = history_ok [OF assms(1)]
  then have db: "db_inv m0" using recoverable_db by blast
  from recoverable_reopens [OF conjunct1 [OF h] assms(5,3,4), of path] obtain m' where
    m': "create_new_database M path (Some f) False = Some (Some m')" "reopened m0 W m'" by blast
  have "alloc_inv m' \<and> alloc_inv m \<and> live_blocks m = A \<union> live_blocks m0 \<and> A \<inter> live_blocks m0 = {} \<and> A \<inter> free_list_block m0 = {}"
    if careful
  proof -
    have c: "checkpointed m0" using h that by simp
    then show ?thesis using session_alloc [OF assms(2) db] reopened_sound [OF c m'(2)] by (auto simp: checkpointed_def)
  qed
  moreover have "db_inv m'" "meta_block m' = meta_block m0" "iteration_count m' = iteration_count m0"
      "block_ids (free_list m') = block_ids (free_list m0)"
      "\<forall>j d. j \<notin> W \<longrightarrow> em_content m0 j = Some d \<longrightarrow> em_content m' j = Some d"
    using m'(2) recoverable_db by (simp_all add: reopened_def)
  ultimately show ?thesis using session_db [OF assms(2) db] m'(1) by blast
qed

lemma sample_history:
  assumes "sample_checkpoint m0 m m1"
  shows "history True m1"
proof -
  have s: "session m0 {0} {0} m" "create_new_database ample_memory [100, 98] (Some sample_disk) True = Some (Some m0)"
      "em_addressable m (fst (single_file_block_manager_get_free_block_id m))" "unat (iteration_count m) + 1 < 2 ^ 64"
      "sound_use m \<and> unat (max_block m) + 1 < 2 ^ 64" "single_file_block_manager_write_header m sample_header = Some m1"
    using assms by (simp_all add: sample_checkpoint_def)
  have "history True m0"
    by (rule creates_file [OF _ _ _ s(2)]) (simp_all add: ample_memory_def sample_disk_def sample_file_ok PTRDIFF_LIMIT_def)
  from next_checkpoint [OF this s(1,3,4) _ s(6)] s(5) show ?thesis by simp
qed

theorem every_crash_recovers_witness:
  "\<exists>m1 m2 m'. history True m1 \<and> block_ids (free_list m1) = [0] \<and> free_list_block m1 = {1} \<and> session m1 {0} {0} m2 \<and>
     em_content m2 0 \<noteq> None \<and>
     create_new_database ample_memory [100, 98] (Some (file_handle m2)) False = Some (Some m') \<and> db_inv m' \<and> alloc_inv m' \<and>
     meta_block m' = 7 \<and> iteration_count m' = 2 \<and> block_ids (free_list m') = [0]"
proof -
  obtain m0 m m1 where sc: "sample_checkpoint m0 m m1" using sample_checkpoint by blast
  then obtain m2 where s: "session m1 {0} {0} m2" "em_content m2 0 \<noteq> None" using sample_next_session by blast
  have m: "db_inv m1" "free_list_block m1 = {1}" "block_ids (free_list m1) = [0]" "iteration_count m1 = 2" "meta_block m1 = 7"
    using sc by (simp_all add: sample_checkpoint_def)
  note h = sample_history [OF sc]
  from session_db [OF s(1) m(1)] have c: "crash_image {0} (file_handle m1) (file_handle m2)" by simp
  have M: "alloc_ok ample_memory" by (simp add: ample_memory_def)
  have "{0} \<inter> free_list_block m1 = {}" using m(2) by simp
  from every_crash_recovers [OF h s(1) this c M, of "[100, 98]"] m(3-5) obtain m' where
    "create_new_database ample_memory [100, 98] (Some (file_handle m2)) False = Some (Some m')"
    "db_inv m' \<and> alloc_inv m' \<and> meta_block m' = 7 \<and> iteration_count m' = 2 \<and> block_ids (free_list m') = [0]" by auto
  with h m(2,3) s show ?thesis by blast
qed

text \<open>
  Why openings of such files are left out of careful histories: the history of the example, in which every
  checkpoint was careful, opens to a manager that does not count the block of its free list as in use, and the second block it hands
  out is that one.
\<close>

theorem reopened_file_gives_free_list_block:
  "\<exists>m0 m'. history True m0 \<and> create_new_database ample_memory [100, 98] (Some (file_handle m0)) False = Some (Some m') \<and>
     free_list_block m0 = {1} \<and> free_list_block m' = {1} \<and> history False m' \<and> fst (allocate_blocks 2 m') = [0, 1]"
proof -
  obtain m0 m m1 where sc: "sample_checkpoint m0 m m1" using sample_checkpoint by blast
  have m: "db_inv m1" "free_list_block m1 = {1}" "block_ids (free_list m1) = [0]" "dh_block_count (active_disk_header m1) = 1"
    using sc by (simp_all add: sample_checkpoint_def)
  note h = sample_history [OF sc]
  have r: "recoverable m1" using history_ok [OF h] by simp
  have M: "alloc_ok ample_memory" by (simp add: ample_memory_def)
  have c: "crash_image {} (file_handle m1) (file_handle m1)" using session_db [OF begins m(1)] by simp
  from recoverable_reopens [OF r M _ c, of "[100, 98]"] obtain m' where
    m': "create_new_database ample_memory [100, 98] (Some (file_handle m1)) False = Some (Some m')" "reopened m1 {} m'" by auto
  then have f: "block_ids (free_list m') = [0]" "max_block m' = 1" "free_list_block m' = {1}" "db_inv m'"
    using m(2-4) recoverable_db by (simp_all add: reopened_def)
  have "history False m1" using history_careless [OF h] .
  then have "history False m'" using opens_again [OF _ begins _ c M _ m'(1)] by simp
  moreover have "fst (allocate_blocks 2 m') = [0, 1]"
  proof -
    have em: "em_inv m'" using f(4) by (simp add: db_inv_def)
    obtain i m2 where g2: "single_file_block_manager_get_free_block_id m' = (i, m2)" by fastforce
    note a2 = get_free_block_id_ok [OF em g2]
    obtain j m3 where g3: "single_file_block_manager_get_free_block_id m2 = (j, m3)" by fastforce
    have "i = 0" "j = 1" using a2 get_free_block_id_ok [OF _ g3] f(1,2) by simp_all
    then show ?thesis using g2 g3 by (simp add: numeral_2_eq_2)
  qed
  ultimately show ?thesis using h m(2) m'(1) f(3) by blast
qed

end
