(* ===== verification/TableData.thy ===== *)
theory TableData
  imports Checkpoint Lifetime
begin

text \<open>
  The data of a table (\<^verbatim>\<open>src/storage/table/storage.c\<close>): a run of flushes of the table data writer over a database
  file, and what is on the medium of it after a checkpoint and a crash.
\<close>

section \<open>A run of the table data writer\<close>

text \<open>\<open>TableDataWriter_flush_if_full\<close> flushes or does nothing.\<close>

lemma flush_if_full_cases:
  assumes "TableDataWriter_flush_if_full vt mw col k = Some mw'"
  shows "mw' = mw \<or> TableDataWriter_flush_block vt mw col = Some mw'"
  using assms by (auto simp: TableDataWriter_flush_if_full_def split: if_splits option.splits Option.bind_splits)

text \<open>
  A run starts anywhere in a session. Between two flushes the client puts tuples into the blocks of the columns and counts
  them, and makes any other calls of the manager that do not write the blocks flushed. A log keeps, for every flush, the column, the
  data pointer that was recorded and the contents of the block; \<open>A\<close> and \<open>W\<close> are the blocks handed out and written.
\<close>

type_synonym flush_log = "(nat \<times> DataPointer \<times> bytes) list"

abbreviation "file_vt \<equiv> single_file_block_manager_vtable"

definition log_blocks :: "flush_log \<Rightarrow> block_id_t list" where
  "log_blocks log = map (\<lambda>(c, d, p). dp_block_id d) log"

definition log_of :: "nat \<Rightarrow> flush_log \<Rightarrow> DataPointer list" where
  "log_of c log = map (\<lambda>(c, d, p). d) (filter (\<lambda>(c', d, p). c' = c) log)"

inductive table_run ::
  "SingleFileExtentManager \<Rightarrow> TableDataWriter \<Rightarrow> flush_log \<Rightarrow> block_id_t set \<Rightarrow> block_id_t set \<Rightarrow>
     SingleFileExtentManager \<Rightarrow> TableDataWriter \<Rightarrow> bool"
  for m0 w0 where
  starts: "session m0 A W m \<Longrightarrow> table_run m0 w0 [] A W m w0"
| fills: "table_run m0 w0 log A W m w \<Longrightarrow> length bs = length (tw_blocks w) \<Longrightarrow> length os = length (tw_blocks w) \<Longrightarrow>
    length ns = length (tw_blocks w) \<Longrightarrow>
    table_run m0 w0 log A W m (w\<lparr>tw_blocks := bs, tw_offsets := os, tw_tuple_counts := ns\<rparr>)"
| others: "table_run m0 w0 log A W m w \<Longrightarrow> em_call m a wr m' \<Longrightarrow> wr \<inter> set (log_blocks log) = {} \<Longrightarrow>
    table_run m0 w0 log (a \<union> A) (wr \<union> W) m' w"
| flushes: "table_run m0 w0 log A W m w \<Longrightarrow> unat col < length (tw_blocks w) \<Longrightarrow> tw_tuple_counts w ! unat col \<noteq> 0 \<Longrightarrow>
    block_ok (tw_blocks w ! unat col) \<Longrightarrow> unat (max_block m) + 1 < 2 ^ 64 \<Longrightarrow>
    em_addressable m (fst (single_file_block_manager_get_free_block_id m)) \<Longrightarrow>
    TableDataWriter_flush_block file_vt (m, w) col = Some (m', w') \<Longrightarrow>
    table_run m0 w0 (log @ [(unat col, last (tw_data_pointers w' ! unat col), fb_payload (blk_fb (tw_blocks w ! unat col)))])
      (insert (fst (single_file_block_manager_get_free_block_id m)) A)
      (insert (fst (single_file_block_manager_get_free_block_id m)) W) m' w'"

text \<open>
  A run is part of the session; the manager hands out every block of the log, each once; the data pointers of every column
  are the old ones and those of the log, and every block of the log has its contents.
\<close>

definition run_ok ::
  "SingleFileExtentManager \<Rightarrow> TableDataWriter \<Rightarrow> flush_log \<Rightarrow> block_id_t set \<Rightarrow> block_id_t set \<Rightarrow>
     SingleFileExtentManager \<Rightarrow> TableDataWriter \<Rightarrow> bool" where
  "run_ok m0 w0 log A W m w \<longleftrightarrow> session m0 A W m \<and> distinct (log_blocks log) \<and> set (log_blocks log) \<subseteq> A \<and> rows_ok w \<and>
     length (tw_blocks w) = length (tw_blocks w0) \<and>
     (\<forall>c < length (tw_blocks w). tw_data_pointers w ! c = tw_data_pointers w0 ! c @ log_of c log) \<and>
     (\<forall>(c, d, p) \<in> set log. em_content m (dp_block_id d) = Some p)"

lemma log_blocksI: "(c, d, p) \<in> set log \<Longrightarrow> dp_block_id d \<in> set (log_blocks log)"
  by (force simp: log_blocks_def)

lemma table_run_ok:
  assumes "table_run m0 w0 log A W m w" "db_inv m0" "alloc_inv m0" "rows_ok w0"
  shows "run_ok m0 w0 log A W m w"
  using assms(1)
proof (induction rule: table_run.induct)
  case (starts A W m)
  then show ?case using assms(4) by (simp add: run_ok_def log_blocks_def log_of_def)
next
  case (fills log A W m w bs os ns)
  then have "rows_ok w" by (simp add: run_ok_def)
  then have "rows_ok (w\<lparr>tw_blocks := bs, tw_offsets := os, tw_tuple_counts := ns\<rparr>)" using fills(2-4) by (simp add: rows_ok_def)
  with fills show ?case by (simp add: run_ok_def)
next
  case (others log A W m w a wr m')
  have s: "session m0 A W m" using others.IH by (simp add: run_ok_def)
  then have "db_inv m" using session_db assms(2) by blast
  then have "em_keeps wr m m'" using em_call_keeps [OF others(2)] by (simp add: db_inv_def)
  note keep = kept_outside_content [OF this]
  have "em_content m' (dp_block_id d) = Some p" if "(c, d, p) \<in> set log" for c d p
  proof -
    have "em_content m (dp_block_id d) = Some p" using others.IH that by (auto simp: run_ok_def)
    moreover have "dp_block_id d \<notin> wr" using others(3) log_blocksI [OF that] by blast
    ultimately show ?thesis using keep by simp
  qed
  then show ?case using others.IH calls [OF s others(2)] by (auto simp: run_ok_def)
next
  case (flushes log A W m w col m' w')
  let ?c = "unat col"
  have ok: "session m0 A W m" "distinct (log_blocks log)" "set (log_blocks log) \<subseteq> A" "rows_ok w"
      "length (tw_blocks w) = length (tw_blocks w0)"
      "\<And>c. c < length (tw_blocks w) \<Longrightarrow> tw_data_pointers w ! c = tw_data_pointers w0 ! c @ log_of c log"
      "\<And>c d p. (c, d, p) \<in> set log \<Longrightarrow> em_content m (dp_block_id d) = Some p"
    using flushes.IH by (auto simp: run_ok_def)
  note al = session_alloc [OF ok(1) assms(2,3)]
  have db: "db_inv m" using session_db [OF ok(1) assms(2)] by simp
  then have em: "em_inv m" "12288 \<le> length (fl_data (file_handle m))" by (simp_all add: db_inv_def)
  obtain i m1 where f: "single_file_block_manager_get_free_block_id m = (i, m1)" by fastforce
  let ?b = "(tw_blocks w ! ?c)\<lparr>blk_id := i\<rparr>"
  obtain m2 b2 where wr: "single_file_block_manager_write m1 ?b = (m2, b2)" by fastforce
  have fl: "em_inv m1" "em_addressable m1 = em_addressable m" using single_file.free_law [of m i m1] em(1) f by simp_all
  have b: "block_ok ?b" "em_addressable m1 (blk_id ?b)" using flushes(4,6) f fl by (simp_all add: block_ok_def)
  have res: "m' = m2" "w' = flushed_writer w ?c i b2" "rows_ok w'"
    using flush_block_result [OF ok(4) flushes(2,3), of file_vt m i m1 m2 b2] f wr flushes(7) by auto
  let ?d = "flushed_pointer w ?c i"
  have len: "?c < length (tw_data_pointers w)" using ok(4) flushes(2) by (simp add: rows_ok_def)
  have last: "last (tw_data_pointers w' ! ?c) = ?d" using len by (simp add: res(2) flushed_writer_def)
  have new: "i \<notin> set (log_blocks log)" using get_free_block_id_alloc [OF al(1) f flushes(5)] al(2) ok(3) by auto
  have c1: "em_call m {i} {} m1" by (rule allocates [OF f flushes(5)])
  have c2: "em_call m1 {} {i} m2" using writes [OF b wr] by simp
  have s: "session m0 (insert i A) (insert i W) m2" using calls [OF calls [OF ok(1) c1] c2] by simp
  have k1: "em_keeps {} m m1" by (rule em_call_keeps [OF c1 em])
  then have "em_keeps {i} m m2" using em_keeps_trans em_call_keeps [OF c2] by (fastforce simp: em_keeps_def)
  note keep = kept_outside_content [OF this]
  have "em_content m2 (dp_block_id d) = Some p" if "(c, d, p) \<in> set log" for c d p
  proof -
    have "dp_block_id d \<noteq> i" using log_blocksI [OF that] new by blast
    then show ?thesis using keep ok(7) [OF that] by simp
  qed
  moreover have "em_content m2 i = Some (fb_payload (blk_fb (tw_blocks w ! ?c)))"
    using single_file.write_law [OF fl(1) b(2,1), of m2 b2] wr by simp
  ultimately show ?case
    using ok(2,3,5,6) new res len s f unfolding last
    by (auto simp: run_ok_def log_blocks_def log_of_def flushed_writer_def nth_list_update flushed_pointer_def)
qed

section \<open>Properties\<close>

text \<open>
  C3. Durability of table data. Take a careful history (see Lifetime), and anywhere after its last checkpoint a run of the table
  data writer: whatever columns are flushed in whatever order, with room on the disk and memory for their data pointers, and with whatever other calls of the manager in between that do not
  write the flushed blocks, every column keeps the old data pointers and gets one for each flush, its rows stay contiguous, and
  no block is used twice. Once a checkpoint has returned, every flushed block is on the medium with its contents, whatever a
  crash then loses, tears or reorders of later writes, as long as these do not go to the flushed blocks or the block of the free list.
  If no block was read twice before that checkpoint, or while not in use, and no flushed block was read, the manager does
  not hand these blocks out again, so that a client who writes only what it is given meets the condition.
\<close>

theorem table_data_survives_crash:
  assumes "history True m0" "rows_ok w0" "table_run m0 w0 log A0 W0 m w"
    and "em_addressable m (fst (single_file_block_manager_get_free_block_id m))"
      "unat (iteration_count m0) + 1 < 2 ^ 64" "unat (max_block m) + 1 < 2 ^ 64"
    and "single_file_block_manager_write_header m h = Some m1" "session m1 A W m2"
      "W \<inter> (free_list_block m1 \<union> set (log_blocks log)) = {}" "crash_image W (file_handle m1) f" "alloc_ok M"
  shows "rows_ok w \<and> (\<forall>c < length (tw_blocks w). tw_data_pointers w ! c = tw_data_pointers w0 ! c @ log_of c log) \<and>
    distinct (log_blocks log) \<and>
    (\<exists>m3. create_new_database M path (Some f) False = Some (Some m3) \<and> meta_block m3 = dh_meta_block h \<and>
       (\<forall>(c, d, p) \<in> set log. em_content m3 (dp_block_id d) = Some p)) \<and>
    (sound_use m \<and> set (block_ids (used_blocks m)) \<inter> set (log_blocks log) = {} \<longrightarrow>
       history True m1 \<and> A \<inter> (free_list_block m1 \<union> set (log_blocks log)) = {})"
proof -
  have ck: "checkpointed m0" using history_ok [OF assms(1)] by simp
  then have m0: "db_inv m0" "alloc_inv m0" "alloc_ok (em_mem m0)" "em_inv m0" "12288 \<le> length (fl_data (file_handle m0))"
    by (simp_all add: checkpointed_def recoverable_def db_inv_def)
  have run: "run_ok m0 w0 log A0 W0 m w" by (rule table_run_ok [OF assms(3) m0(1,2) assms(2)])
  then have s: "session m0 A0 W0 m" "set (log_blocks log) \<subseteq> A0" by (simp_all add: run_ok_def)
  note al = session_alloc [OF s(1) m0(1,2)] and k = session_keeps [OF s(1) m0(4,5)]
  have pre: "db_inv m" "alloc_ok (em_mem m)" "unat (iteration_count m) + 1 < 2 ^ 64"
    using session_db [OF s(1) m0(1)] k m0(3) assms(5) by (simp_all add: em_keeps_def)
  have d: "checkpoint_done m h m1" by (rule checkpoint_is_done [OF pre(1,2) assms(4) pre(3) assms(7)])
  then have r: "recoverable m1" by (simp add: checkpoint_done_def)
  have live: "set (log_blocks log) \<subseteq> live_blocks m" using s(2) al(2) by blast
  have "free_list_block m1 \<inter> live_blocks m = {}"
    using d get_free_block_id_below(2) [OF al(1) assms(6)] by (simp add: checkpoint_done_def)
  then have fl: "free_list_block m1 \<inter> set (log_blocks log) = {}" using live by blast
  have "W \<inter> free_list_block m1 = {}" using assms(9) by blast
  from recoverable_reopens [OF r assms(11) this assms(10), of path] obtain m3 where
    m3: "create_new_database M path (Some f) False = Some (Some m3)" "reopened m1 W m3" by blast
  have "em_content m3 (dp_block_id d) = Some p" if "(c, d, p) \<in> set log" for c d p
  proof -
    have "em_content m (dp_block_id d) = Some p" using run that by (auto simp: run_ok_def)
    then have "em_content m1 (dp_block_id d) = Some p"
      using \<open>checkpoint_done m h m1\<close> log_blocksI [OF that] fl unfolding checkpoint_done_def by blast
    then show ?thesis using m3(2) log_blocksI [OF that] assms(9) unfolding reopened_def by blast
  qed
  moreover have "history True m1 \<and> A \<inter> (free_list_block m1 \<union> set (log_blocks log)) = {}"
    if u: "sound_use m \<and> set (block_ids (used_blocks m)) \<inter> set (log_blocks log) = {}"
  proof -
    note cb = checkpoint_blocks [OF d al(1) _ assms(6)]
    have "checkpointed m1" "set (log_blocks log) \<subseteq> live_blocks m1" using cb(1,3) u live by blast+
    moreover from this have "A \<inter> live_blocks m1 = {}" using session_alloc(3) [OF assms(8)] recoverable_db [OF r]
      by (simp add: checkpointed_def)
    moreover have "history True m1" using next_checkpoint [OF assms(1) s(1) assms(4) pre(3) _ assms(7)] u assms(6) by simp
    ultimately show ?thesis by (auto simp: checkpointed_def)
  qed
  moreover have "meta_block m3 = dh_meta_block h" using m3(2) d by (simp add: reopened_def checkpoint_done_def)
  ultimately show ?thesis using run m3(1) by (auto simp: run_ok_def)
qed

text \<open>
  The example of Crash goes on: block 0 is superseded and free, block 1 holds the free list, and the writer flushes
  its column to block 0.
\<close>

theorem table_data_survives_crash_witness:
  "\<exists>m0 m1 m3 log A W m w. history True m0 \<and> table_run m0 sample_writer log A W m w \<and> length log = 1 \<and>
     single_file_block_manager_write_header m sample_header = Some m1 \<and>
     create_new_database ample_memory [100, 98] (Some (file_handle m1)) False = Some (Some m3) \<and>
     (\<forall>(c, d, p) \<in> set log. em_content m3 (dp_block_id d) = Some p)"
proof -
  let ?w = sample_writer
  obtain n0 n m where sc: "sample_checkpoint n0 n m" using sample_checkpoint by blast
  then have m: "db_inv m" "alloc_inv m" "block_ids (free_list m) = [0]" "max_block m = 2" "fl_space (file_handle m) = 1000000"
      "em_mem m = ample_memory" "iteration_count m = 2" by (simp_all add: sample_checkpoint_def)
  note h = sample_history [OF sc]
  have M: "alloc_ok ample_memory" by (simp add: ample_memory_def)
  have em: "em_inv m" "12288 \<le> length (fl_data (file_handle m))" using m(1) by (simp_all add: db_inv_def)
  have w: "rows_ok ?w" "length (tw_blocks ?w) = 1" "tw_tuple_counts ?w ! 0 \<noteq> 0" "block_ok (tw_blocks ?w ! 0)"
    by (simp_all add: sample_writer_def rows_ok_def sample_block_ok)
  obtain i m1 where f: "single_file_block_manager_get_free_block_id m = (i, m1)" by fastforce
  obtain m2 b2 where wr: "single_file_block_manager_write m1 ((tw_blocks ?w ! 0)\<lparr>blk_id := i\<rparr>) = (m2, b2)" by fastforce
  let ?w' = "flushed_writer ?w 0 i b2" and ?log = "[(0 :: nat, last (tw_data_pointers (flushed_writer ?w 0 i b2) ! 0), fb_payload (blk_fb (tw_blocks ?w ! 0)))]"
  have fl: "TableDataWriter_flush_block file_vt (m, ?w) 0 = Some (m2, ?w')"
    using flush_block_result [OF w(1), of 0 file_vt m i m1 m2 b2] w(2,3) f wr by simp
  have room: "em_addressable m (fst (single_file_block_manager_get_free_block_id m))"
    using room_for_block(1) [OF m(2), of 0] m(4,5) by simp
  have run: "table_run m ?w ?log {i} {i} m2 ?w'"
    using flushes [OF starts [OF begins] _ _ _ _ room fl] w m(4) f by simp
  have "run_ok m ?w ?log {i} {i} m2 ?w'" by (rule table_run_ok [OF run m(1,2) w(1)])
  then have s: "session m {i} {i} m2" by (simp add: run_ok_def)
  note al = session_alloc [OF s m(1,2)] and k = session_keeps [OF s em]
  have db2: "db_inv m2" using session_db [OF s m(1)] by simp
  note g = get_free_block_id_ok [OF em(1) f]
  obtain fh where "m2 = m1\<lparr>file_handle := fh\<rparr>"
    using wr by (auto simp: single_file_block_manager_write_def split: prod.splits)
  then have mx: "max_block m2 = 2" "used_blocks m2 = used_blocks m" using g m(3,4) by simp_all
  have u: "block_ids (used_blocks m) = []" using sc by (simp add: sample_checkpoint_def checkpoint_done_def)
  have room2: "em_addressable m2 (fst (single_file_block_manager_get_free_block_id m2))"
    using room_for_block(1) [OF al(1), of 0] k m(5) mx by (simp add: em_keeps_def)
  have n: "unat (sl_size (used_blocks m2)) \<le> 1021" "unat (iteration_count m2) + 1 < 2 ^ 64" "unat (max_block m2) + 1 < 2 ^ 64"
      "unat (iteration_count m) + 1 < 2 ^ 64" "alloc_ok (em_mem m2)"
    using arg_cong [OF u, of length] k m(6,7) mx M by (simp_all add: em_keeps_def)
  then obtain m4 where w4: "single_file_block_manager_write_header m2 sample_header = Some m4"
    using write_header_ok [OF db2 n(5,1) room2 n(2)] by blast
  have "checkpoint_done m2 sample_header m4" by (rule checkpoint_is_done [OF db2 n(5) room2 n(2) w4])
  then have "db_inv m4" using recoverable_db by (simp add: checkpoint_done_def)
  from session_db [OF begins this] have "crash_image {} (file_handle m4) (file_handle m4)" by simp
  from table_data_survives_crash [OF h w(1) run room2 n(4,3) w4 begins _ this M, of "[100, 98]"] obtain m3 where
    o: "create_new_database ample_memory [100, 98] (Some (file_handle m4)) False = Some (Some m3)"
       "\<forall>(c, d, p) \<in> set ?log. em_content m3 (dp_block_id d) = Some p"
    by auto
  have "length ?log = 1" by simp
  with h run w4 o show ?thesis by (intro exI conjI)
qed

end
