(* ===== verification/Operator.thy ===== *)
theory Operator
  imports Parser Slice
begin

text \<open>
  Column vectors (\<^verbatim>\<open>src/utils/vector_types.c\<close>), the copying of their elements into a flat buffer and
  the distances between them (\<^verbatim>\<open>src/utils/operator.c\<close>). A pointer is the list of bytes it can reach;
  an access beyond it, and a failed \<^verbatim>\<open>assert\<close>, is \<^term>\<open>None\<close>. Floating-point numbers are their bit
  patterns, and the operations of the floating-point unit and of \<^verbatim>\<open>libm\<close> are a record of functions.
\<close>

section \<open>Column vectors\<close>

primrec get_typeid_size :: "TypeID \<Rightarrow> usize" where
  "get_typeid_size TYPE_INT8 = 1"
| "get_typeid_size TYPE_INT16 = 2"
| "get_typeid_size TYPE_INT32 = 4"
| "get_typeid_size TYPE_INT64 = 8"
| "get_typeid_size TYPE_FLOAT32 = 4"
| "get_typeid_size TYPE_FLOAT64 = 8"
| "get_typeid_size TYPE_INVALID = 0"

record MustDbVector =
  vec_type :: TypeID
  vec_count :: usize
  vec_data :: "bytes option"

definition MustDbVector_init :: "TypeID \<Rightarrow> MustDbVector" where
  "MustDbVector_init type = \<lparr>vec_type = type, vec_count = 0, vec_data = None\<rparr>"

definition MustDbVector_from_slice :: "Slice \<Rightarrow> TypeID \<Rightarrow> MustDbVector" where
  "MustDbVector_from_slice src type = \<lparr>vec_type = type, vec_count = sl_size src, vec_data = sl_data src\<rparr>"

text \<open>The pointer to the freed bytes stays in the vector.\<close>

definition MustDbVector_deinit :: "MustDbVector \<Rightarrow> MustDbVector" where
  "MustDbVector_deinit vector = vector\<lparr>vec_count := 0\<rparr>"

definition MustDbVector_size :: "MustDbVector \<Rightarrow> usize" where
  "MustDbVector_size vector = vec_count vector"

definition MustDbVector_get_data :: "MustDbVector \<Rightarrow> bytes option" where
  "MustDbVector_get_data vector = vec_data vector"

section \<open>Copying\<close>

text \<open>Bounded loads and stores.\<close>

definition load_at :: "bytes \<Rightarrow> usize \<Rightarrow> usize \<Rightarrow> bytes option" where
  "load_at src pos n = (if unat pos + unat n \<le> length src then Some (mem_read (unat pos) (unat n) src) else None)"

definition store_at :: "bytes \<Rightarrow> usize \<Rightarrow> bytes \<Rightarrow> bytes option" where
  "store_at dst pos xs = (if unat pos + length xs \<le> length dst then Some (mem_write (unat pos) xs dst) else None)"

definition index_at :: "'a list option \<Rightarrow> 'a \<Rightarrow> usize \<Rightarrow> 'a option" where
  "index_at xs d k =
     (case xs of None \<Rightarrow> Some d | Some ys \<Rightarrow> if unat k < length ys then Some (ys ! unat k) else None)"

function copy_fn_loop ::
  "bytes \<Rightarrow> usize \<Rightarrow> usize \<Rightarrow> usize \<Rightarrow> usize list option \<Rightarrow> usize \<Rightarrow> bytes \<Rightarrow> bytes option" where
  "copy_fn_loop src offset count elem_size sel_vector k dst =
     (if k < offset + count
      then do {
        i \<leftarrow> index_at sel_vector k k;
        x \<leftarrow> load_at src (i * elem_size) elem_size;
        dst1 \<leftarrow> store_at dst ((k - offset) * elem_size) x;
        copy_fn_loop src offset count elem_size sel_vector (k + 1) dst1
      }
      else Some dst)"
  by pat_completeness auto
termination
proof (relation "measure (\<lambda>(src, offset, count, elem_size, sel, k, dst). unat (offset + count) - unat k)", goal_cases)
  case (2 src offset count elem_size sel k dst)
  then show ?case using unat_inc_less [of k "offset + count"] by (simp add: u64_ord)
qed simp

declare copy_fn_loop.simps [simp del]

definition copy_fn :: "bytes \<Rightarrow> bytes \<Rightarrow> usize \<Rightarrow> usize \<Rightarrow> usize \<Rightarrow> usize list option \<Rightarrow> bytes option" where
  "copy_fn src dst offset count elem_size sel_vector = copy_fn_loop src offset count elem_size sel_vector offset dst"

function copy_fn_set_null_loop ::
  "bytes \<Rightarrow> usize \<Rightarrow> usize \<Rightarrow> usize \<Rightarrow> usize list option \<Rightarrow> u8 list \<Rightarrow> usize \<Rightarrow> bytes \<Rightarrow> bytes option" where
  "copy_fn_set_null_loop src offset count elem_size sel_vector nullmask k dst =
     (if k < offset + count
      then do {
        i \<leftarrow> index_at sel_vector k k;
        null \<leftarrow> index_at (Some nullmask) 0 i;
        x \<leftarrow> (if null \<noteq> 0 then Some (replicate (unat elem_size) 0) else load_at src (i * elem_size) elem_size);
        dst1 \<leftarrow> store_at dst ((k - offset) * elem_size) x;
        copy_fn_set_null_loop src offset count elem_size sel_vector nullmask (k + 1) dst1
      }
      else Some dst)"
  by pat_completeness auto
termination
proof (relation "measure (\<lambda>(src, offset, count, elem_size, sel, nm, k, dst). unat (offset + count) - unat k)", goal_cases)
  case (2 src offset count elem_size sel nm k dst)
  then show ?case using unat_inc_less [of k "offset + count"] by (simp add: u64_ord)
qed simp

declare copy_fn_set_null_loop.simps [simp del]

definition copy_fn_set_null ::
  "bytes \<Rightarrow> bytes \<Rightarrow> usize \<Rightarrow> usize \<Rightarrow> usize \<Rightarrow> usize list option \<Rightarrow> u8 list option \<Rightarrow> bytes option" where
  "copy_fn_set_null src dst offset count elem_size sel_vector nullmask =
     (case nullmask of
        None \<Rightarrow> copy_fn src dst offset count elem_size sel_vector
      | Some nm \<Rightarrow> copy_fn_set_null_loop src offset count elem_size sel_vector nm offset dst)"

text \<open>A vector without data is followed only when something is to be copied.\<close>

definition generic_copy_loop ::
  "MustDbVector \<Rightarrow> bytes \<Rightarrow> usize \<Rightarrow> usize \<Rightarrow> bool \<Rightarrow> usize list option \<Rightarrow> u8 list option \<Rightarrow> bytes option" where
  "generic_copy_loop source target offset element_count0 set_null sel_vector nullmask =
     (if vec_count source = 0 then Some target
      else
        let element_count = (if element_count0 = 0 then vec_count source else element_count0);
            elem_size = get_typeid_size (vec_type source);
            data = (case vec_data source of None \<Rightarrow> [] | Some d \<Rightarrow> d)
        in if \<not> offset + element_count \<le> vec_count source then None
           else if set_null then copy_fn_set_null data target offset element_count elem_size sel_vector nullmask
           else copy_fn data target offset element_count elem_size sel_vector)"

definition copy_to_storage :: "MustDbVector \<Rightarrow> bytes \<Rightarrow> usize \<Rightarrow> usize \<Rightarrow> bytes option" where
  "copy_to_storage source target offset element_count =
     generic_copy_loop source target offset element_count False None None"

section \<open>Distances\<close>

record float_ops =
  f_add :: "u32 \<Rightarrow> u32 \<Rightarrow> u32"
  f_sub :: "u32 \<Rightarrow> u32 \<Rightarrow> u32"
  f_mul :: "u32 \<Rightarrow> u32 \<Rightarrow> u32"
  f_neg :: "u32 \<Rightarrow> u32"
  f_abs :: "u32 \<Rightarrow> u32"
  f_less :: "u32 \<Rightarrow> u32 \<Rightarrow> bool"
  f_isnan :: "u32 \<Rightarrow> bool"
  f_nan :: u32
  f_one :: u32
  f_to_double :: "u32 \<Rightarrow> u64"
  f_of_double :: "u64 \<Rightarrow> u32"
  d_mul :: "u64 \<Rightarrow> u64 \<Rightarrow> u64"
  d_div :: "u64 \<Rightarrow> u64 \<Rightarrow> u64"
  d_sqrt :: "u64 \<Rightarrow> u64"

definition check_dims :: "MustDbVector \<Rightarrow> MustDbVector \<Rightarrow> bool" where
  "check_dims a b \<longleftrightarrow> vec_count a = vec_count b"

definition f32_at :: "bytes option \<Rightarrow> nat \<Rightarrow> u32 option" where
  "f32_at xs i =
     (case xs of
        None \<Rightarrow> None
      | Some d \<Rightarrow> if 4 * i + 4 \<le> length d then Some (bytes_word (mem_read (4 * i) 4 d)) else None)"

text \<open>The loops over the dimensions: \<open>step\<close> is the loop body on the accumulators.\<close>

fun dims_loop :: "('s \<Rightarrow> u32 \<Rightarrow> u32 \<Rightarrow> 's) \<Rightarrow> bytes option \<Rightarrow> bytes option \<Rightarrow> nat list \<Rightarrow> 's \<Rightarrow> 's option" where
  "dims_loop step ax bx [] acc = Some acc"
| "dims_loop step ax bx (i # is) acc =
     do {
       x \<leftarrow> f32_at ax i;
       y \<leftarrow> f32_at bx i;
       dims_loop step ax bx is (step acc x y)
     }"

definition l2_squared_distance :: "float_ops \<Rightarrow> usize \<Rightarrow> bytes option \<Rightarrow> bytes option \<Rightarrow> u32 option" where
  "l2_squared_distance F count ax bx =
     dims_loop (\<lambda>distance x y. let diff = f_sub F x y in f_add F distance (f_mul F diff diff)) ax bx [0..<unat count] 0"

definition vec_l2_squared_distance :: "float_ops \<Rightarrow> MustDbVector \<Rightarrow> MustDbVector \<Rightarrow> u32 option" where
  "vec_l2_squared_distance F a b =
     (if \<not> check_dims a b then Some (f_nan F) else l2_squared_distance F (vec_count a) (vec_data a) (vec_data b))"

definition vec_l2_distance :: "float_ops \<Rightarrow> MustDbVector \<Rightarrow> MustDbVector \<Rightarrow> u32 option" where
  "vec_l2_distance F a b =
     (if \<not> check_dims a b then Some (f_nan F)
      else map_option (\<lambda>d. f_of_double F (d_sqrt F (f_to_double F d)))
             (l2_squared_distance F (vec_count a) (vec_data a) (vec_data b)))"

definition inner_product :: "float_ops \<Rightarrow> usize \<Rightarrow> bytes option \<Rightarrow> bytes option \<Rightarrow> u32 option" where
  "inner_product F count ax bx =
     dims_loop (\<lambda>distance x y. f_add F distance (f_mul F x y)) ax bx [0..<unat count] 0"

definition vec_inner_product :: "float_ops \<Rightarrow> MustDbVector \<Rightarrow> MustDbVector \<Rightarrow> u32 option" where
  "vec_inner_product F a b =
     (if \<not> check_dims a b then Some (f_nan F) else inner_product F (vec_count a) (vec_data a) (vec_data b))"

definition cosine_distance :: "float_ops \<Rightarrow> usize \<Rightarrow> bytes option \<Rightarrow> bytes option \<Rightarrow> u32 option" where
  "cosine_distance F count ax bx =
     map_option (\<lambda>(similarity, norma, normb).
         f_of_double F (d_div F (f_to_double F similarity)
           (d_sqrt F (d_mul F (f_to_double F norma) (f_to_double F normb)))))
       (dims_loop (\<lambda>(similarity, norma, normb) x y.
            (f_add F similarity (f_mul F x y), f_add F norma (f_mul F x x), f_add F normb (f_mul F y y)))
          ax bx [0..<unat count] (0, 0, 0))"

definition vec_cosine_distance :: "float_ops \<Rightarrow> MustDbVector \<Rightarrow> MustDbVector \<Rightarrow> u32 option" where
  "vec_cosine_distance F a b =
     (if \<not> check_dims a b then Some (f_nan F)
      else do {
        s0 \<leftarrow> cosine_distance F (vec_count a) (vec_data a) (vec_data b);
        if f_isnan F s0 then Some (f_nan F)
        else
          let s1 = (if f_less F (f_one F) s0 then f_one F else s0);
              s2 = (if f_less F s1 (f_neg F (f_one F)) then f_neg F (f_one F) else s1)
          in Some (f_sub F (f_one F) s2)
      })"

definition l1_distance :: "float_ops \<Rightarrow> usize \<Rightarrow> bytes option \<Rightarrow> bytes option \<Rightarrow> u32 option" where
  "l1_distance F count ax bx =
     dims_loop (\<lambda>distance x y. f_add F distance (f_abs F (f_sub F x y))) ax bx [0..<unat count] 0"

definition vec_l1_distance :: "float_ops \<Rightarrow> MustDbVector \<Rightarrow> MustDbVector \<Rightarrow> u32 option" where
  "vec_l1_distance F a b =
     (if \<not> check_dims a b then Some (f_nan F) else l1_distance F (vec_count a) (vec_data a) (vec_data b))"

datatype DistanceType = L2_SQUARED | L2 | COSINE | INNER_PRODUCT | L1

text \<open>An enumeration value outside the list falls through to \<^verbatim>\<open>NAN\<close>.\<close>

definition vec_compute_distance :: "float_ops \<Rightarrow> MustDbVector \<Rightarrow> MustDbVector \<Rightarrow> DistanceType option \<Rightarrow> u32 option" where
  "vec_compute_distance F a b type =
     (case type of
        Some L2_SQUARED \<Rightarrow> vec_l2_squared_distance F a b
      | Some L2 \<Rightarrow> vec_l2_distance F a b
      | Some COSINE \<Rightarrow> vec_cosine_distance F a b
      | Some INNER_PRODUCT \<Rightarrow> map_option (f_neg F) (vec_inner_product F a b)
      | Some L1 \<Rightarrow> vec_l1_distance F a b
      | None \<Rightarrow> Some (f_nan F))"

section \<open>Copying is a gather\<close>

text \<open>The element the copy puts at position \<open>k\<close>, written without machine integers.\<close>

definition sel_index :: "usize list option \<Rightarrow> nat \<Rightarrow> nat" where
  "sel_index sel k = (case sel of None \<Rightarrow> k | Some s \<Rightarrow> unat (s ! k))"

definition is_null :: "u8 list option \<Rightarrow> nat \<Rightarrow> bool" where
  "is_null nm i = (case nm of None \<Rightarrow> False | Some m \<Rightarrow> m ! i \<noteq> 0)"

definition gathered :: "bytes \<Rightarrow> nat \<Rightarrow> usize list option \<Rightarrow> u8 list option \<Rightarrow> nat \<Rightarrow> bytes" where
  "gathered src es sel nm k =
     (if is_null nm (sel_index sel k) then replicate es 0 else mem_read (sel_index sel k * es) es src)"

definition selects :: "usize list option \<Rightarrow> u8 list option \<Rightarrow> nat \<Rightarrow> nat \<Rightarrow> bool" where
  "selects sel nm n m \<longleftrightarrow>
     (case sel of None \<Rightarrow> m \<le> n | Some s \<Rightarrow> m \<le> length s \<and> (\<forall>k < m. unat (s ! k) < n)) \<and>
     (case nm of None \<Rightarrow> True | Some z \<Rightarrow> n \<le> length z)"

lemma selects_index: "selects sel nm n m \<Longrightarrow> k < m \<Longrightarrow> sel_index sel k < n"
  by (auto simp: selects_def sel_index_def split: option.splits)

lemma index_at_sel:
  assumes "selects sel nm n m" "unat (k :: usize) < m"
  shows "\<exists>i. index_at sel k k = Some i \<and> unat i = sel_index sel (unat k)"
  using assms by (auto simp: index_at_def selects_def sel_index_def split: option.splits)

lemma unat_scaled:
  assumes "unat (i :: usize) < n" "n * unat (es :: usize) \<le> length (d :: bytes)" "length d < 2 ^ 64"
  shows "unat (i * es) = unat i * unat es" "unat i * unat es + unat es \<le> length d"
proof -
  have "unat i * unat es + unat es = Suc (unat i) * unat es" by simp
  also have "\<dots> \<le> n * unat es" using assms(1) by (intro mult_le_mono1) simp
  finally show le: "unat i * unat es + unat es \<le> length d" using assms(2) by simp
  show "unat (i * es) = unat i * unat es"
    using le assms(3) by (simp add: unat_mult_u64)
qed

lemma load_element:
  assumes "unat (i :: usize) < n" "n * unat es \<le> length d" "length d < 2 ^ 64"
  shows "load_at d (i * es) es = Some (mem_read (unat i * unat es) (unat es) d)"
  using unat_scaled [OF assms] by (simp add: load_at_def)

lemma store_element:
  assumes "length acc = j * unat es" "length x = unat es" "unat es \<le> length rest" "length (acc @ rest) < 2 ^ 64"
    "unat (j' :: usize) = j"
  shows "store_at (acc @ rest) (j' * es) x = Some ((acc @ x) @ drop (unat es) rest)"
proof -
  have "j * unat es < 2 ^ 64" using assms(1,4) by simp
  then have "unat (j' * es) = length acc" using assms(1,5) by (simp add: unat_mult_u64)
  then show ?thesis using assms(2,3) by (simp add: store_at_def mem_write_def)
qed

lemma length_gathered:
  assumes "sel_index sel k < n" "n * es \<le> length d"
  shows "length (gathered d es sel nm k) = es"
proof -
  have "Suc (sel_index sel k) * es \<le> n * es" using assms(1) by (intro mult_le_mono1) simp
  then show ?thesis using assms(2) by (simp add: gathered_def mem_read_def)
qed

text \<open>
  Both loops are one: without a null mask an element is loaded, with one it may be zero bytes. \<open>j\<close>
  elements have been stored.
\<close>

lemma copy_step:
  assumes ok: "selects sel nm n (unat off + c)" "n * unat es \<le> length d" "length d < 2 ^ 64"
    and pos: "unat (k :: usize) = unat (off :: usize) + j" "j < c"
    and dst: "length acc = j * unat es" "unat es \<le> length rest" "length (acc @ rest) < 2 ^ 64"
  shows "\<exists>i. index_at sel k k = Some i \<and> unat i = sel_index sel (unat k) \<and> unat i < n \<and>
      load_at d (i * es) es = Some (mem_read (sel_index sel (unat k) * unat es) (unat es) d) \<and>
      store_at (acc @ rest) ((k - off) * es) (gathered d (unat es) sel nm (unat k)) =
        Some ((acc @ gathered d (unat es) sel nm (unat k)) @ drop (unat es) rest)"
proof -
  have k: "unat k < unat off + c" using pos by simp
  obtain i where i: "index_at sel k k = Some i" "unat i = sel_index sel (unat k)"
    using index_at_sel [OF ok(1) k] by blast
  have n: "unat i < n" using selects_index [OF ok(1) k] i(2) by simp
  have j: "unat (k - off) = j" using pos(1) by (simp add: unat_sub_if_size)
  have len: "length (gathered d (unat es) sel nm (unat k)) = unat es"
    by (rule length_gathered [OF selects_index [OF ok(1) k] ok(2)])
  show ?thesis
    using i n load_element [OF n ok(2,3)] store_element [OF dst(1) len dst(2,3) j] by auto
qed

lemma copy_fn_loop_gathers:
  assumes ok: "selects sel None n (unat off + unat c)" "n * unat es \<le> length d" "length d < 2 ^ 64"
    and sum: "unat off + unat c < 2 ^ 64"
    and pos: "unat (k :: usize) = unat (off :: usize) + j" "j + r = unat c"
    and dst: "length acc = j * unat es" "r * unat es \<le> length rest" "length (acc @ rest) < 2 ^ 64"
  shows "copy_fn_loop d off c es sel k (acc @ rest) =
    Some (acc @ concat (map (gathered d (unat es) sel None) [unat k..<unat k + r]) @ drop (r * unat es) rest)"
  using pos dst
proof (induction r arbitrary: k j acc rest)
  case 0
  then have "\<not> k < off + c" using sum by (simp add: u64_ord unat_add_u64)
  then show ?case by (subst copy_fn_loop.simps) simp
next
  case (Suc r)
  have lt: "k < off + c" using Suc.prems sum by (simp add: u64_ord unat_add_u64)
  have k1: "unat (k + 1) = Suc (unat k)" by (rule unat_inc_less [OF lt])
  let ?g = "gathered d (unat es) sel None"
  have "j < unat c" "unat es \<le> length rest" using Suc.prems by simp_all
  then obtain i where i: "index_at sel k k = Some i"
      "load_at d (i * es) es = Some (?g (unat k))"
      "store_at (acc @ rest) ((k - off) * es) (?g (unat k)) = Some ((acc @ ?g (unat k)) @ drop (unat es) rest)"
    using copy_step [OF ok Suc.prems(1) _ Suc.prems(3) _ Suc.prems(5)] by (auto simp: gathered_def is_null_def)
  have len: "length (?g (unat k)) = unat es"
    using Suc.prems by (intro length_gathered [OF selects_index [OF ok(1)] ok(2)]) simp
  have "copy_fn_loop d off c es sel (k + 1) ((acc @ ?g (unat k)) @ drop (unat es) rest) =
      Some ((acc @ ?g (unat k)) @ concat (map ?g [unat (k + 1)..<unat (k + 1) + r]) @ drop (r * unat es) (drop (unat es) rest))"
    using Suc.prems k1 len by (intro Suc.IH [of _ "Suc j"]) simp_all
  then show ?case
    by (subst copy_fn_loop.simps) (simp only: lt i k1 if_True bind.simps, simp add: upt_rec [of "unat k"] add.commute)
qed

lemma copy_fn_set_null_loop_gathers:
  assumes ok: "selects sel (Some nm) n (unat off + unat c)" "n * unat es \<le> length d" "length d < 2 ^ 64"
    and sum: "unat off + unat c < 2 ^ 64"
    and pos: "unat (k :: usize) = unat (off :: usize) + j" "j + r = unat c"
    and dst: "length acc = j * unat es" "r * unat es \<le> length rest" "length (acc @ rest) < 2 ^ 64"
  shows "copy_fn_set_null_loop d off c es sel nm k (acc @ rest) =
    Some (acc @ concat (map (gathered d (unat es) sel (Some nm)) [unat k..<unat k + r]) @ drop (r * unat es) rest)"
  using pos dst
proof (induction r arbitrary: k j acc rest)
  case 0
  then have "\<not> k < off + c" using sum by (simp add: u64_ord unat_add_u64)
  then show ?case by (subst copy_fn_set_null_loop.simps) simp
next
  case (Suc r)
  have lt: "k < off + c" using Suc.prems sum by (simp add: u64_ord unat_add_u64)
  have k1: "unat (k + 1) = Suc (unat k)" by (rule unat_inc_less [OF lt])
  let ?g = "gathered d (unat es) sel (Some nm)"
  have "j < unat c" "unat es \<le> length rest" using Suc.prems by simp_all
  then obtain i where i: "index_at sel k k = Some i" "unat i = sel_index sel (unat k)" "unat i < n"
      "load_at d (i * es) es = Some (mem_read (sel_index sel (unat k) * unat es) (unat es) d)"
      "store_at (acc @ rest) ((k - off) * es) (?g (unat k)) = Some ((acc @ ?g (unat k)) @ drop (unat es) rest)"
    using copy_step [OF ok Suc.prems(1) _ Suc.prems(3) _ Suc.prems(5)] by auto
  have null: "index_at (Some nm) 0 i = Some (nm ! unat i)"
    using i(3) ok(1) by (simp add: index_at_def selects_def)
  have x: "(if nm ! unat i \<noteq> 0 then Some (replicate (unat es) 0) else load_at d (i * es) es) = Some (?g (unat k))"
    using i(2,4) by (simp add: gathered_def is_null_def)
  have len: "length (?g (unat k)) = unat es"
    using Suc.prems by (intro length_gathered [OF selects_index [OF ok(1)] ok(2)]) simp
  have "copy_fn_set_null_loop d off c es sel nm (k + 1) ((acc @ ?g (unat k)) @ drop (unat es) rest) =
      Some ((acc @ ?g (unat k)) @ concat (map ?g [unat (k + 1)..<unat (k + 1) + r]) @ drop (r * unat es) (drop (unat es) rest))"
    using Suc.prems k1 len by (intro Suc.IH [of _ "Suc j"]) simp_all
  then show ?case
    by (subst copy_fn_set_null_loop.simps) (simp only: lt i(1) null x i(5) k1 if_True bind.simps, simp add: upt_rec [of "unat k"] add.commute)
qed

text \<open>
  C23. Copying \<open>c\<close> elements of a column vector from \<open>offset\<close> on, through a selection vector and a null mask,
  puts the selected elements one after another at the start of the target, a null element as zero
  bytes, and leaves the bytes of the target after them as they were. The loop never reads or writes
  outside the arrays and returns.
\<close>

theorem generic_copy_is_gather:
  fixes source :: MustDbVector and offset c :: usize and set_null :: bool and nullmask :: "u8 list option"
  defines "es \<equiv> unat (get_typeid_size (vec_type source))"
    and "nm \<equiv> (if set_null then nullmask else None)"
  assumes "vec_data source = Some d" "unat (vec_count source) * es \<le> length d" "length d < 2 ^ 64"
    and "c \<noteq> 0" "unat offset + unat c \<le> unat (vec_count source)"
    and "selects sel nm (unat (vec_count source)) (unat offset + unat c)"
    and "unat c * es \<le> length target" "length target < 2 ^ 64"
  shows "generic_copy_loop source target offset c set_null sel nullmask =
    Some (concat (map (gathered d es sel nm) [unat offset..<unat offset + unat c]) @ drop (unat c * es) target)"
proof -
  have sum: "unat offset + unat c < 2 ^ 64"
    using assms(7) unat_lt_2p64 [of "vec_count source"] by (simp del: unat_lt_2p64)
  have nz: "vec_count source \<noteq> 0" using assms(6,7) by (auto simp: unat_eq_0)
  have le: "offset + c \<le> vec_count source"
    using sum assms(7) by (simp add: u64_ord unat_add_u64)
  have *: "nm = None \<Longrightarrow> copy_fn d target offset c (get_typeid_size (vec_type source)) sel =
      Some (concat (map (gathered d es sel nm) [unat offset..<unat offset + unat c]) @ drop (unat c * es) target)"
    using copy_fn_loop_gathers [of sel "unat (vec_count source)" offset c "get_typeid_size (vec_type source)" d offset 0 "unat c" "[]" target]
      assms sum by (simp add: copy_fn_def)
  have **: "nm = Some z \<Longrightarrow> copy_fn_set_null_loop d offset c (get_typeid_size (vec_type source)) sel z offset target =
      Some (concat (map (gathered d es sel nm) [unat offset..<unat offset + unat c]) @ drop (unat c * es) target)" for z
    using copy_fn_set_null_loop_gathers [of sel z "unat (vec_count source)" offset c "get_typeid_size (vec_type source)" d offset 0 "unat c" "[]" target]
      assms sum by simp
  show ?thesis
    using * ** nz le assms(3,6)
    by (cases set_null; cases nullmask) (simp_all add: generic_copy_loop_def copy_fn_set_null_def nm_def)
qed

theorem generic_copy_is_gather_witness:
  "generic_copy_loop \<lparr>vec_type = TYPE_INT16, vec_count = 3, vec_data = Some [1, 2, 3, 4, 5, 6]\<rparr>
     [9, 9, 9, 9, 9] 1 2 True (Some [0, 2, 1]) (Some [0, 1, 0]) = Some [5, 6, 0, 0, 9]"
proof -
  let ?v = "\<lparr>vec_type = TYPE_INT16, vec_count = 3, vec_data = Some [1, 2, 3, 4, 5, 6]\<rparr>"
  have "selects (Some [0, 2, 1]) (Some [0, 1, 0]) 3 (Suc (Suc (Suc 0)))" by code_simp
  moreover have "gathered [1, 2, 3, 4, 5, 6] 2 (Some [0, 2, 1]) (Some [0, 1, 0]) (Suc 0) = [5, 6]"
    and "gathered [1, 2, 3, 4, 5, 6] 2 (Some [0, 2, 1]) (Some [0, 1, 0]) (Suc (Suc 0)) = [0, 0]"
    by code_simp+
  ultimately show ?thesis
    using generic_copy_is_gather [of ?v "[1, 2, 3, 4, 5, 6]" 2 1 "Some [0, 2, 1]" True "Some [0, 1, 0]" "[9, 9, 9, 9, 9]"]
    by simp
qed

section \<open>Symmetry of the distances\<close>

text \<open>
  What the distances use of the floating-point arithmetic: multiplication commutes, and a difference
  and the difference the other way round have the same square and the same absolute value.
\<close>

definition float_symmetric :: "float_ops \<Rightarrow> bool" where
  "float_symmetric F \<longleftrightarrow>
     (\<forall>x y. f_mul F x y = f_mul F y x) \<and>
     (\<forall>x y. f_mul F (f_sub F x y) (f_sub F x y) = f_mul F (f_sub F y x) (f_sub F y x)) \<and>
     (\<forall>x y. f_abs F (f_sub F x y) = f_abs F (f_sub F y x)) \<and>
     (\<forall>x y. d_mul F x y = d_mul F y x)"

lemma dims_loop_swap:
  assumes "\<And>s x y. step' (h s) y x = h (step s x y)"
  shows "dims_loop step' bx ax is (h s) = map_option h (dims_loop step ax bx is s)"
proof (induction "is" arbitrary: s)
  case (Cons i "is")
  then show ?case
    using assms by (cases "f32_at ax i"; cases "f32_at bx i") simp_all
qed simp

lemma l2_squared_distance_swap: "float_symmetric F \<Longrightarrow> l2_squared_distance F n b a = l2_squared_distance F n a b"
  unfolding l2_squared_distance_def
  by (rule trans [OF dims_loop_swap [where h = "\<lambda>s. s"]]) (simp_all add: float_symmetric_def Let_def option.map_ident)

lemma inner_product_swap: "float_symmetric F \<Longrightarrow> inner_product F n b a = inner_product F n a b"
  unfolding inner_product_def
  by (rule trans [OF dims_loop_swap [where h = "\<lambda>s. s"]]) (simp_all add: float_symmetric_def option.map_ident)

lemma l1_distance_swap: "float_symmetric F \<Longrightarrow> l1_distance F n b a = l1_distance F n a b"
  unfolding l1_distance_def
  by (rule trans [OF dims_loop_swap [where h = "\<lambda>s. s"]]) (simp_all add: float_symmetric_def option.map_ident)

lemma cosine_distance_swap:
  assumes "float_symmetric F"
  shows "cosine_distance F n b a = cosine_distance F n a b"
proof -
  let ?step = "\<lambda>(similarity, norma, normb) x y.
      (f_add F similarity (f_mul F x y), f_add F norma (f_mul F x x), f_add F normb (f_mul F y y))"
  have "dims_loop ?step b a [0..<unat n] (0, 0, 0) =
      map_option (\<lambda>(s, p, q). (s, q, p)) (dims_loop ?step a b [0..<unat n] (0, 0, 0))"
    using dims_loop_swap [of ?step "\<lambda>(s, p, q). (s, q, p)" ?step b a "[0..<unat n]" "(0, 0, 0)"] assms
    by (simp add: float_symmetric_def split_beta)
  then show ?thesis
    using assms
    by (cases "dims_loop ?step a b [0..<unat n] (0, 0, 0)")
       (simp_all add: cosine_distance_def split_beta float_symmetric_def)
qed

lemmas distance_swaps = l2_squared_distance_swap inner_product_swap l1_distance_swap cosine_distance_swap

text \<open>
  Every metric is symmetric: exchanging the two vectors gives the same result, also when the dimensions
  differ (not a number for every metric) and when one of the vectors is shorter than its count says.
\<close>

theorem distance_symmetric:
  assumes "float_symmetric F"
  shows "vec_compute_distance F b a type = vec_compute_distance F a b type \<and>
    (vec_count a \<noteq> vec_count b \<longrightarrow> vec_compute_distance F a b type \<in> {Some (f_nan F), Some (f_neg F (f_nan F))})"
  using distance_swaps [OF assms]
  by (auto simp: vec_compute_distance_def vec_l2_squared_distance_def vec_l2_distance_def vec_cosine_distance_def
      vec_inner_product_def vec_l1_distance_def check_dims_def split: option.splits DistanceType.splits)

text \<open>Integer arithmetic satisfies the laws: a squared distance of two vectors of two elements.\<close>

definition word_ops :: float_ops where
  "word_ops = \<lparr>f_add = (+), f_sub = (-), f_mul = (*), f_neg = uminus, f_abs = (\<lambda>x. min x (- x)),
     f_less = (<), f_isnan = (\<lambda>x. False), f_nan = 0x7FC00000, f_one = 1, f_to_double = ucast, f_of_double = ucast,
     d_mul = (*), d_div = (div), d_sqrt = (\<lambda>x. x)\<rparr>"

lemma word_ops_symmetric: "float_symmetric word_ops"
  by (simp add: float_symmetric_def word_ops_def min.commute algebra_simps)

theorem distance_symmetric_witness:
  "vec_compute_distance word_ops \<lparr>vec_type = TYPE_FLOAT32, vec_count = 2, vec_data = Some [7, 0, 0, 0, 1, 0, 0, 0]\<rparr>
       \<lparr>vec_type = TYPE_FLOAT32, vec_count = 2, vec_data = Some [4, 0, 0, 0, 3, 0, 0, 0]\<rparr> (Some L2_SQUARED) = Some 13 \<and>
   vec_compute_distance word_ops \<lparr>vec_type = TYPE_FLOAT32, vec_count = 2, vec_data = Some [4, 0, 0, 0, 3, 0, 0, 0]\<rparr>
       \<lparr>vec_type = TYPE_FLOAT32, vec_count = 2, vec_data = Some [7, 0, 0, 0, 1, 0, 0, 0]\<rparr> (Some L2_SQUARED) = Some 13"
proof -
  let ?a = "\<lparr>vec_type = TYPE_FLOAT32, vec_count = 2, vec_data = Some [7, 0, 0, 0, 1, 0, 0, 0]\<rparr>"
  let ?b = "\<lparr>vec_type = TYPE_FLOAT32, vec_count = 2, vec_data = Some [4, 0, 0, 0, 3, 0, 0, 0]\<rparr>"
  have "vec_compute_distance word_ops ?a ?b (Some L2_SQUARED) = Some 13" by code_simp
  then show ?thesis using distance_symmetric [OF word_ops_symmetric, of ?b ?a "Some L2_SQUARED"] by simp
qed

end
