(* ===== verification/Net.thy ===== *)
theory Net
  imports Hmap "HOL-Library.Monad_Syntax"
begin

text \<open>
  One worker of the network server (\<^verbatim>\<open>libv/src/net/net.c\<close>) and the callbacks of
  \<^verbatim>\<open>libv/src/net/conn.c\<close>. Connections are shared between the map of descriptors and the queues of
  a round, so they live in an explicit store. The answers of the kernel are parameters, indexed by the number
  of the call. An array with its counter (\<^verbatim>\<open>outs_que\<close> and \<^verbatim>\<open>noutsq\<close>) is the list of its first entries; a
  write past the allocated size, an access to a freed connection and a null pointer that is followed give
  \<^term>\<open>None\<close>. Packet slot \<open>i\<close> is the \<^verbatim>\<open>PACKETSIZE\<close> bytes at \<^verbatim>\<open>inpkts + i * PACKETSIZE\<close>.
\<close>

section \<open>Data\<close>

type_synonym fd = u32
type_synonym conn_ptr = nat

definition PACKETSIZE :: nat where
  "PACKETSIZE = 16384"

datatype errno = EAGAIN | EWOULDBLOCK | EINTR | EEXIST | EOTHER

record event_t =
  ev_EPOLLIN :: bool
  ev_EPOLLOUT :: bool
  ev_EPOLLEXCLUSIVE :: bool
  ev_fd :: fd

datatype epoll_op = EPOLL_CTL_ADD | EPOLL_CTL_MOD

text \<open>
  The answers of the kernel and of the allocator to the \<open>n\<close>-th call: \<^verbatim>\<open>read\<close> and \<^verbatim>\<open>write\<close> give an error or the bytes
  that are there and the number of bytes that are taken.
\<close>

record kernel =
  sys_fcntl :: "nat \<Rightarrow> bool"
  sys_accept :: "nat \<Rightarrow> fd"
  sys_epoll_ctl :: "nat \<Rightarrow> errno option"
  sys_read :: "nat \<Rightarrow> errno + bytes"
  sys_write :: "nat \<Rightarrow> errno + nat"
  sys_malloc :: "nat \<Rightarrow> bool"

datatype net_trace = Received fd bytes | Sent fd bytes | Shut fd | Watch epoll_op fd event_t

record net_conn =
  nc_fd :: fd
  nc_closed :: bool
  nc_udata :: "nat option"
  nc_out :: "bytes option"
  nc_outlen :: usize
  nc_outcap :: usize
  nc_outoff :: usize
  nc_bgctx :: "nat option"
  nc_ctx :: nat

text \<open>A callback gets the address of the connection and may change the connection and the user's data.\<close>

type_synonym 'u on_data = "conn_ptr \<Rightarrow> net_conn \<Rightarrow> bytes \<Rightarrow> 'u \<Rightarrow> (net_conn \<times> 'u) option"
type_synonym 'u on_conn = "conn_ptr \<Rightarrow> net_conn \<Rightarrow> 'u \<Rightarrow> (net_conn \<times> 'u) option"

record 'u tscontext =
  ts_epfd :: fd
  ts_wake_fd :: fd
  ts_index :: nat
  ts_listen_fd :: fd
  ts_queuesize :: u32
  ts_nthreads :: u32
  ts_events :: "event_t list"
  pread_que :: "conn_ptr list"
  ins_que :: "conn_ptr list"
  attachs_que :: "conn_ptr list"
  outs_que :: "conn_ptr list"
  closes_que :: "conn_ptr list"
  inpkts :: "nat \<Rightarrow> bytes"
  inpkts_size :: nat
  inspkts_que :: "nat list"
  inspktlens_que :: "nat list"
  ts_process_fn :: "'u on_data"
  ts_opened_fn :: "'u on_conn"
  ts_closed_fn :: "'u on_conn"
  ts_ctxs_epfd :: "fd list"
  ts_hmap :: "(u32, conn_ptr) hmap"

text \<open>
  The worker's context with what it works on: the connections, the data of the user, the shared round-robin
  counter, the counter of the worker's \<^verbatim>\<open>eventfd\<close>, what was done to sockets so far and the number of calls made.
\<close>

record 'u net =
  n_ctx :: "'u tscontext"
  n_conns :: "conn_ptr \<rightharpoonup> net_conn"
  n_next :: conn_ptr
  n_user :: 'u
  n_next_ctx_index :: u64
  n_wake :: u64
  n_trace :: "net_trace list"
  n_calls :: nat

section \<open>System calls\<close>

definition tick :: "'u net \<Rightarrow> 'u net" where
  "tick s = s\<lparr>n_calls := Suc (n_calls s)\<rparr>"

definition note_trace :: "net_trace \<Rightarrow> 'u net \<Rightarrow> 'u net" where
  "note_trace e s = s\<lparr>n_trace := n_trace s @ [e]\<rparr>"

definition set_conn :: "conn_ptr \<Rightarrow> net_conn \<Rightarrow> 'u net \<Rightarrow> 'u net" where
  "set_conn p c s = s\<lparr>n_conns := (n_conns s)(p \<mapsto> c)\<rparr>"

definition note_read :: "fd \<Rightarrow> errno + bytes \<Rightarrow> 'u net \<Rightarrow> 'u net" where
  "note_read f r s = (case r of Inl e \<Rightarrow> s | Inr xs \<Rightarrow> if xs = [] then s else note_trace (Received f xs) s)"

definition sys_close :: "fd \<Rightarrow> 'u net \<Rightarrow> 'u net" where
  "sys_close f s = note_trace (Shut f) s"

definition setnonblock :: "kernel \<Rightarrow> fd \<Rightarrow> 'u net \<Rightarrow> int \<times> 'u net" where
  "setnonblock K f s =
     (if \<not> sys_fcntl K (n_calls s) then (-1, tick s)
      else if \<not> sys_fcntl K (n_calls (tick s)) then (-1, tick (tick s))
      else (0, tick (tick s)))"

definition epoll_ctl :: "kernel \<Rightarrow> fd \<Rightarrow> epoll_op \<Rightarrow> event_t \<Rightarrow> 'u net \<Rightarrow> errno option \<times> 'u net" where
  "epoll_ctl K epfd op ev s =
     (case sys_epoll_ctl K (n_calls s) of
        None \<Rightarrow> (None, note_trace (Watch op epfd ev) (tick s))
      | Some e \<Rightarrow> (Some e, tick s))"

definition ctl_result :: "errno option \<times> 'u net \<Rightarrow> int \<times> 'u net" where
  "ctl_result r = (if fst r = None then 0 else -1, snd r)"

definition add_read_common :: "kernel \<Rightarrow> fd \<Rightarrow> fd \<Rightarrow> bool \<Rightarrow> 'u net \<Rightarrow> int \<times> 'u net" where
  "add_read_common K epfd f exclusive s =
     ctl_result (epoll_ctl K epfd EPOLL_CTL_ADD
       \<lparr>ev_EPOLLIN = True, ev_EPOLLOUT = False, ev_EPOLLEXCLUSIVE = exclusive, ev_fd = f\<rparr> s)"

definition add_read :: "kernel \<Rightarrow> fd \<Rightarrow> fd \<Rightarrow> 'u net \<Rightarrow> int \<times> 'u net" where
  "add_read K epfd f s = add_read_common K epfd f False s"

definition add_listen_read :: "kernel \<Rightarrow> fd \<Rightarrow> fd \<Rightarrow> 'u net \<Rightarrow> int \<times> 'u net" where
  "add_listen_read K epfd f s = add_read_common K epfd f True s"

definition mod_read :: "kernel \<Rightarrow> fd \<Rightarrow> fd \<Rightarrow> 'u net \<Rightarrow> int \<times> 'u net" where
  "mod_read K epfd f s =
     ctl_result (epoll_ctl K epfd EPOLL_CTL_MOD
       \<lparr>ev_EPOLLIN = True, ev_EPOLLOUT = False, ev_EPOLLEXCLUSIVE = False, ev_fd = f\<rparr> s)"

definition mod_read_write :: "kernel \<Rightarrow> fd \<Rightarrow> fd \<Rightarrow> 'u net \<Rightarrow> int \<times> 'u net" where
  "mod_read_write K epfd f s =
     ctl_result (epoll_ctl K epfd EPOLL_CTL_MOD
       \<lparr>ev_EPOLLIN = True, ev_EPOLLOUT = True, ev_EPOLLEXCLUSIVE = False, ev_fd = f\<rparr> s)"

definition add_write :: "kernel \<Rightarrow> fd \<Rightarrow> fd \<Rightarrow> 'u net \<Rightarrow> int \<times> 'u net" where
  "add_write K qfd f s =
     (case epoll_ctl K qfd EPOLL_CTL_ADD
         \<lparr>ev_EPOLLIN = False, ev_EPOLLOUT = True, ev_EPOLLEXCLUSIVE = False, ev_fd = f\<rparr> s of
        (None, s1) \<Rightarrow> (0, s1)
      | (Some e, s1) \<Rightarrow> if e = EEXIST then mod_read_write K qfd f s1 else (-1, s1))"

definition get_event_fd :: "event_t \<Rightarrow> fd" where
  "get_event_fd ev = ev_fd ev"

section \<open>Connections\<close>

definition conn_new :: "kernel \<Rightarrow> fd \<Rightarrow> 'u net \<Rightarrow> conn_ptr option \<times> 'u net" where
  "conn_new K f s =
     (if \<not> sys_malloc K (n_calls s) then (None, tick s)
      else
        let p = n_next s;
            c = \<lparr>nc_fd = f, nc_closed = False, nc_udata = None, nc_out = None, nc_outlen = 0, nc_outcap = 0,
                 nc_outoff = 0, nc_bgctx = None, nc_ctx = ts_index (n_ctx s)\<rparr>
        in (Some p, set_conn p c ((tick s)\<lparr>n_next := Suc p\<rparr>)))"

definition net_conn_setudata :: "net_conn option \<Rightarrow> nat option \<Rightarrow> net_conn option" where
  "net_conn_setudata conn udata = (case conn of None \<Rightarrow> None | Some c \<Rightarrow> Some (c\<lparr>nc_udata := udata\<rparr>))"

definition net_conn_udata :: "net_conn option \<Rightarrow> nat option" where
  "net_conn_udata conn = (case conn of None \<Rightarrow> None | Some c \<Rightarrow> nc_udata c)"

text \<open>A second \<^verbatim>\<open>free\<close> of a connection is \<^term>\<open>None\<close>; its output buffer goes with it.\<close>

definition conn_free :: "conn_ptr \<Rightarrow> 'u net \<Rightarrow> 'u net option" where
  "conn_free p s = (case n_conns s p of None \<Rightarrow> None | Some c \<Rightarrow> Some (s\<lparr>n_conns := (n_conns s)(p := None)\<rparr>))"

section \<open>Accepting\<close>

text \<open>An \<^verbatim>\<open>eventfd\<close> gives its counter once and is then empty.\<close>

definition wake_read :: "'u net \<Rightarrow> int \<times> 'u net" where
  "wake_read s = (if n_wake s \<noteq> 0 then (8, s\<lparr>n_wake := 0\<rparr>) else (-1, s))"

function drain_wake :: "'u net \<Rightarrow> 'u net" where
  "drain_wake s = (case wake_read s of (n, s1) \<Rightarrow> if 0 < n then drain_wake s1 else s1)"
  by pat_completeness auto
termination
  by (relation "measure (\<lambda>s. if n_wake s = 0 then 0 else 1)") (auto simp: wake_read_def split: if_splits)

declare drain_wake.simps [simp del]

definition push_que :: "u32 \<Rightarrow> 'a list \<Rightarrow> 'a \<Rightarrow> 'a list option" where
  "push_que cap q x = (if length q < unat cap then Some (q @ [x]) else None)"

definition push_closes :: "conn_ptr \<Rightarrow> 'u net \<Rightarrow> 'u net option" where
  "push_closes p s =
     map_option (\<lambda>q. s\<lparr>n_ctx := (n_ctx s)\<lparr>closes_que := q\<rparr>\<rparr>) (push_que (ts_queuesize (n_ctx s)) (closes_que (n_ctx s)) p)"

definition push_outs :: "conn_ptr \<Rightarrow> 'u net \<Rightarrow> 'u net option" where
  "push_outs p s =
     map_option (\<lambda>q. s\<lparr>n_ctx := (n_ctx s)\<lparr>outs_que := q\<rparr>\<rparr>) (push_que (ts_queuesize (n_ctx s)) (outs_que (n_ctx s)) p)"

definition push_attachs :: "conn_ptr \<Rightarrow> 'u net \<Rightarrow> 'u net option" where
  "push_attachs p s =
     map_option (\<lambda>q. s\<lparr>n_ctx := (n_ctx s)\<lparr>attachs_que := q\<rparr>\<rparr>) (push_que (ts_queuesize (n_ctx s)) (attachs_que (n_ctx s)) p)"

definition push_pread :: "conn_ptr \<Rightarrow> 'u net \<Rightarrow> 'u net option" where
  "push_pread p s =
     map_option (\<lambda>q. s\<lparr>n_ctx := (n_ctx s)\<lparr>pread_que := q\<rparr>\<rparr>) (push_que (ts_queuesize (n_ctx s)) (pread_que (n_ctx s)) p)"

definition ts_enqueue :: "conn_ptr \<Rightarrow> 'u net \<Rightarrow> 'u net option" where
  "ts_enqueue p s =
     (case n_conns s p of
        None \<Rightarrow> None
      | Some conn \<Rightarrow>
          if nc_bgctx conn \<noteq> None then push_attachs p s
          else if 0 < nc_outlen conn then push_outs p s
          else if nc_closed conn then push_closes p s
          else push_pread p s)"

definition ts_accept_new :: "kernel \<Rightarrow> 'u net \<Rightarrow> 'u net option" where
  "ts_accept_new K s =
     (let conn_fd = sys_accept K (n_calls s); s1 = tick s
      in if conn_fd <s 0 then Some s1
         else
           case setnonblock K conn_fd s1 of
             (r, s2) \<Rightarrow>
               if r \<noteq> 0 then Some (sys_close conn_fd s2)
               else
                 let idx = unat (n_next_ctx_index s2 mod ucast (ts_nthreads (n_ctx s2)));
                     s3 = s2\<lparr>n_next_ctx_index := n_next_ctx_index s2 + 1\<rparr>
                 in if idx < length (ts_ctxs_epfd (n_ctx s3))
                    then case add_read K (ts_ctxs_epfd (n_ctx s3) ! idx) conn_fd s3 of
                           (r, s4) \<Rightarrow> if r < 0 then Some (sys_close conn_fd s4) else Some s4
                    else None)"

definition call_opened :: "conn_ptr \<Rightarrow> 'u net \<Rightarrow> 'u net option" where
  "call_opened p s =
     do {
       c \<leftarrow> n_conns s p;
       (c1, u) \<leftarrow> ts_opened_fn (n_ctx s) p c (n_user s);
       Some (set_conn p c1 (s\<lparr>n_user := u\<rparr>))
     }"

text \<open>The map's own allocations may fail; the result of the insertion is not looked at.\<close>

definition ts_accept_event :: "kernel \<Rightarrow> event_t \<Rightarrow> 'u net \<Rightarrow> 'u net option" where
  "ts_accept_event K ev s =
     (let f = get_event_fd ev
      in if f = ts_wake_fd (n_ctx s) then Some (drain_wake s)
         else
           case hmap_get_value (ts_hmap (n_ctx s)) f of
             Some conn \<Rightarrow> ts_enqueue conn s
           | None \<Rightarrow>
               if f = ts_listen_fd (n_ctx s) then ts_accept_new K s
               else
                 case conn_new K f s of
                   (None, s1) \<Rightarrow> Some (sys_close f s1)
                 | (Some conn, s1) \<Rightarrow>
                     let hm = snd (hmap_insert (sys_malloc K (n_calls s1)) (sys_malloc K (n_calls (tick s1)))
                                     (ts_hmap (n_ctx s1)) f conn);
                         s2 = (tick (tick s1))\<lparr>n_ctx := (n_ctx s1)\<lparr>ts_hmap := hm\<rparr>\<rparr>
                     in do {
                          s3 \<leftarrow> call_opened conn s2;
                          ts_enqueue conn s3
                        })"

fun ts_accept_loop :: "kernel \<Rightarrow> event_t list \<Rightarrow> 'u net \<Rightarrow> 'u net option" where
  "ts_accept_loop K [] s = Some s"
| "ts_accept_loop K (ev # evs) s =
     do {
       s1 \<leftarrow> ts_accept_event K ev s;
       ts_accept_loop K evs s1
     }"

definition ts_accept :: "kernel \<Rightarrow> 'u net \<Rightarrow> 'u net option" where
  "ts_accept K s = ts_accept_loop K (ts_events (n_ctx s)) s"

section \<open>Reading\<close>

definition handle_read :: "errno + bytes \<Rightarrow> nat \<Rightarrow> conn_ptr \<Rightarrow> 'u net \<Rightarrow> 'u net option" where
  "handle_read r pkt p s =
     (case r of
        Inl e \<Rightarrow> if e = EAGAIN \<or> e = EWOULDBLOCK \<or> e = EINTR then Some s else push_closes p s
      | Inr xs \<Rightarrow>
          if xs = [] then push_closes p s
          else if PACKETSIZE \<le> length xs then None
          else
            let ctx = n_ctx s; cap = ts_queuesize ctx
            in do {
                 q \<leftarrow> push_que cap (ins_que ctx) p;
                 qp \<leftarrow> push_que cap (inspkts_que ctx) pkt;
                 ql \<leftarrow> push_que cap (inspktlens_que ctx) (length xs);
                 Some (s\<lparr>n_ctx := ctx\<lparr>inpkts := (inpkts ctx)(pkt := xs @ [0]), ins_que := q, inspkts_que := qp,
                                      inspktlens_que := ql\<rparr>\<rparr>)
               })"

definition ts_read_one :: "kernel \<Rightarrow> nat \<Rightarrow> conn_ptr \<Rightarrow> 'u net \<Rightarrow> 'u net option" where
  "ts_read_one K i p s =
     (case n_conns s p of
        None \<Rightarrow> None
      | Some conn \<Rightarrow>
          if inpkts_size (n_ctx s) < Suc i * PACKETSIZE then None
          else
            let n = (case sys_read K (n_calls s) of Inl e \<Rightarrow> Inl e | Inr xs \<Rightarrow> Inr (take (PACKETSIZE - 1) xs))
            in handle_read n i p (note_read (nc_fd conn) n (tick s)))"

fun ts_read_loop :: "kernel \<Rightarrow> nat \<Rightarrow> conn_ptr list \<Rightarrow> 'u net \<Rightarrow> 'u net option" where
  "ts_read_loop K i [] s = Some s"
| "ts_read_loop K i (p # ps) s =
     do {
       s1 \<leftarrow> ts_read_one K i p s;
       ts_read_loop K (Suc i) ps s1
     }"

definition ts_read :: "kernel \<Rightarrow> 'u net \<Rightarrow> 'u net option" where
  "ts_read K s = ts_read_loop K 0 (pread_que (n_ctx s)) s"

section \<open>Processing\<close>

definition ts_process_one :: "conn_ptr \<Rightarrow> nat \<Rightarrow> nat \<Rightarrow> 'u net \<Rightarrow> 'u net option" where
  "ts_process_one p pkt n s =
     do {
       c \<leftarrow> n_conns s p;
       (c1, u) \<leftarrow> ts_process_fn (n_ctx s) p c (take n (inpkts (n_ctx s) pkt)) (n_user s);
       let s1 = set_conn p c1 (s\<lparr>n_user := u\<rparr>);
       if nc_bgctx c1 \<noteq> None then Some s1
       else if 0 < nc_outlen c1 then push_outs p s1
       else if nc_closed c1 then push_closes p s1
       else Some s1
     }"

fun ts_process_loop :: "conn_ptr list \<Rightarrow> nat list \<Rightarrow> nat list \<Rightarrow> 'u net \<Rightarrow> 'u net option" where
  "ts_process_loop (p # ps) (pkt # pkts) (n # ns) s =
     do {
       s1 \<leftarrow> ts_process_one p pkt n s;
       ts_process_loop ps pkts ns s1
     }"
| "ts_process_loop ps pkts ns s = Some s"

definition ts_process :: "'u net \<Rightarrow> 'u net option" where
  "ts_process s = ts_process_loop (ins_que (n_ctx s)) (inspkts_que (n_ctx s)) (inspktlens_que (n_ctx s)) s"

section \<open>Writing\<close>

text \<open>The bytes from \<^verbatim>\<open>out + outoff\<close> on; \<^term>\<open>None\<close> when they are not all inside the buffer.\<close>

definition out_rest :: "net_conn \<Rightarrow> bytes option" where
  "out_rest c =
     (case nc_out c of
        None \<Rightarrow> None
      | Some d \<Rightarrow>
          if unat (nc_outlen c) \<le> length d
          then Some (mem_read (unat (nc_outoff c)) (unat (nc_outlen c - nc_outoff c)) d) else None)"

partial_function (option) flush_conn :: "kernel \<Rightarrow> conn_ptr \<Rightarrow> 'u net \<Rightarrow> 'u net option" where
  "flush_conn K p s =
     (case n_conns s p of
        None \<Rightarrow> None
      | Some c \<Rightarrow>
          if nc_outoff c < nc_outlen c
          then
            case out_rest c of
              None \<Rightarrow> None
            | Some xs \<Rightarrow>
                (case sys_write K (n_calls s) of
                   Inl e \<Rightarrow>
                     if e = EINTR then flush_conn K p (tick s)
                     else if e = EAGAIN \<or> e = EWOULDBLOCK then Some (tick s)
                     else Some (set_conn p (c\<lparr>nc_closed := True\<rparr>) (tick s))
                 | Inr m \<Rightarrow>
                     let n = min m (length xs)
                     in if n = 0 then Some (tick s)
                        else flush_conn K p
                               (note_trace (Sent (nc_fd c) (take n xs))
                                 (set_conn p (c\<lparr>nc_outoff := nc_outoff c + of_nat n\<rparr>) (tick s))))
          else Some (set_conn p (c\<lparr>nc_out := None, nc_outlen := 0, nc_outcap := 0, nc_outoff := 0\<rparr>) s))"

definition ts_write_one :: "kernel \<Rightarrow> conn_ptr \<Rightarrow> 'u net \<Rightarrow> 'u net option" where
  "ts_write_one K p s =
     do {
       s1 \<leftarrow> flush_conn K p s;
       c \<leftarrow> n_conns s1 p;
       if nc_closed c then push_closes p s1
       else
         case (if 0 < nc_outlen c then add_write else mod_read) K (ts_epfd (n_ctx s1)) (nc_fd c) s1 of
           (r, s2) \<Rightarrow> Some (if r \<noteq> 0 then set_conn p (c\<lparr>nc_closed := True\<rparr>) s2 else s2)
     }"

fun ts_write_loop :: "kernel \<Rightarrow> conn_ptr list \<Rightarrow> 'u net \<Rightarrow> 'u net option" where
  "ts_write_loop K [] s = Some s"
| "ts_write_loop K (p # ps) s =
     do {
       s1 \<leftarrow> ts_write_one K p s;
       ts_write_loop K ps s1
     }"

definition ts_write :: "kernel \<Rightarrow> 'u net \<Rightarrow> 'u net option" where
  "ts_write K s = ts_write_loop K (outs_que (n_ctx s)) s"

section \<open>Closing\<close>

definition ts_close_one :: "conn_ptr \<Rightarrow> 'u net \<Rightarrow> 'u net option" where
  "ts_close_one p s =
     do {
       c \<leftarrow> n_conns s p;
       (c1, u) \<leftarrow> ts_closed_fn (n_ctx s) p c (n_user s);
       let s1 = set_conn p c1 (s\<lparr>n_user := u\<rparr>);
       let s2 = sys_close (nc_fd c1) s1;
       let hm = snd (snd (hmap_delete (ts_hmap (n_ctx s2)) (nc_fd c1)));
       conn_free p (s2\<lparr>n_ctx := (n_ctx s2)\<lparr>ts_hmap := hm\<rparr>\<rparr>)
     }"

fun ts_close_loop :: "conn_ptr list \<Rightarrow> 'u net \<Rightarrow> 'u net option" where
  "ts_close_loop [] s = Some s"
| "ts_close_loop (p # ps) s =
     do {
       s1 \<leftarrow> ts_close_one p s;
       ts_close_loop ps s1
     }"

definition ts_close :: "'u net \<Rightarrow> 'u net option" where
  "ts_close s = ts_close_loop (closes_que (n_ctx s)) s"

section \<open>The worker's loop\<close>

definition ts_reset :: "'u net \<Rightarrow> 'u net" where
  "ts_reset s = s\<lparr>n_ctx := (n_ctx s)\<lparr>pread_que := [], ins_que := [], inspkts_que := [], inspktlens_que := [],
                               closes_que := [], outs_que := [], attachs_que := []\<rparr>\<rparr>"

definition ts_attach :: "'u net \<Rightarrow> 'u net" where
  "ts_attach s = s"

definition ts_round :: "kernel \<Rightarrow> event_t list \<Rightarrow> 'u net \<Rightarrow> 'u net option" where
  "ts_round K evs s =
     do {
       let s0 = s\<lparr>n_ctx := (n_ctx s)\<lparr>ts_events := evs\<rparr>\<rparr>;
       s1 \<leftarrow> ts_accept K (ts_attach (ts_reset s0));
       s2 \<leftarrow> ts_read K s1;
       s3 \<leftarrow> ts_process s2;
       s4 \<leftarrow> ts_write K s3;
       ts_close s4
     }"

text \<open>
  What the loop meets in one iteration: the flag \<^verbatim>\<open>stopping\<close> at its head, the answer of \<^verbatim>\<open>epoll_wait\<close> and the flag
  after a failed wait. The list is what the loop meets up to some moment; the flag of the result says whether
  the thread has returned by then.
\<close>

record wait_step =
  w_stopping :: bool
  w_events :: "errno + event_t list"
  w_stopping_after :: bool

fun ts_worker_run :: "kernel \<Rightarrow> wait_step list \<Rightarrow> 'u net \<Rightarrow> (bool \<times> 'u net) option" where
  "ts_worker_run K [] s = Some (False, s)"
| "ts_worker_run K (w # ws) s =
     (if w_stopping w then Some (True, s)
      else
        case w_events w of
          Inl e \<Rightarrow>
            if e = EINTR then ts_worker_run K ws s
            else if w_stopping_after w then Some (True, s)
            else ts_worker_run K ws s
        | Inr evs \<Rightarrow>
            do {
              s1 \<leftarrow> ts_round K (take (unat (ts_queuesize (n_ctx s))) evs) s;
              ts_worker_run K ws s1
            })"

definition ts_worker_loop :: "kernel \<Rightarrow> bool \<Rightarrow> wait_step list \<Rightarrow> 'u net \<Rightarrow> (bool \<times> 'u net) option" where
  "ts_worker_loop K ok_events ws s = (if \<not> ok_events then Some (True, s) else ts_worker_run K ws s)"

text \<open>
  \<^verbatim>\<open>create_worker\<close> runs a worker in the calling thread. The field \<^verbatim>\<open>epfd\<close> of a context is also
  what the other workers read through \<^verbatim>\<open>ctxs\<close>. The result holds the value that is returned once the flag is set.
\<close>

definition create_worker ::
  "kernel \<Rightarrow> fd \<Rightarrow> bool \<Rightarrow> wait_step list \<Rightarrow> nat \<Rightarrow> 'u net \<Rightarrow> (fd \<times> bool \<times> 'u net) option" where
  "create_worker K epfd ok_events ws index s =
     (if epfd <s 0 then Some (-1, True, s)
      else do {
        let s1 = s\<lparr>n_ctx := (n_ctx s)\<lparr>ts_epfd := epfd, ts_index := index,
                                        ts_ctxs_epfd := (ts_ctxs_epfd (n_ctx s))[index := epfd]\<rparr>\<rparr>;
        let s2 = snd (add_read K epfd (ts_listen_fd (n_ctx s1)) s1);
        (stopped, s3) \<leftarrow> ts_worker_loop K ok_events ws s2;
        Some (epfd, stopped, s3)
      })"

section \<open>The echo callbacks\<close>

record buf =
  buf_data :: "bytes option"
  buf_len :: usize
  buf_cap :: usize

record Conn =
  cn_fd :: fd
  cn_packet :: buf
  cn_conn5 :: "conn_ptr option"

text \<open>The heap of the callbacks, with the answers of the allocator to the calls to come.\<close>

record ev_heap =
  eh_conns :: "nat \<rightharpoonup> Conn"
  eh_next :: nat
  eh_malloc :: "nat \<Rightarrow> bool"
  eh_realloc :: "nat \<Rightarrow> allocator"
  eh_calls :: nat

definition buf_clear :: "buf \<Rightarrow> buf" where
  "buf_clear b = \<lparr>buf_data = None, buf_len = 0, buf_cap = 0\<rparr>"

definition ev_response :: bytes where
  "ev_response = map (of_nat \<circ> of_char) ''Ok'' @ [10]"

definition ev_process :: "ev_heap on_data" where
  "ev_process p conn pkt u =
     (let resp_len = of_nat (length ev_response); u1 = u\<lparr>eh_calls := Suc (eh_calls u)\<rparr>
      in case c_realloc (eh_realloc u (eh_calls u)) (nc_out conn) resp_len of
           None \<Rightarrow> Some (conn\<lparr>nc_closed := True\<rparr>, u1)
         | Some newbuf \<Rightarrow>
             Some (conn\<lparr>nc_out := Some (mem_write 0 ev_response newbuf), nc_outlen := resp_len, nc_outcap := resp_len,
                        nc_outoff := 0\<rparr>, u1))"

text \<open>The result of \<^verbatim>\<open>malloc\<close> is written to without a check.\<close>

definition ev_opened :: "ev_heap on_conn" where
  "ev_opened p conn5 u =
     (if \<not> eh_malloc u (eh_calls u) then None
      else
        let conn = \<lparr>cn_fd = 0, cn_packet = \<lparr>buf_data = None, buf_len = 0, buf_cap = 0\<rparr>, cn_conn5 = Some p\<rparr>;
            u1 = u\<lparr>eh_conns := (eh_conns u)(eh_next u \<mapsto> conn), eh_next := Suc (eh_next u), eh_calls := Suc (eh_calls u)\<rparr>
        in map_option (\<lambda>c. (c, u1)) (net_conn_setudata (Some conn5) (Some (eh_next u))))"

definition ev_closed :: "ev_heap on_conn" where
  "ev_closed p conn5 u =
     do {
       q \<leftarrow> net_conn_udata (Some conn5);
       conn \<leftarrow> eh_conns u q;
       let u1 = u\<lparr>eh_conns := (eh_conns u)(q \<mapsto> conn\<lparr>cn_packet := buf_clear (cn_packet conn)\<rparr>)\<rparr>;
       Some (conn5, u1\<lparr>eh_conns := (eh_conns u1)(q := None)\<rparr>)
     }"

end
