(* ===== verification/NetRound.thy ===== *)
theory NetRound
  imports Net
begin

text \<open>
  A round of a network worker: the order in which pending output is sent, and that the worker never
  writes past a queue, never touches a freed connection and never frees one twice.
\<close>

section \<open>Sending pending output\<close>

definition out_ok :: "net_conn \<Rightarrow> bool" where
  "out_ok c \<longleftrightarrow>
     nc_outoff c \<le> nc_outlen c \<and>
     (nc_outlen c \<noteq> 0 \<longrightarrow> (case nc_out c of None \<Rightarrow> False | Some d \<Rightarrow> unat (nc_outlen c) \<le> length d))"

definition unsent :: "net_conn \<Rightarrow> bytes" where
  "unsent c = (case nc_out c of None \<Rightarrow> [] | Some d \<Rightarrow> drop (unat (nc_outoff c)) (take (unat (nc_outlen c)) d))"

lemma out_ok_closed [simp]: "out_ok (c\<lparr>nc_closed := b\<rparr>) = out_ok c"
  by (simp add: out_ok_def split: option.splits)

text \<open>A signal may interrupt \<^verbatim>\<open>write\<close> any number of times, but not for ever.\<close>

definition write_progress :: "kernel \<Rightarrow> bool" where
  "write_progress K \<longleftrightarrow> (\<forall>n. \<exists>m \<ge> n. sys_write K m \<noteq> Inl EINTR)"

lemmas net_defs = tick_def note_trace_def set_conn_def sys_close_def

lemma out_rest_unsent:
  assumes "out_ok c" "nc_outoff c < nc_outlen c"
  shows "out_rest c = Some (unsent c)" "length (unsent c) = unat (nc_outlen c) - unat (nc_outoff c)"
proof -
  have "nc_outlen c \<noteq> 0" using assms(2) by auto
  then obtain d where d: "nc_out c = Some d" "unat (nc_outlen c) \<le> length d"
    using assms(1) by (auto simp: out_ok_def split: option.splits)
  have "unat (nc_outlen c - nc_outoff c) = unat (nc_outlen c) - unat (nc_outoff c)"
    using assms(2) by (simp add: unat_sub_if_size u64_ord)
  then show "out_rest c = Some (unsent c)" "length (unsent c) = unat (nc_outlen c) - unat (nc_outoff c)"
    using d by (simp_all add: out_rest_def unsent_def mem_read_def drop_take)
qed

text \<open>\<open>n\<close> bytes taken by the kernel.\<close>

definition advance :: "nat \<Rightarrow> net_conn \<Rightarrow> net_conn" where
  "advance n c = c\<lparr>nc_outoff := nc_outoff c + of_nat n\<rparr>"

lemma advance_ok:
  assumes "out_ok c" "n \<le> unat (nc_outlen c) - unat (nc_outoff c)"
  shows "unat (nc_outoff (advance n c)) = unat (nc_outoff c) + n" "out_ok (advance n c)"
    "unsent (advance n c) = drop n (unsent c)"
proof -
  have le: "unat (nc_outoff c) \<le> unat (nc_outlen c)" using assms(1) by (simp add: out_ok_def u64_ord)
  then have b: "unat (nc_outoff c) + n < 2 ^ 64"
    using assms(2) unat_lt_2p64 [of "nc_outlen c"] by (simp del: unat_lt_2p64)
  then show off: "unat (nc_outoff (advance n c)) = unat (nc_outoff c) + n"
    by (simp add: advance_def unat_add_u64 unat_of_nat_u64)
  show "out_ok (advance n c)"
    using off assms le by (auto simp: out_ok_def u64_ord advance_def split: option.splits)
  show "unsent (advance n c) = drop n (unsent c)"
    using off by (simp add: unsent_def split: option.splits) (simp add: advance_def add.commute)
qed

text \<open>What a flush may change: the connection's output and flag, the trace and the number of calls.\<close>

definition flushed :: "conn_ptr \<Rightarrow> net_conn \<Rightarrow> net_conn \<Rightarrow> bytes list \<Rightarrow> nat \<Rightarrow> 'u net \<Rightarrow> 'u net" where
  "flushed p c c' chunks k s =
     s\<lparr>n_conns := (n_conns s)(p \<mapsto> c'), n_trace := n_trace s @ map (Sent (nc_fd c)) chunks, n_calls := k\<rparr>"

definition conn_kept :: "net_conn \<Rightarrow> net_conn \<Rightarrow> bool" where
  "conn_kept c c' \<longleftrightarrow>
     nc_fd c' = nc_fd c \<and> nc_udata c' = nc_udata c \<and> nc_bgctx c' = nc_bgctx c \<and> nc_ctx c' = nc_ctx c \<and>
     (nc_closed c \<longrightarrow> nc_closed c')"

lemma flush_skip_EINTR:
  assumes "n_conns s p = Some c" "nc_outoff c < nc_outlen c" "out_rest c = Some xs"
    and "\<forall>i < j. sys_write K (n_calls s + i) = Inl EINTR"
  shows "flush_conn K p s = flush_conn K p (s\<lparr>n_calls := n_calls s + j\<rparr>)"
  using assms
proof (induction j arbitrary: s)
  case 0
  then show ?case by simp
next
  case (Suc j)
  have "sys_write K (n_calls s) = Inl EINTR" using Suc.prems(4) by force
  then have "flush_conn K p s = flush_conn K p (tick s)"
    using Suc.prems(1-3) by (subst flush_conn.simps) simp
  moreover have "flush_conn K p (tick s) = flush_conn K p ((tick s)\<lparr>n_calls := n_calls (tick s) + j\<rparr>)"
    using Suc.prems by (intro Suc.IH) (auto simp: tick_def)
  ultimately show ?case by (simp add: tick_def)
qed

lemma sub_less: "0 < k \<Longrightarrow> k \<le> a - b \<Longrightarrow> a - (b + k) < a - (b :: nat)"
  by arith

lemma flush_state:
  "note_trace (Sent (nc_fd c) xs) (set_conn p c' (tick (s\<lparr>n_calls := k\<rparr>))) = flushed p c c' [xs] (Suc k) s"
  by (simp add: net_defs flushed_def)

lemma flush_conn_ok:
  assumes "write_progress K" "n_conns s p = Some c" "out_ok c"
  shows "\<exists>c' chunks k. flush_conn K p s = Some (flushed p c c' chunks k s) \<and> n_calls s \<le> k \<and>
    out_ok c' \<and> conn_kept c c' \<and> unsent c = concat chunks @ unsent c' \<and>
    (nc_outlen c' = 0 \<longrightarrow> unsent c' = [])"
  using assms(2,3)
proof (induction "unat (nc_outlen c) - unat (nc_outoff c)" arbitrary: s c rule: less_induct)
  case less
  show ?case
  proof (cases "nc_outoff c < nc_outlen c")
    case False
    let ?c = "c\<lparr>nc_out := None, nc_outlen := 0, nc_outcap := 0, nc_outoff := 0\<rparr>"
    have eq: "nc_outoff c = nc_outlen c" using False less.prems(2) by (simp add: out_ok_def)
    then have "unsent c = []" by (simp add: unsent_def split: option.splits)
    moreover have "flush_conn K p s = Some (flushed p c ?c [] (n_calls s) s)"
      using less.prems(1) False by (subst flush_conn.simps) (simp add: flushed_def set_conn_def)
    ultimately show ?thesis
      by (intro exI [of _ ?c] exI [of _ "[]"] exI [of _ "n_calls s"]) (simp add: out_ok_def conn_kept_def unsent_def)
  next
    case True
    note rest = out_rest_unsent [OF less.prems(2) True]
    define j where "j = (LEAST j. sys_write K (n_calls s + j) \<noteq> Inl EINTR)"
    have "\<exists>j. sys_write K (n_calls s + j) \<noteq> Inl EINTR"
      using assms(1) by (metis write_progress_def le_iff_add)
    then have j: "sys_write K (n_calls s + j) \<noteq> Inl EINTR" unfolding j_def by (rule LeastI_ex)
    have "\<forall>i < j. sys_write K (n_calls s + i) = Inl EINTR" unfolding j_def using not_less_Least by blast
    note skip = flush_skip_EINTR [OF less.prems(1) True rest(1) this]
    let ?k = "n_calls s + j"
    let ?s = "s\<lparr>n_calls := ?k\<rparr>"
    have cs: "n_conns ?s p = Some c" using less.prems(1) by simp
    show ?thesis
    proof (cases "sys_write K ?k")
      case (Inl e)
      let ?c = "if e = EAGAIN \<or> e = EWOULDBLOCK then c else c\<lparr>nc_closed := True\<rparr>"
      have "flush_conn K p ?s = Some (flushed p c ?c [] (Suc ?k) s)"
        using Inl j cs True rest(1) less.prems(1)
        by (subst flush_conn.simps) (simp add: flushed_def net_defs fun_upd_idem)
      then show ?thesis
        using less.prems(2) True
        by (intro exI [of _ ?c] exI [of _ "[]"] exI [of _ "Suc ?k"])
           (auto simp: skip out_ok_def conn_kept_def unsent_def split: option.splits)
    next
      case (Inr m)
      let ?n = "min m (length (unsent c))"
      show ?thesis
      proof (cases "?n = 0")
        case n: True
        have "flush_conn K p ?s = Some (flushed p c c [] (Suc ?k) s)"
          using Inr n cs True rest(1) less.prems(1)
          by (subst flush_conn.simps) (simp add: flushed_def net_defs fun_upd_idem)
        then show ?thesis
          using less.prems(2) True
          by (intro exI [of _ c] exI [of _ "[]"] exI [of _ "Suc ?k"]) (auto simp: skip conn_kept_def)
      next
        case n: False
        let ?c = "advance ?n c"
        let ?s1 = "flushed p c ?c [take ?n (unsent c)] (Suc ?k) s"
        have step: "flush_conn K p ?s = flush_conn K p ?s1"
          using Inr n cs True rest(1)
          by (subst flush_conn.simps) (simp add: flush_state advance_def Let_def del: min_less_iff_conj)
        note adv = advance_ok [OF less.prems(2), of ?n]
        have le: "?n \<le> unat (nc_outlen c) - unat (nc_outoff c)" using rest(2) by simp
        have "unat (nc_outlen ?c) - unat (nc_outoff ?c) < unat (nc_outlen c) - unat (nc_outoff c)"
          unfolding adv(1) [OF le] using sub_less [of ?n] n le by (simp add: advance_def del: min_less_iff_conj)
        moreover have "n_conns ?s1 p = Some ?c" by (simp add: flushed_def)
        ultimately obtain c' chunks k where IH:
          "flush_conn K p ?s1 = Some (flushed p ?c c' chunks k ?s1)" "n_calls ?s1 \<le> k" "out_ok c'" "conn_kept ?c c'"
          "unsent ?c = concat chunks @ unsent c'" "nc_outlen c' = 0 \<longrightarrow> unsent c' = []"
          using less.hyps [of ?c ?s1] adv(2) [OF le] by blast
        have "unsent c = take ?n (unsent c) @ unsent ?c" using adv(3) [OF le] by simp
        then have u: "unsent c = concat (take ?n (unsent c) # chunks) @ unsent c'" using IH(5) by simp
        show ?thesis
          using IH(1-4,6) u step skip
          by (intro exI [of _ c'] exI [of _ "take ?n (unsent c) # chunks"] exI [of _ k])
             (simp add: flushed_def conn_kept_def advance_def)
      qed
    qed
  qed
qed

section \<open>The invariant of a worker\<close>

definition linked :: "(fd \<rightharpoonup> conn_ptr) \<Rightarrow> (conn_ptr \<rightharpoonup> net_conn) \<Rightarrow> bool" where
  "linked m conns \<longleftrightarrow> (\<forall>f p. m f = Some p \<longrightarrow> map_option nc_fd (conns p) = Some f)"

definition worker_ok :: "'u net \<Rightarrow> bool" where
  "worker_ok s \<longleftrightarrow>
     hmap_inv (ts_hmap (n_ctx s)) \<and>
     linked (hmap_abs (ts_hmap (n_ctx s))) (n_conns s) \<and>
     (\<forall>p \<ge> n_next s. n_conns s p = None) \<and>
     (\<forall>p c. n_conns s p = Some c \<longrightarrow> out_ok c) \<and>
     unat (ts_queuesize (n_ctx s)) * PACKETSIZE \<le> inpkts_size (n_ctx s) \<and>
     ts_nthreads (n_ctx s) \<noteq> 0 \<and> length (ts_ctxs_epfd (n_ctx s)) = unat (ts_nthreads (n_ctx s))"

lemma linkedD: "linked m conns \<Longrightarrow> m f = Some p \<Longrightarrow> \<exists>c. conns p = Some c \<and> nc_fd c = f"
  unfolding linked_def by (metis map_option_eq_Some)

lemma linked_fresh: "linked m conns \<Longrightarrow> conns p = None \<Longrightarrow> linked m (conns(p \<mapsto> c))"
  unfolding linked_def by fastforce

lemma linked_insert: "linked m conns \<Longrightarrow> conns p = None \<Longrightarrow> linked (m(nc_fd c \<mapsto> p)) (conns(p \<mapsto> c))"
  unfolding linked_def by (clarsimp, metis option.distinct(1))

lemma linked_update: "linked m conns \<Longrightarrow> conns p = Some c \<Longrightarrow> nc_fd c' = nc_fd c \<Longrightarrow> linked m (conns(p \<mapsto> c'))"
  unfolding linked_def by fastforce

lemma linked_delete: "linked m conns \<Longrightarrow> conns p = Some c \<Longrightarrow> linked (m(nc_fd c := None)) (conns(p := None))"
  unfolding linked_def by (clarsimp, metis option.inject)

text \<open>The connections a list of queue entries refers to are live, and each is referred to once.\<close>

definition parked :: "conn_ptr list \<Rightarrow> 'u net \<Rightarrow> bool" where
  "parked qs s \<longleftrightarrow>
     distinct qs \<and> length qs \<le> unat (ts_queuesize (n_ctx s)) \<and> set qs \<subseteq> dom (n_conns s)"

lemma parked_sub:
  assumes "parked qs s" "mset qs' \<subseteq># mset qs" "dom (n_conns s') = dom (n_conns s)"
    "ts_queuesize (n_ctx s') = ts_queuesize (n_ctx s)"
  shows "parked qs' s'"
proof -
  obtain ys where "mset ys = mset qs - mset qs'" using ex_mset by blast
  then have "mset qs = mset (qs' @ ys)" using assms(2) by simp
  then have "distinct (qs' @ ys)" "length qs = length (qs' @ ys)" "set qs = set (qs' @ ys)"
    using assms(1) mset_eq_imp_distinct_iff [of qs "qs' @ ys"] mset_eq_length mset_eq_setD
    unfolding parked_def by blast+
  then show ?thesis using assms(1,3,4) by (auto simp: parked_def)
qed

text \<open>The part of a context that a round leaves alone, apart from the map of connections.\<close>

definition same_setup :: "'u tscontext \<Rightarrow> 'u tscontext \<Rightarrow> bool" where
  "same_setup c c' \<longleftrightarrow>
     ts_queuesize c' = ts_queuesize c \<and> ts_nthreads c' = ts_nthreads c \<and> inpkts_size c' = inpkts_size c \<and>
     ts_ctxs_epfd c' = ts_ctxs_epfd c \<and> ts_process_fn c' = ts_process_fn c \<and>
     ts_opened_fn c' = ts_opened_fn c \<and> ts_closed_fn c' = ts_closed_fn c"

lemma same_setup_refl [simp]: "same_setup c c"
  by (simp add: same_setup_def)

lemma same_setup_trans: "same_setup a b \<Longrightarrow> same_setup b c \<Longrightarrow> same_setup a c"
  by (simp add: same_setup_def)

lemma worker_ok_frame:
  assumes "worker_ok s" "same_setup (n_ctx s) (n_ctx s')" "ts_hmap (n_ctx s') = ts_hmap (n_ctx s)"
    "n_conns s' = n_conns s" "n_next s' = n_next s"
  shows "worker_ok s'"
  using assms by (simp add: worker_ok_def same_setup_def)

lemma worker_ok_set_conn:
  assumes "worker_ok s" "n_conns s p = Some c" "nc_fd c' = nc_fd c" "out_ok c'"
  shows "worker_ok (set_conn p c' s)"
  using assms by (auto simp: worker_ok_def set_conn_def intro: linked_update)

lemma int_map_room: "hmap_inv (hm :: (u32, 'v) hmap) \<Longrightarrow> hmap_room hm"
proof -
  assume "hmap_inv hm"
  then have "unat (hm_len hm) = card (dom (hmap_abs hm))" using hmap_len_card by metis
  also have "\<dots> \<le> card (UNIV :: u32 set)" by (rule card_mono) simp_all
  finally show ?thesis by (simp add: hmap_room_def card_word)
qed

lemma worker_ok_opening:
  assumes "worker_ok s" "hmap_abs (ts_hmap (n_ctx s)) f = None" "nc_fd c = f" "out_ok c"
    and "s' = s\<lparr>n_conns := (n_conns s)(n_next s \<mapsto> c), n_next := Suc (n_next s), n_calls := k,
             n_ctx := (n_ctx s)\<lparr>ts_hmap := snd (hmap_insert g n (ts_hmap (n_ctx s)) f (n_next s))\<rparr>\<rparr>"
  shows "worker_ok s'"
proof -
  have inv: "hmap_inv (ts_hmap (n_ctx s))" using assms(1) by (simp add: worker_ok_def)
  note ins = hmap_insert_ok [OF inv int_map_room [OF inv], where ok_grow = g and ok_node = n and k = f and v = "n_next s"]
  obtain r hm where hm: "hmap_insert g n (ts_hmap (n_ctx s)) f (n_next s) = (r, hm)" by fastforce
  have "hmap_inv hm" and "hmap_abs hm = hmap_abs (ts_hmap (n_ctx s)) \<or>
      hmap_abs hm = (hmap_abs (ts_hmap (n_ctx s)))(f \<mapsto> n_next s)"
    using ins hm by (auto split: option.splits)
  then show ?thesis
    using assms hm linked_fresh linked_insert [of _ _ _ c] by (auto simp: worker_ok_def)
qed

lemma worker_ok_closing:
  assumes "worker_ok s" "n_conns s p = Some c"
    and "s' = s\<lparr>n_conns := (n_conns s)(p := None), n_user := u, n_trace := t,
             n_ctx := (n_ctx s)\<lparr>ts_hmap := snd (snd (hmap_delete (ts_hmap (n_ctx s)) (nc_fd c)))\<rparr>\<rparr>"
  shows "worker_ok s'"
proof -
  have inv: "hmap_inv (ts_hmap (n_ctx s))" using assms(1) by (simp add: worker_ok_def)
  obtain r o1 hm where hm: "hmap_delete (ts_hmap (n_ctx s)) (nc_fd c) = (r, o1, hm)" by (metis prod_cases3)
  have "hmap_inv hm" "hmap_abs hm = (hmap_abs (ts_hmap (n_ctx s)))(nc_fd c := None)"
    using hmap_delete_ok [OF inv, of "nc_fd c"] hm by auto
  then show ?thesis using assms hm linked_delete [of _ "n_conns s" p c] by (auto simp: worker_ok_def)
qed

section \<open>The contract of the callbacks\<close>

text \<open>
  \<open>J m u\<close> relates the open connections to the data of the user. A callback returns, keeps the descriptor and
  leaves the output fields consistent; \<open>opened\<close> adds a connection, \<open>closed\<close> takes one away, and
  the server may change the fields of a connection that are its own.
\<close>

locale net_handlers =
  fixes process :: "'u on_data"
    and opened closed :: "'u on_conn"
    and J :: "(conn_ptr \<rightharpoonup> net_conn) \<Rightarrow> 'u \<Rightarrow> bool"
  assumes opened_ok: "J m u \<Longrightarrow> m p = None \<Longrightarrow> out_ok c \<Longrightarrow>
      \<exists>c' u'. opened p c u = Some (c', u') \<and> nc_fd c' = nc_fd c \<and> out_ok c' \<and> J (m(p \<mapsto> c')) u'"
    and process_ok: "J m u \<Longrightarrow> m p = Some c \<Longrightarrow> out_ok c \<Longrightarrow>
      \<exists>c' u'. process p c pkt u = Some (c', u') \<and> nc_fd c' = nc_fd c \<and> out_ok c' \<and> J (m(p \<mapsto> c')) u'"
    and closed_ok: "J m u \<Longrightarrow> m p = Some c \<Longrightarrow>
      \<exists>c' u'. closed p c u = Some (c', u') \<and> nc_fd c' = nc_fd c \<and> J (m(p := None)) u'"
    and kept_ok: "J m u \<Longrightarrow> m p = Some c \<Longrightarrow> conn_kept c c' \<Longrightarrow> J (m(p \<mapsto> c')) u"

definition serves :: "'u on_data \<Rightarrow> 'u on_conn \<Rightarrow> 'u on_conn \<Rightarrow> ((conn_ptr \<rightharpoonup> net_conn) \<Rightarrow> 'u \<Rightarrow> bool) \<Rightarrow> 'u net \<Rightarrow> bool" where
  "serves process opened closed J s \<longleftrightarrow>
     worker_ok s \<and> ts_process_fn (n_ctx s) = process \<and> ts_opened_fn (n_ctx s) = opened \<and>
     ts_closed_fn (n_ctx s) = closed \<and> J (n_conns s) (n_user s)"

lemma serves_frame:
  assumes "serves process opened closed J s" "same_setup (n_ctx s) (n_ctx s')"
    "ts_hmap (n_ctx s') = ts_hmap (n_ctx s)" "n_conns s' = n_conns s" "n_next s' = n_next s" "n_user s' = n_user s"
  shows "serves process opened closed J s'"
  using assms worker_ok_frame [of s s'] by (simp add: serves_def same_setup_def)

section \<open>Queues\<close>

definition waiting :: "'u tscontext \<Rightarrow> conn_ptr list" where
  "waiting c = pread_que c @ attachs_que c @ outs_que c @ closes_que c"

lemma push_que_ok: "length q < unat cap \<Longrightarrow> push_que cap q x = Some (q @ [x])"
  by (simp add: push_que_def)

definition enqueued :: "net_conn \<Rightarrow> conn_ptr \<Rightarrow> 'u tscontext \<Rightarrow> 'u tscontext" where
  "enqueued c p ctx =
     (if nc_bgctx c \<noteq> None then ctx\<lparr>attachs_que := attachs_que ctx @ [p]\<rparr>
      else if 0 < nc_outlen c then ctx\<lparr>outs_que := outs_que ctx @ [p]\<rparr>
      else if nc_closed c then ctx\<lparr>closes_que := closes_que ctx @ [p]\<rparr>
      else ctx\<lparr>pread_que := pread_que ctx @ [p]\<rparr>)"

lemma enqueue_ok:
  assumes "n_conns s p = Some c" "length (waiting (n_ctx s)) < unat (ts_queuesize (n_ctx s))"
  shows "ts_enqueue p s = Some (s\<lparr>n_ctx := enqueued c p (n_ctx s)\<rparr>)"
  using assms
  by (auto simp: ts_enqueue_def push_pread_def push_attachs_def push_outs_def push_closes_def push_que_ok waiting_def
      enqueued_def)

lemma enqueued_simps [simp]:
  "same_setup ctx (enqueued c p ctx)" "ts_hmap (enqueued c p ctx) = ts_hmap ctx"
  "mset (waiting (enqueued c p ctx)) = add_mset p (mset (waiting ctx))"
  "ins_que (enqueued c p ctx) = ins_que ctx" "inspkts_que (enqueued c p ctx) = inspkts_que ctx"
  "inspktlens_que (enqueued c p ctx) = inspktlens_que ctx" "ts_queuesize (enqueued c p ctx) = ts_queuesize ctx"
  by (simp_all add: enqueued_def same_setup_def waiting_def)

section \<open>Accepting\<close>

definition admitted :: "fd set \<Rightarrow> 'u net \<Rightarrow> bool" where
  "admitted F s \<longleftrightarrow>
     distinct (waiting (n_ctx s)) \<and>
     (\<forall>p \<in> set (waiting (n_ctx s)). \<exists>c. n_conns s p = Some c \<and> nc_fd c \<in> F) \<and>
     ins_que (n_ctx s) = [] \<and> inspkts_que (n_ctx s) = [] \<and> inspktlens_que (n_ctx s) = []"

text \<open>What an event does to the worker: at most one more entry waits, and its descriptor is that of the event.\<close>

definition admits :: "fd set \<Rightarrow> 'u net \<Rightarrow> 'u net \<Rightarrow> bool" where
  "admits F s s' \<longleftrightarrow>
     admitted F s' \<and> length (waiting (n_ctx s')) \<le> Suc (length (waiting (n_ctx s))) \<and> same_setup (n_ctx s) (n_ctx s')"

lemma drain_wake_eq: "drain_wake s = s\<lparr>n_wake := 0\<rparr>"
proof -
  have "n_wake t = 0 \<Longrightarrow> drain_wake t = t" for t :: "'a net"
    by (subst drain_wake.simps) (simp add: wake_read_def)
  then show ?thesis by (subst drain_wake.simps) (simp add: wake_read_def)
qed

text \<open>Calls that move no bytes over a connection.\<close>

fun control :: "net_trace \<Rightarrow> bool" where
  "control (Received f xs) = False"
| "control (Sent f xs) = False"
| "control _ = True"

definition controls :: "'u net \<Rightarrow> 'u net \<Rightarrow> bool" where
  "controls s s' \<longleftrightarrow> (\<exists>ys k. list_all control ys \<and> s' = s\<lparr>n_trace := n_trace s @ ys, n_calls := k\<rparr>)"

lemma controls_trans: "controls s s' \<Longrightarrow> controls s' s'' \<Longrightarrow> controls s s''"
  unfolding controls_def by (elim exE conjE, rule exI, rule exI, rule conjI [rotated], simp) simp

lemma epoll_ctl_frame: "controls s (snd (epoll_ctl K e op ev s))"
  unfolding controls_def
  by (intro exI [of _ "if sys_epoll_ctl K (n_calls s) = None then [Watch op e ev] else []"] exI [of _ "Suc (n_calls s)"])
     (simp add: epoll_ctl_def net_defs split: option.splits)

lemma setnonblock_frame: "\<exists>k. snd (setnonblock K f s) = s\<lparr>n_calls := k\<rparr>"
  by (auto simp: setnonblock_def net_defs)

lemma add_read_frame: "controls s (snd (add_read K e f s))"
  by (simp add: add_read_def add_read_common_def ctl_result_def epoll_ctl_frame)

lemma mod_read_frame: "controls s (snd (mod_read K e f s))"
  by (simp add: mod_read_def ctl_result_def epoll_ctl_frame)

lemma add_write_frame: "controls s (snd (add_write K e f s))"
proof -
  let ?r = "epoll_ctl K e EPOLL_CTL_ADD
      \<lparr>ev_EPOLLIN = False, ev_EPOLLOUT = True, ev_EPOLLEXCLUSIVE = False, ev_fd = f\<rparr> s"
  have "snd (add_write K e f s) = snd ?r \<or> snd (add_write K e f s) = snd (mod_read_write K e f (snd ?r))"
    by (auto simp: add_write_def split: prod.splits option.splits)
  moreover have "controls s (snd ?r)" by (rule epoll_ctl_frame)
  moreover have "controls (snd ?r) (snd (mod_read_write K e f (snd ?r)))"
    by (simp add: mod_read_write_def ctl_result_def epoll_ctl_frame)
  ultimately show ?thesis using controls_trans by metis
qed

lemma watch_frame: "controls s (snd ((if b then add_write else mod_read) K e f s))"
  by (cases b) (simp_all only: if_True if_False add_write_frame mod_read_frame)

lemma u32_small: "unat (x :: u32) < 18446744073709551616"
  by (rule order_less_trans [OF unsigned_less]) simp

lemma accept_new_ok:
  assumes "worker_ok s"
  shows "\<exists>ys k i. list_all control ys \<and>
    ts_accept_new K s = Some (s\<lparr>n_trace := n_trace s @ ys, n_calls := k, n_next_ctx_index := i\<rparr>)"
proof (cases "sys_accept K (n_calls s) <s 0")
  case True
  then show ?thesis
    by (intro exI [of _ "[]"] exI [of _ "Suc (n_calls s)"] exI [of _ "n_next_ctx_index s"])
       (simp add: ts_accept_new_def tick_def)
next
  case acc: False
  let ?f = "sys_accept K (n_calls s)"
  obtain r k where 1: "setnonblock K ?f (tick s) = (r, s\<lparr>n_calls := k\<rparr>)"
    using setnonblock_frame [of K ?f "tick s"] by (cases "setnonblock K ?f (tick s)") (auto simp: tick_def)
  show ?thesis
  proof (cases "r = 0")
    case False
    then show ?thesis
      using acc 1 by (intro exI [of _ "[Shut ?f]"] exI [of _ k] exI [of _ "n_next_ctx_index s"])
        (simp add: ts_accept_new_def net_defs)
  next
    case True
    let ?idx = "unat (n_next_ctx_index s mod ucast (ts_nthreads (n_ctx s)))"
    let ?s = "s\<lparr>n_calls := k, n_next_ctx_index := n_next_ctx_index s + 1\<rparr>"
    let ?e = "ts_ctxs_epfd (n_ctx s) ! ?idx"
    have nz: "0 < unat (ts_nthreads (n_ctx s))" using assms by (simp add: worker_ok_def unat_gt_0)
    have "unat (ucast (ts_nthreads (n_ctx s)) :: u64) = unat (ts_nthreads (n_ctx s))"
      using u32_small [of "ts_nthreads (n_ctx s)"] by (simp add: unat_ucast_mod)
    then have "?idx < length (ts_ctxs_epfd (n_ctx s))"
      using assms nz by (simp add: worker_ok_def unat_mod_distrib)
    moreover obtain q ys k' where "add_read K ?e ?f ?s = (q, ?s\<lparr>n_trace := n_trace s @ ys, n_calls := k'\<rparr>)" "list_all control ys"
      using add_read_frame [of ?s K ?e ?f] unfolding controls_def by (cases "add_read K ?e ?f ?s") auto
    ultimately show ?thesis
      using acc 1 True
      by (intro exI [of _ "if q < 0 then ys @ [Shut ?f] else ys"] exI [of _ k'] exI [of _ "n_next_ctx_index s + 1"])
         (simp add: ts_accept_new_def Let_def, simp add: net_defs)
  qed
qed

context net_handlers
begin

abbreviation served :: "'u net \<Rightarrow> bool" where
  "served \<equiv> serves process opened closed J"

lemma admit_enqueue:
  assumes "served s" "admitted F s" "n_conns s p = Some c" "nc_fd c \<notin> F"
    "length (waiting (n_ctx s)) < unat (ts_queuesize (n_ctx s))"
  shows "\<exists>s'. ts_enqueue p s = Some s' \<and> served s' \<and> admits (insert (nc_fd c) F) s s'"
proof -
  let ?s = "s\<lparr>n_ctx := enqueued c p (n_ctx s)\<rparr>"
  have m: "mset (waiting (n_ctx ?s)) = mset (p # waiting (n_ctx s))" by simp
  have "p \<notin> set (waiting (n_ctx s))" using assms(2-4) unfolding admitted_def by auto
  then have "distinct (waiting (n_ctx ?s))"
    using mset_eq_imp_distinct_iff [OF m] assms(2) by (simp add: admitted_def)
  moreover have st: "set (waiting (n_ctx ?s)) = insert p (set (waiting (n_ctx s)))"
    using mset_eq_setD [OF m] by simp
  ultimately have "admitted (insert (nc_fd c) F) ?s"
    using assms(2,3) by (auto simp: admitted_def)
  moreover have "length (waiting (n_ctx ?s)) = Suc (length (waiting (n_ctx s)))" using mset_eq_length [OF m] by simp
  moreover have "served ?s" by (rule serves_frame [OF assms(1)]) simp_all
  ultimately show ?thesis using enqueue_ok [OF assms(3,5)] by (simp add: admits_def)
qed

lemma admit_frame:
  assumes "served s" "admitted F s" "n_ctx s' = n_ctx s" "n_conns s' = n_conns s" "n_next s' = n_next s"
    "n_user s' = n_user s"
  shows "served s' \<and> admits (insert f F) s s'"
  using serves_frame [OF assms(1), of s'] assms by (auto simp: admits_def admitted_def)

lemma accept_event_ok:
  assumes s: "served s" "admitted F s" "get_event_fd ev \<notin> F"
    "length (waiting (n_ctx s)) < unat (ts_queuesize (n_ctx s))"
  shows "\<exists>s'. ts_accept_event K ev s = Some s' \<and> served s' \<and> admits (insert (get_event_fd ev) F) s s'"
proof -
  let ?f = "get_event_fd ev" and ?hm = "ts_hmap (n_ctx s)"
  have ok: "worker_ok s" using s(1) by (simp add: serves_def)
  then have inv: "hmap_inv ?hm" by (simp add: worker_ok_def)
  consider (wake) "?f = ts_wake_fd (n_ctx s)"
    | (known) p where "?f \<noteq> ts_wake_fd (n_ctx s)" "hmap_get_value ?hm ?f = Some p"
    | (listen) "?f \<noteq> ts_wake_fd (n_ctx s)" "hmap_get_value ?hm ?f = None" "?f = ts_listen_fd (n_ctx s)"
    | (new) "?f \<noteq> ts_wake_fd (n_ctx s)" "hmap_get_value ?hm ?f = None" "?f \<noteq> ts_listen_fd (n_ctx s)"
    by (cases "hmap_get_value ?hm ?f"; cases "?f = ts_wake_fd (n_ctx s)"; cases "?f = ts_listen_fd (n_ctx s)") blast+
  then show ?thesis
  proof cases
    case wake
    then show ?thesis
      using admit_frame [OF s(1,2), of "drain_wake s" ?f] by (simp add: ts_accept_event_def drain_wake_eq)
  next
    case known
    then have "hmap_abs ?hm ?f = Some p" using hmap_get_value_abs [OF inv] by simp
    then obtain c where "n_conns s p = Some c" "nc_fd c = ?f" using ok linkedD unfolding worker_ok_def by blast
    then show ?thesis using admit_enqueue [OF s(1,2), of p c] s(3,4) known by (simp add: ts_accept_event_def)
  next
    case listen
    obtain ys k i where "ts_accept_new K s = Some (s\<lparr>n_trace := n_trace s @ ys, n_calls := k, n_next_ctx_index := i\<rparr>)"
      using accept_new_ok [OF ok] by blast
    then show ?thesis
      using admit_frame [OF s(1,2), of "s\<lparr>n_trace := n_trace s @ ys, n_calls := k, n_next_ctx_index := i\<rparr>" ?f] listen
      by (simp add: ts_accept_event_def)
  next
    case new
    show ?thesis
    proof (cases "sys_malloc K (n_calls s)")
      case False
      then show ?thesis
        using new admit_frame [OF s(1,2), of "sys_close ?f (tick s)" ?f]
        by (simp add: ts_accept_event_def conn_new_def net_defs)
    next
      case True
      let ?p = "n_next s"
      define c0 where "c0 = \<lparr>nc_fd = ?f, nc_closed = False, nc_udata = None, nc_out = None, nc_outlen = 0, nc_outcap = 0,
          nc_outoff = 0, nc_bgctx = None, nc_ctx = ts_index (n_ctx s)\<rparr>"
      have c0: "nc_fd c0 = ?f" "out_ok c0" by (simp_all add: c0_def out_ok_def)
      define s2 where "s2 = s\<lparr>n_next := Suc ?p, n_conns := (n_conns s)(?p \<mapsto> c0), n_calls := n_calls s + 3,
          n_ctx := (n_ctx s)\<lparr>ts_hmap := snd (hmap_insert (sys_malloc K (n_calls s + 1)) (sys_malloc K (n_calls s + 2)) ?hm ?f ?p)\<rparr>\<rparr>"
      have abs: "hmap_abs ?hm ?f = None" using hmap_get_value_abs [OF inv] new(2) by simp
      have ok2: "worker_ok s2" 
        by (rule worker_ok_opening [OF ok abs c0, where k = "n_calls s + 3" and g = "sys_malloc K (n_calls s + 1)"
            and n = "sys_malloc K (n_calls s + 2)"]) (simp add: s2_def)
      have fresh: "n_conns s ?p = None" using ok by (simp add: worker_ok_def)
      have j: "J (n_conns s) (n_user s)" using s(1) by (simp add: serves_def)
      obtain c1 u1 where c1: "opened ?p c0 (n_user s) = Some (c1, u1)" "nc_fd c1 = ?f" "out_ok c1"
          "J ((n_conns s)(?p \<mapsto> c1)) u1"
        using opened_ok [OF j fresh c0(2)] c0(1) by metis
      define s3 where "s3 = set_conn ?p c1 (s2\<lparr>n_user := u1\<rparr>)"
      have "ts_accept_event K ev s = (call_opened ?p s2 \<bind> ts_enqueue ?p)"
        using new True
        by (simp add: ts_accept_event_def conn_new_def net_defs Let_def s2_def c0_def numeral_eq_Suc)
      also have "call_opened ?p s2 = Some s3"
        using c1(1) s(1) by (simp add: call_opened_def s2_def s3_def serves_def)
      finally have ev: "ts_accept_event K ev s = ts_enqueue ?p s3" by simp
      have "worker_ok (s2\<lparr>n_user := u1\<rparr>)" by (rule worker_ok_frame [OF ok2]) simp_all
      then have "worker_ok s3"
        unfolding s3_def using c0(1) c1(2,3) by (intro worker_ok_set_conn [of _ _ c0]) (simp_all add: s2_def)
      then have sv: "served s3" using s(1) c1(4) by (simp add: serves_def s3_def s2_def set_conn_def)
      have w: "waiting (n_ctx s3) = waiting (n_ctx s)" and q: "same_setup (n_ctx s) (n_ctx s3)"
        by (simp_all add: s3_def s2_def set_conn_def waiting_def same_setup_def)
      have e: "n_conns s3 = (n_conns s)(?p \<mapsto> c1)" "ins_que (n_ctx s3) = ins_que (n_ctx s)"
        "inspkts_que (n_ctx s3) = inspkts_que (n_ctx s)" "inspktlens_que (n_ctx s3) = inspktlens_que (n_ctx s)"
        by (simp_all add: s3_def s2_def set_conn_def)
      have "?p \<notin> set (waiting (n_ctx s))" using s(2) fresh by (auto simp: admitted_def)
      then have "admitted F s3" using s(2) by (auto simp: admitted_def w e)
      moreover have "n_conns s3 ?p = Some c1" by (simp add: s3_def set_conn_def)
      moreover have "length (waiting (n_ctx s3)) < unat (ts_queuesize (n_ctx s3))"
        using s(4) w q by (simp add: same_setup_def)
      ultimately obtain s' where "ts_enqueue ?p s3 = Some s'" "served s'" "admits (insert ?f F) s3 s'"
        using admit_enqueue [OF sv] c1(2) s(3) by metis
      then show ?thesis using ev w same_setup_trans [OF q] by (auto simp: admits_def)
    qed
  qed
qed

lemma accept_loop_ok:
  assumes "served s" "admitted F s" "distinct (map get_event_fd evs)" "get_event_fd ` set evs \<inter> F = {}"
    "length (waiting (n_ctx s)) + length evs \<le> unat (ts_queuesize (n_ctx s))"
  shows "\<exists>s' F'. ts_accept_loop K evs s = Some s' \<and> served s' \<and> admitted F' s' \<and>
    length (waiting (n_ctx s')) \<le> length (waiting (n_ctx s)) + length evs \<and> same_setup (n_ctx s) (n_ctx s')"
  using assms
proof (induction evs arbitrary: s F)
  case Nil
  then show ?case by auto
next
  case (Cons ev evs)
  let ?F = "insert (get_event_fd ev) F"
  obtain s1 where s1: "ts_accept_event K ev s = Some s1" "served s1" "admits ?F s s1"
    using accept_event_ok [OF Cons.prems(1,2), of ev K] Cons.prems(4,5) by auto
  have "admitted ?F s1" "length (waiting (n_ctx s1)) \<le> Suc (length (waiting (n_ctx s)))"
    "same_setup (n_ctx s) (n_ctx s1)" using s1(3) by (simp_all add: admits_def)
  moreover have "distinct (map get_event_fd evs)" "get_event_fd ` set evs \<inter> ?F = {}" using Cons.prems(3,4) by auto
  ultimately show ?case
    using Cons.IH [OF s1(2), of ?F] Cons.prems(5) s1(1) same_setup_trans by (fastforce simp: same_setup_def)
qed

lemma served_setup:
  assumes "served s" "same_setup (n_ctx s) ctx'" "ts_hmap ctx' = ts_hmap (n_ctx s)"
  shows "served (s\<lparr>n_ctx := ctx'\<rparr>)"
  by (rule serves_frame [OF assms(1)]) (simp_all add: assms)

lemma served_sys: "served s \<Longrightarrow> served (s\<lparr>n_trace := t, n_calls := k\<rparr>)"
  by (rule serves_frame) simp_all

lemma served_kept:
  assumes "served s" "n_conns s p = Some c" "conn_kept c c'" "out_ok c'"
  shows "served (set_conn p c' s)"
  using assms worker_ok_set_conn [of s p c c'] kept_ok [of "n_conns s" "n_user s" p c c']
  by (simp add: serves_def conn_kept_def set_conn_def)

end

section \<open>Reading and processing\<close>

definition pending :: "'u tscontext \<Rightarrow> conn_ptr list" where
  "pending c = ins_que c @ attachs_que c @ outs_que c @ closes_que c"

definition packets_ok :: "'u tscontext \<Rightarrow> bool" where
  "packets_ok c \<longleftrightarrow> length (inspkts_que c) = length (ins_que c) \<and> length (inspktlens_que c) = length (ins_que c)"

lemma handle_read_ok:
  assumes "packets_ok (n_ctx s)" "length (pending (n_ctx s)) < unat (ts_queuesize (n_ctx s))"
    "\<And>xs. r = Inr xs \<Longrightarrow> length xs < PACKETSIZE"
  shows "\<exists>ctx'. handle_read r i p s = Some (s\<lparr>n_ctx := ctx'\<rparr>) \<and> same_setup (n_ctx s) ctx' \<and>
    ts_hmap ctx' = ts_hmap (n_ctx s) \<and> mset (pending ctx') \<subseteq># add_mset p (mset (pending (n_ctx s))) \<and> packets_ok ctx'"
proof -
  let ?ctx = "n_ctx s"
  have lt: "length (closes_que ?ctx) < unat (ts_queuesize ?ctx)" "length (ins_que ?ctx) < unat (ts_queuesize ?ctx)"
    using assms(2) by (simp_all add: pending_def)
  have close: "push_closes p s = Some (s\<lparr>n_ctx := ?ctx\<lparr>closes_que := closes_que ?ctx @ [p]\<rparr>\<rparr>)"
    using lt by (simp add: push_closes_def push_que_ok)
  have goal_close: "\<exists>ctx'. push_closes p s = Some (s\<lparr>n_ctx := ctx'\<rparr>) \<and> same_setup (n_ctx s) ctx' \<and>
    ts_hmap ctx' = ts_hmap (n_ctx s) \<and> mset (pending ctx') \<subseteq># add_mset p (mset (pending (n_ctx s))) \<and> packets_ok ctx'"
    using close assms(1)
    by (intro exI [of _ "?ctx\<lparr>closes_que := closes_que ?ctx @ [p]\<rparr>"]) (simp add: same_setup_def pending_def packets_ok_def)
  show ?thesis
  proof (cases r)
    case (Inl e)
    have "\<exists>ctx'. Some s = Some (s\<lparr>n_ctx := ctx'\<rparr>) \<and> same_setup (n_ctx s) ctx' \<and>
      ts_hmap ctx' = ts_hmap (n_ctx s) \<and> mset (pending ctx') \<subseteq># add_mset p (mset (pending (n_ctx s))) \<and> packets_ok ctx'"
      using assms(1) by (intro exI [of _ ?ctx]) simp
    then show ?thesis using Inl goal_close by (simp add: handle_read_def)
  next
    case (Inr xs)
    let ?c = "?ctx\<lparr>inpkts := (inpkts ?ctx)(i := xs @ [0]), ins_que := ins_que ?ctx @ [p],
        inspkts_que := inspkts_que ?ctx @ [i], inspktlens_que := inspktlens_que ?ctx @ [length xs]\<rparr>"
    show ?thesis
    proof (cases "xs = []")
      case True
      then show ?thesis using Inr goal_close by (simp add: handle_read_def)
    next
      case False
      then have "handle_read r i p s = Some (s\<lparr>n_ctx := ?c\<rparr>)"
        using Inr assms(1,3) lt by (simp add: handle_read_def push_que_ok packets_ok_def Let_def)
      then show ?thesis
        using assms(1) by (intro exI [of _ ?c]) (simp add: same_setup_def pending_def packets_ok_def)
    qed
  qed
qed

context net_handlers
begin

lemma note_read_simps:
  "n_ctx (note_read f r s) = n_ctx s" "n_conns (note_read f r s) = n_conns s" "n_next (note_read f r s) = n_next s"
  "n_user (note_read f r s) = n_user s"
  by (simp_all add: note_read_def note_trace_def split: sum.splits)

lemma read_one_ok:
  assumes "served s" "parked (p # ps @ pending (n_ctx s)) s" "packets_ok (n_ctx s)"
    "Suc i \<le> unat (ts_queuesize (n_ctx s))"
  shows "\<exists>s'. ts_read_one K i p s = Some s' \<and> served s' \<and> same_setup (n_ctx s) (n_ctx s') \<and>
    parked (ps @ pending (n_ctx s')) s' \<and> packets_ok (n_ctx s')"
proof -
  obtain c where c: "n_conns s p = Some c" using assms(2) by (auto simp: parked_def)
  have "Suc i * PACKETSIZE \<le> unat (ts_queuesize (n_ctx s)) * PACKETSIZE"
    using assms(4) by (intro mult_le_mono1)
  also have "\<dots> \<le> inpkts_size (n_ctx s)" using assms(1) by (simp add: serves_def worker_ok_def)
  finally have room: "\<not> inpkts_size (n_ctx s) < Suc i * PACKETSIZE" by simp
  define r where "r = (case sys_read K (n_calls s) of Inl e \<Rightarrow> Inl e | Inr xs \<Rightarrow> Inr (take (PACKETSIZE - 1) xs))"
  have r: "r = Inr xs \<Longrightarrow> length xs < PACKETSIZE" for xs
    by (auto simp: r_def PACKETSIZE_def split: sum.splits)
  have "length (pending (n_ctx s)) < unat (ts_queuesize (n_ctx s))" using assms(2) by (simp add: parked_def)
  then obtain ctx' where h: "handle_read r i p (note_read (nc_fd c) r (tick s)) = Some ((note_read (nc_fd c) r (tick s))\<lparr>n_ctx := ctx'\<rparr>)" "same_setup (n_ctx s) ctx'"
      "ts_hmap ctx' = ts_hmap (n_ctx s)" "mset (pending ctx') \<subseteq># add_mset p (mset (pending (n_ctx s)))" "packets_ok ctx'"
    using handle_read_ok [of "note_read (nc_fd c) r (tick s)" r i p] assms(3) r by (auto simp: note_read_simps tick_def)
  let ?s = "(note_read (nc_fd c) r (tick s))\<lparr>n_ctx := ctx'\<rparr>"
  have "ts_read_one K i p s = Some ?s" using c room h(1) by (simp add: ts_read_one_def r_def)
  moreover have "served ?s" by (rule serves_frame [OF assms(1)]) (simp_all add: h tick_def note_read_simps)
  moreover have "parked (ps @ pending ctx') ?s"
    using h(2,4) by (intro parked_sub [OF assms(2)]) (simp_all add: same_setup_def tick_def note_read_simps)
  ultimately show ?thesis using h by auto
qed

lemma read_loop_ok:
  assumes "served s" "parked (ps @ pending (n_ctx s)) s" "packets_ok (n_ctx s)"
    "i + length ps \<le> unat (ts_queuesize (n_ctx s))"
  shows "\<exists>s'. ts_read_loop K i ps s = Some s' \<and> served s' \<and> same_setup (n_ctx s) (n_ctx s') \<and>
    parked (pending (n_ctx s')) s' \<and> packets_ok (n_ctx s')"
  using assms
proof (induction ps arbitrary: s i)
  case Nil
  then show ?case by simp
next
  case (Cons p ps)
  obtain s1 where s1: "ts_read_one K i p s = Some s1" "served s1" "same_setup (n_ctx s) (n_ctx s1)"
      "parked (ps @ pending (n_ctx s1)) s1" "packets_ok (n_ctx s1)"
    using read_one_ok [OF Cons.prems(1), of p ps i K] Cons.prems(2-4) by auto
  then show ?case
    using Cons.IH [OF s1(2,4,5), of "Suc i"] Cons.prems(4) same_setup_trans [OF s1(3)] by (auto simp: same_setup_def)
qed

end

definition leftover :: "'u tscontext \<Rightarrow> conn_ptr list" where
  "leftover c = attachs_que c @ outs_que c @ closes_que c"

text \<open>A connection a phase is done with goes to one of the queues or to none.\<close>

definition requeued :: "conn_ptr \<Rightarrow> 'u tscontext \<Rightarrow> 'u tscontext \<Rightarrow> bool" where
  "requeued p ctx ctx' \<longleftrightarrow>
     same_setup ctx ctx' \<and> ts_hmap ctx' = ts_hmap ctx \<and> mset (leftover ctx') \<subseteq># add_mset p (mset (leftover ctx))"

lemma push_closes_ok:
  assumes "length (leftover (n_ctx s)) < unat (ts_queuesize (n_ctx s))"
  shows "\<exists>ctx'. push_closes p s = Some (s\<lparr>n_ctx := ctx'\<rparr>) \<and> requeued p (n_ctx s) ctx'"
  using assms
  by (intro exI [of _ "(n_ctx s)\<lparr>closes_que := closes_que (n_ctx s) @ [p]\<rparr>"])
     (simp add: push_closes_def push_que_ok leftover_def requeued_def same_setup_def)

lemma push_outs_ok:
  assumes "length (leftover (n_ctx s)) < unat (ts_queuesize (n_ctx s))"
  shows "\<exists>ctx'. push_outs p s = Some (s\<lparr>n_ctx := ctx'\<rparr>) \<and> requeued p (n_ctx s) ctx'"
  using assms
  by (intro exI [of _ "(n_ctx s)\<lparr>outs_que := outs_que (n_ctx s) @ [p]\<rparr>"])
     (simp add: push_outs_def push_que_ok leftover_def requeued_def same_setup_def)

lemma keep_ok: "\<exists>ctx'. Some s = Some (s\<lparr>n_ctx := ctx'\<rparr>) \<and> requeued p (n_ctx s) ctx'"
  by (intro exI [of _ "n_ctx s"]) (simp add: requeued_def)

context net_handlers
begin

lemma process_one_ok:
  assumes "served s" "parked (p # ps @ leftover (n_ctx s)) s"
  shows "\<exists>s'. ts_process_one p pkt n s = Some s' \<and> served s' \<and> same_setup (n_ctx s) (n_ctx s') \<and>
    parked (ps @ leftover (n_ctx s')) s'"
proof -
  obtain c where c: "n_conns s p = Some c" using assms(2) by (auto simp: parked_def)
  have sv: "worker_ok s" "J (n_conns s) (n_user s)" "ts_process_fn (n_ctx s) = process" "ts_opened_fn (n_ctx s) = opened"
    "ts_closed_fn (n_ctx s) = closed" using assms(1) by (simp_all add: serves_def)
  have "out_ok c" using sv(1) c by (simp add: worker_ok_def)
  then obtain c1 u where c1: "process p c (take n (inpkts (n_ctx s) pkt)) (n_user s) = Some (c1, u)"
      "nc_fd c1 = nc_fd c" "out_ok c1" "J ((n_conns s)(p \<mapsto> c1)) u"
    using process_ok [OF sv(2) c] by blast
  define s1 where "s1 = set_conn p c1 (s\<lparr>n_user := u\<rparr>)"
  have "worker_ok (s\<lparr>n_user := u\<rparr>)" by (rule worker_ok_frame [OF sv(1)]) simp_all
  then have "worker_ok s1" unfolding s1_def using c c1(2,3) by (intro worker_ok_set_conn [of _ _ c]) simp_all
  then have s1: "served s1" using sv(3-5) c1(4) by (simp add: serves_def s1_def set_conn_def)
  have ctx: "n_ctx s1 = n_ctx s" by (simp add: s1_def set_conn_def)
  have "length (leftover (n_ctx s1)) < unat (ts_queuesize (n_ctx s1))" using assms(2) ctx by (simp add: parked_def)
  note push_outs_ok [OF this, of p] push_closes_ok [OF this, of p] keep_ok [of s1 p]
  moreover have "ts_process_one p pkt n s =
      (if nc_bgctx c1 \<noteq> None then Some s1 else if 0 < nc_outlen c1 then push_outs p s1
       else if nc_closed c1 then push_closes p s1 else Some s1)"
    using c c1(1) sv(3) by (simp add: ts_process_one_def s1_def)
  ultimately obtain ctx' where r: "ts_process_one p pkt n s = Some (s1\<lparr>n_ctx := ctx'\<rparr>)" "requeued p (n_ctx s1) ctx'"
    by metis
  have "served (s1\<lparr>n_ctx := ctx'\<rparr>)" using r(2) by (intro served_setup [OF s1]) (simp_all add: requeued_def)
  moreover have "parked (ps @ leftover ctx') (s1\<lparr>n_ctx := ctx'\<rparr>)"
    using r(2) c by (intro parked_sub [OF assms(2)]) (auto simp: requeued_def same_setup_def ctx s1_def set_conn_def)
  ultimately show ?thesis using r ctx by (auto simp: requeued_def)
qed

lemma process_loop_ok:
  assumes "served s" "parked (ps @ leftover (n_ctx s)) s" "length pkts = length ps" "length ns = length ps"
  shows "\<exists>s'. ts_process_loop ps pkts ns s = Some s' \<and> served s' \<and> same_setup (n_ctx s) (n_ctx s') \<and>
    parked (leftover (n_ctx s')) s'"
  using assms
proof (induction ps arbitrary: s pkts ns)
  case Nil
  then show ?case by simp
next
  case (Cons p ps)
  obtain pkt pkts' n ns' where eq: "pkts = pkt # pkts'" "ns = n # ns'"
    using Cons.prems(3,4) by (metis length_Suc_conv)
  obtain s1 where s1: "ts_process_one p pkt n s = Some s1" "served s1" "same_setup (n_ctx s) (n_ctx s1)"
      "parked (ps @ leftover (n_ctx s1)) s1"
    using process_one_ok [OF Cons.prems(1), of p ps pkt n] Cons.prems(2) by auto
  then show ?case
    using Cons.IH [OF s1(2,4), of pkts' ns'] Cons.prems(3,4) same_setup_trans [OF s1(3)] eq by auto
qed

section \<open>Writing and closing\<close>

lemma write_one_ok:
  assumes K: "write_progress K" and s: "served s" "parked (p # ps @ closes_que (n_ctx s)) s"
  shows "\<exists>s'. ts_write_one K p s = Some s' \<and> served s' \<and> same_setup (n_ctx s) (n_ctx s') \<and>
    parked (ps @ closes_que (n_ctx s')) s'"
proof -
  obtain c where c: "n_conns s p = Some c" using s(2) by (auto simp: parked_def)
  have "out_ok c" using s(1) c by (simp add: serves_def worker_ok_def)
  then obtain c' chunks k where f: "flush_conn K p s = Some (flushed p c c' chunks k s)" "out_ok c'" "conn_kept c c'"
    using flush_conn_ok [OF K c] by blast
  let ?s1 = "flushed p c c' chunks k s"
  have "served (set_conn p c' s)" by (rule served_kept [OF s(1) c f(3,2)])
  then have s1: "served ?s1" by (rule serves_frame) (simp_all add: flushed_def set_conn_def)
  have e1: "n_conns ?s1 p = Some c'" "n_ctx ?s1 = n_ctx s" "dom (n_conns ?s1) = dom (n_conns s)"
    using c by (auto simp: flushed_def)
  show ?thesis
  proof (cases "nc_closed c'")
    case True
    let ?ctx = "(n_ctx s)\<lparr>closes_que := closes_que (n_ctx s) @ [p]\<rparr>"
    have "length (closes_que (n_ctx s)) < unat (ts_queuesize (n_ctx s))" using s(2) by (simp add: parked_def)
    then have "ts_write_one K p s = Some (?s1\<lparr>n_ctx := ?ctx\<rparr>)"
      using f(1) e1 True by (simp add: ts_write_one_def push_closes_def push_que_ok)
    moreover have "served (?s1\<lparr>n_ctx := ?ctx\<rparr>)" using e1 by (intro served_setup [OF s1]) (simp_all add: same_setup_def)
    moreover have "parked (ps @ closes_que ?ctx) (?s1\<lparr>n_ctx := ?ctx\<rparr>)"
      using e1 by (intro parked_sub [OF s(2)]) simp_all
    ultimately show ?thesis by (auto simp: same_setup_def)
  next
    case False
    let ?w = "(if 0 < nc_outlen c' then add_write else mod_read) K (ts_epfd (n_ctx s)) (nc_fd c') ?s1"
    obtain r ys k where w: "?w = (r, ?s1\<lparr>n_trace := n_trace ?s1 @ ys, n_calls := k\<rparr>)"
      using watch_frame [of ?s1 "0 < nc_outlen c'" K "ts_epfd (n_ctx s)" "nc_fd c'"] unfolding controls_def by (cases ?w) fastforce
    let ?s2 = "?s1\<lparr>n_trace := n_trace ?s1 @ ys, n_calls := k\<rparr>"
    have sv2: "served ?s2" by (rule served_sys [OF s1])
    let ?s3 = "if r \<noteq> 0 then set_conn p (c'\<lparr>nc_closed := True\<rparr>) ?s2 else ?s2"
    have "ts_write_one K p s = Some ?s3"
      using f(1) e1(1,2) False w by (simp add: ts_write_one_def split: prod.splits)
    moreover have "served (set_conn p (c'\<lparr>nc_closed := True\<rparr>) ?s2)"
      using e1(1) f(2) by (intro served_kept [OF sv2, of p c']) (simp_all add: conn_kept_def)
    moreover have "parked (ps @ closes_que (n_ctx ?s3)) ?s3"
      using e1 c by (intro parked_sub [OF s(2)]) (auto simp: set_conn_def)
    ultimately show ?thesis using sv2 e1(2) by (auto simp: set_conn_def)
  qed
qed

lemma write_loop_ok:
  assumes "write_progress K" "served s" "parked (ps @ closes_que (n_ctx s)) s"
  shows "\<exists>s'. ts_write_loop K ps s = Some s' \<and> served s' \<and> same_setup (n_ctx s) (n_ctx s') \<and>
    parked (closes_que (n_ctx s')) s'"
  using assms(2,3)
proof (induction ps arbitrary: s)
  case Nil
  then show ?case by simp
next
  case (Cons p ps)
  obtain s1 where s1: "ts_write_one K p s = Some s1" "served s1" "same_setup (n_ctx s) (n_ctx s1)"
      "parked (ps @ closes_que (n_ctx s1)) s1"
    using write_one_ok [OF assms(1) Cons.prems(1), of p ps] Cons.prems(2) by auto
  then show ?case using Cons.IH [OF s1(2,4)] same_setup_trans [OF s1(3)] by auto
qed

lemma close_one_ok:
  assumes "served s" "n_conns s p = Some c"
  shows "\<exists>s'. ts_close_one p s = Some s' \<and> served s' \<and> same_setup (n_ctx s) (n_ctx s') \<and>
    n_conns s' = (n_conns s)(p := None) \<and> n_trace s' = n_trace s @ [Shut (nc_fd c)] \<and>
    closes_que (n_ctx s') = closes_que (n_ctx s)"
proof -
  have sv: "worker_ok s" "J (n_conns s) (n_user s)" "ts_process_fn (n_ctx s) = process" "ts_opened_fn (n_ctx s) = opened"
    "ts_closed_fn (n_ctx s) = closed" using assms(1) by (simp_all add: serves_def)
  obtain c1 u where c1: "closed p c (n_user s) = Some (c1, u)" "nc_fd c1 = nc_fd c" "J ((n_conns s)(p := None)) u"
    using closed_ok [OF sv(2) assms(2)] by blast
  let ?s = "s\<lparr>n_conns := (n_conns s)(p := None), n_user := u, n_trace := n_trace s @ [Shut (nc_fd c)],
      n_ctx := (n_ctx s)\<lparr>ts_hmap := snd (snd (hmap_delete (ts_hmap (n_ctx s)) (nc_fd c)))\<rparr>\<rparr>"
  have "ts_close_one p s = Some ?s"
    using assms(2) c1(1,2) sv(5) by (simp add: ts_close_one_def conn_free_def net_defs)
  moreover have "worker_ok ?s" by (rule worker_ok_closing [OF sv(1) assms(2)]) simp
  then have "served ?s" using sv(3-5) c1(3) by (simp add: serves_def)
  ultimately show ?thesis by (auto simp: same_setup_def)
qed

lemma close_loop_ok:
  assumes "served s" "distinct ps" "set ps \<subseteq> dom (n_conns s)"
  shows "\<exists>s'. ts_close_loop ps s = Some s' \<and> served s' \<and> same_setup (n_ctx s) (n_ctx s') \<and>
    n_conns s' = n_conns s |` (- set ps) \<and> closes_que (n_ctx s') = closes_que (n_ctx s) \<and>
    n_trace s' = n_trace s @ map (\<lambda>p. Shut (nc_fd (the (n_conns s p)))) ps"
  using assms
proof (induction ps arbitrary: s)
  case Nil
  then show ?case by simp
next
  case (Cons p ps)
  obtain c where c: "n_conns s p = Some c" using Cons.prems(3) by auto
  obtain s1 where s1: "ts_close_one p s = Some s1" "served s1" "same_setup (n_ctx s) (n_ctx s1)"
      "n_conns s1 = (n_conns s)(p := None)" "n_trace s1 = n_trace s @ [Shut (nc_fd c)]"
      "closes_que (n_ctx s1) = closes_que (n_ctx s)"
    using close_one_ok [OF Cons.prems(1) c] by blast
  have sub: "set ps \<subseteq> dom (n_conns s1)" using Cons.prems(2,3) s1(4) by auto
  obtain s' where s': "ts_close_loop ps s1 = Some s'" "served s'" "same_setup (n_ctx s1) (n_ctx s')"
      "n_conns s' = n_conns s1 |` (- set ps)" "closes_que (n_ctx s') = closes_que (n_ctx s1)"
      "n_trace s' = n_trace s1 @ map (\<lambda>p. Shut (nc_fd (the (n_conns s1 p)))) ps"
    using Cons.IH [OF s1(2) _ sub] Cons.prems(2) by auto
  have "map (\<lambda>p. Shut (nc_fd (the (n_conns s1 p)))) ps = map (\<lambda>p. Shut (nc_fd (the (n_conns s p)))) ps"
    using Cons.prems(2) s1(4) by (intro map_cong) auto
  moreover have "n_conns s' = n_conns s |` (- set (p # ps))"
    using s'(4) s1(4) by (auto simp: restrict_map_def fun_eq_iff)
  ultimately show ?case using s' s1 c same_setup_trans [OF s1(3)] by simp
qed

section \<open>A round and the loop\<close>

text \<open>The phases of a round, with what holds between them.\<close>

lemma round_phases:
  assumes K: "write_progress K" and s: "served s" and evs: "distinct (map ev_fd evs)" "length evs \<le> unat (ts_queuesize (n_ctx s))"
  obtains s0 F s1 s2 s3 s4 s5 where
    "s0 = ts_attach (ts_reset (s\<lparr>n_ctx := (n_ctx s)\<lparr>ts_events := evs\<rparr>\<rparr>))" "served s0"
    "ts_accept_loop K evs s0 = Some s1" "served s1" "admitted F s1" "same_setup (n_ctx s) (n_ctx s1)"
      "parked (pread_que (n_ctx s1) @ pending (n_ctx s1)) s1"
      "length (pread_que (n_ctx s1)) \<le> unat (ts_queuesize (n_ctx s1))"
    "ts_read K s1 = Some s2" "served s2" "same_setup (n_ctx s) (n_ctx s2)"
      "parked (ins_que (n_ctx s2) @ leftover (n_ctx s2)) s2" "packets_ok (n_ctx s2)"
    "ts_process s2 = Some s3" "served s3" "same_setup (n_ctx s) (n_ctx s3)"
      "parked (outs_que (n_ctx s3) @ closes_que (n_ctx s3)) s3"
    "ts_write K s3 = Some s4" "served s4" "same_setup (n_ctx s) (n_ctx s4)" "parked (closes_que (n_ctx s4)) s4"
    "ts_close s4 = Some s5" "served s5" "same_setup (n_ctx s) (n_ctx s5)"
      "n_conns s5 = n_conns s4 |` (- set (closes_que (n_ctx s4)))" "closes_que (n_ctx s5) = closes_que (n_ctx s4)"
    "ts_round K evs s = Some s5"
proof -
  let ?s0 = "ts_attach (ts_reset (s\<lparr>n_ctx := (n_ctx s)\<lparr>ts_events := evs\<rparr>\<rparr>))"
  have f: "map get_event_fd evs = map ev_fd evs" by (simp add: get_event_fd_def)
  have s0: "served ?s0" by (rule serves_frame [OF s]) (simp_all add: ts_attach_def ts_reset_def same_setup_def)
  have "admitted {} ?s0" "waiting (n_ctx ?s0) = []" "same_setup (n_ctx s) (n_ctx ?s0)"
    by (simp_all add: admitted_def waiting_def ts_attach_def ts_reset_def same_setup_def)
  then obtain s1 F where s1: "ts_accept_loop K evs ?s0 = Some s1" "served s1" "admitted F s1"
      "length (waiting (n_ctx s1)) \<le> length evs" "same_setup (n_ctx s) (n_ctx s1)"
    using accept_loop_ok [OF s0, of "{}" evs K] evs same_setup_trans unfolding f by (fastforce simp: same_setup_def)
  have park: "parked (waiting (n_ctx s1)) s1"
    using s1(3-5) evs(2) by (auto simp: parked_def admitted_def same_setup_def)
  have ins: "ins_que (n_ctx s1) = []" "packets_ok (n_ctx s1)" using s1(3) by (simp_all add: admitted_def packets_ok_def)
  have p1: "parked (pread_que (n_ctx s1) @ pending (n_ctx s1)) s1"
    using park ins by (simp add: waiting_def pending_def)
  moreover have l1: "length (pread_que (n_ctx s1)) \<le> unat (ts_queuesize (n_ctx s1))"
    using park by (simp add: parked_def waiting_def)
  ultimately obtain s2 where s2: "ts_read K s1 = Some s2" "served s2" "same_setup (n_ctx s1) (n_ctx s2)"
      "parked (pending (n_ctx s2)) s2" "packets_ok (n_ctx s2)"
    using read_loop_ok [OF s1(2) _ ins(2), of "pread_que (n_ctx s1)" 0 K] by (auto simp: ts_read_def)
  have p2: "parked (ins_que (n_ctx s2) @ leftover (n_ctx s2)) s2" using s2(4) by (simp add: pending_def leftover_def)
  then obtain s3 where s3: "ts_process s2 = Some s3" "served s3" "same_setup (n_ctx s2) (n_ctx s3)"
      "parked (leftover (n_ctx s3)) s3"
    using process_loop_ok [OF s2(2)] s2(5) unfolding ts_process_def packets_ok_def by blast
  have p3: "parked (outs_que (n_ctx s3) @ closes_que (n_ctx s3)) s3"
    by (rule parked_sub [OF s3(4)]) (simp_all add: leftover_def)
  then obtain s4 where s4: "ts_write K s3 = Some s4" "served s4" "same_setup (n_ctx s3) (n_ctx s4)"
      "parked (closes_que (n_ctx s4)) s4"
    using write_loop_ok [OF K s3(2)] unfolding ts_write_def by blast
  then obtain s5 where s5: "ts_close s4 = Some s5" "served s5" "same_setup (n_ctx s4) (n_ctx s5)"
      "n_conns s5 = n_conns s4 |` (- set (closes_que (n_ctx s4)))" "closes_que (n_ctx s5) = closes_que (n_ctx s4)"
    using close_loop_ok [OF s4(2), of "closes_que (n_ctx s4)"] by (auto simp: parked_def ts_close_def)
  have "ts_accept K ?s0 = Some s1" using s1(1) by (simp add: ts_accept_def ts_attach_def ts_reset_def)
  then have r: "ts_round K evs s = Some s5" using s2(1) s3(1) s4(1) s5(1) by (simp add: ts_round_def)
  have same: "same_setup (n_ctx s) (n_ctx s2)" "same_setup (n_ctx s) (n_ctx s3)" "same_setup (n_ctx s) (n_ctx s4)"
    "same_setup (n_ctx s) (n_ctx s5)"
    using s1(5) s2(3) s3(3) s4(3) s5(3) by (meson same_setup_trans)+
  show thesis
    by (rule that [OF refl s0 s1(1-3,5) p1 l1 s2(1,2) same(1) p2 s2(5) s3(1,2) same(2) p3 s4(1,2) same(3) s4(4)
          s5(1,2) same(4) s5(4,5) r])
qed

lemma round_ok:
  assumes "write_progress K" "served s" "distinct (map ev_fd evs)" "length evs \<le> unat (ts_queuesize (n_ctx s))"
  shows "\<exists>s'. ts_round K evs s = Some s' \<and> served s' \<and> same_setup (n_ctx s) (n_ctx s') \<and>
    distinct (closes_que (n_ctx s')) \<and> set (closes_que (n_ctx s')) \<inter> dom (n_conns s') = {}"
  using assms by (rule round_phases) (auto simp: parked_def)

lemma worker_run_ok:
  assumes "write_progress K" "served s" "\<forall>w \<in> set ws. \<forall>evs. w_events w = Inr evs \<longrightarrow> distinct (map ev_fd evs)"
  shows "\<exists>stopped s'. ts_worker_run K ws s = Some (stopped, s') \<and> served s' \<and>
    (stopped \<longleftrightarrow> (\<exists>w \<in> set ws. w_stopping w \<or> (\<exists>e. w_events w = Inl e \<and> e \<noteq> EINTR \<and> w_stopping_after w)))"
  using assms(2,3)
proof (induction ws arbitrary: s)
  case Nil
  then show ?case by (intro exI [of _ False] exI [of _ s]) simp
next
  case (Cons w ws)
  show ?case
  proof (cases "w_stopping w")
    case True
    then show ?thesis using Cons.prems(1) by (intro exI [of _ True] exI [of _ s]) simp
  next
    case go: False
    show ?thesis
    proof (cases "w_events w")
      case (Inl e)
      then show ?thesis using go Cons.IH [of s] Cons.prems by auto
    next
      case (Inr evs)
      let ?evs = "take (unat (ts_queuesize (n_ctx s))) evs"
      have "distinct (map ev_fd ?evs)"
        using Cons.prems(2) Inr distinct_take [of "map ev_fd evs"] by (simp add: take_map)
      then obtain s1 where "ts_round K ?evs s = Some s1" "served s1"
        using round_ok [OF assms(1) Cons.prems(1), of ?evs] by auto
      then show ?thesis using go Inr Cons.IH [of s1] Cons.prems(2) by auto
    qed
  qed
qed

end

section \<open>The echo callbacks keep the contract\<close>

text \<open>Every open connection owns a live \<^verbatim>\<open>struct Conn\<close> of its own; allocations of the \<^verbatim>\<open>opened\<close> callback succeed.\<close>

definition echo_inv :: "(conn_ptr \<rightharpoonup> net_conn) \<Rightarrow> ev_heap \<Rightarrow> bool" where
  "echo_inv m u \<longleftrightarrow>
     (\<forall>n. eh_malloc u n) \<and> (\<forall>q \<ge> eh_next u. eh_conns u q = None) \<and>
     (\<forall>p c. m p = Some c \<longrightarrow> (\<exists>q. nc_udata c = Some q \<and> eh_conns u q \<noteq> None)) \<and>
     (\<forall>p p' c c'. m p = Some c \<longrightarrow> m p' = Some c' \<longrightarrow> nc_udata c = nc_udata c' \<longrightarrow> p = p')"

lemma echo_udata: "echo_inv m u \<Longrightarrow> m p = Some c \<Longrightarrow> \<exists>q x. nc_udata c = Some q \<and> eh_conns u q = Some x"
  unfolding echo_inv_def by blast

lemma echo_inj: "echo_inv m u \<Longrightarrow> m p = Some c \<Longrightarrow> m p' = Some c' \<Longrightarrow> nc_udata c = nc_udata c' \<Longrightarrow> p = p'"
  unfolding echo_inv_def by blast

lemma echo_calls: "echo_inv m (u\<lparr>eh_calls := k\<rparr>) = echo_inv m u"
  unfolding echo_inv_def by (cases u) (simp only: ev_heap.simps)

lemma c_realloc_length: "c_realloc M p n = Some d \<Longrightarrow> length d = unat n"
  using c_realloc_Some [of M _ n d] length_c_malloc [of M n d] by (cases p) (auto simp: c_realloc_def [of M None])

lemma ev_opened_keeps:
  assumes "echo_inv m u" "m p = None" "out_ok c"
  shows "\<exists>c' u'. ev_opened p c u = Some (c', u') \<and> nc_fd c' = nc_fd c \<and> out_ok c' \<and> echo_inv (m(p \<mapsto> c')) u'"
proof -
  let ?q = "eh_next u"
  have fresh: "eh_conns u ?q = None" using assms(1) by (simp add: echo_inv_def)
  have old: "\<exists>q x. nc_udata d = Some q \<and> eh_conns u q = Some x \<and> q \<noteq> ?q" if "m p' = Some d" for p' d
    using echo_udata [OF assms(1) that] fresh by (metis option.distinct(1))
  let ?x = "\<lparr>cn_fd = 0, cn_packet = \<lparr>buf_data = None, buf_len = 0, buf_cap = 0\<rparr>, cn_conn5 = Some p\<rparr>"
  obtain c' u' where o: "ev_opened p c u = Some (c', u')" "c' = c\<lparr>nc_udata := Some ?q\<rparr>"
      "eh_conns u' = (eh_conns u)(?q \<mapsto> ?x)" "eh_next u' = Suc ?q" "eh_malloc u' = eh_malloc u"
    using assms(1) by (simp add: ev_opened_def net_conn_setudata_def echo_inv_def)
  have "echo_inv (m(p \<mapsto> c')) u'"
    unfolding echo_inv_def
  proof (intro conjI allI impI)
    show "eh_malloc u' n" for n using assms(1) o(5) by (simp add: echo_inv_def)
    show "eh_conns u' q = None" if "eh_next u' \<le> q" for q using assms(1) o(3,4) that by (auto simp: echo_inv_def)
    show "\<exists>q. nc_udata d = Some q \<and> eh_conns u' q \<noteq> None" if "(m(p \<mapsto> c')) p' = Some d" for p' d
      using that old [of p' d] o(2,3) by (auto split: if_splits)
    show "p' = p''" if "(m(p \<mapsto> c')) p' = Some d" "(m(p \<mapsto> c')) p'' = Some d'" "nc_udata d = nc_udata d'" for p' p'' d d'
      using that old [of p' d] old [of p'' d'] o(2) echo_inj [OF assms(1), of p' d p'' d'] by (auto split: if_splits)
  qed
  moreover have "out_ok c'" using assms(3) o(2) by (simp add: out_ok_def split: option.splits)
  ultimately show ?thesis using o(1,2) by simp
qed

lemma echo_kept:
  assumes "echo_inv m u" "m p = Some c" "nc_udata c' = nc_udata c"
  shows "echo_inv (m(p \<mapsto> c')) u"
  unfolding echo_inv_def
proof (intro conjI allI impI)
  show "eh_malloc u n" for n using assms(1) by (simp add: echo_inv_def)
  show "eh_conns u q = None" if "eh_next u \<le> q" for q using assms(1) that by (simp add: echo_inv_def)
  show "\<exists>q. nc_udata d = Some q \<and> eh_conns u q \<noteq> None" if "(m(p \<mapsto> c')) p' = Some d" for p' d
    using that echo_udata [OF assms(1), of p' d] echo_udata [OF assms(1,2)] assms(3) by (auto split: if_splits)
  show "p' = p''" if "(m(p \<mapsto> c')) p' = Some d" "(m(p \<mapsto> c')) p'' = Some d'" "nc_udata d = nc_udata d'" for p' p'' d d'
    using that echo_inj [OF assms(1), of p' "if p' = p then c else d" p'' "if p'' = p then c else d'"] assms(2,3)
    by (auto split: if_splits)
qed

lemma ev_process_keeps:
  assumes "echo_inv m u" "m p = Some c" "out_ok c"
  shows "\<exists>c' u'. ev_process p c pkt u = Some (c', u') \<and> nc_fd c' = nc_fd c \<and> out_ok c' \<and> echo_inv (m(p \<mapsto> c')) u'"
proof -
  let ?u = "u\<lparr>eh_calls := Suc (eh_calls u)\<rparr>"
  have u: "echo_inv (m(p \<mapsto> c')) ?u" if "nc_udata c' = nc_udata c" for c'
    using echo_kept [OF assms(1,2) that] by (simp only: echo_calls)
  show ?thesis
  proof (cases "c_realloc (eh_realloc u (eh_calls u)) (nc_out c) (of_nat (length ev_response))")
    case None
    then show ?thesis using assms(3) u [of "c\<lparr>nc_closed := True\<rparr>"] by (simp add: ev_process_def Let_def)
  next
    case (Some d)
    have "length d = 3" using c_realloc_length [OF Some] by (simp add: ev_response_def)
    then show ?thesis
      using Some u [of "c\<lparr>nc_out := Some (mem_write 0 ev_response d), nc_outlen := 3, nc_outcap := 3, nc_outoff := 0\<rparr>"]
      by (simp add: ev_process_def Let_def ev_response_def out_ok_def length_mem_write)
  qed
qed

lemma ev_closed_keeps:
  assumes "echo_inv m u" "m p = Some c"
  shows "\<exists>c' u'. ev_closed p c u = Some (c', u') \<and> nc_fd c' = nc_fd c \<and> echo_inv (m(p := None)) u'"
proof -
  obtain q x where q: "nc_udata c = Some q" "eh_conns u q = Some x" using echo_udata [OF assms] by blast
  let ?u = "u\<lparr>eh_conns := (eh_conns u)(q := None)\<rparr>"
  have "ev_closed p c u = Some (c, ?u)" using q by (simp add: ev_closed_def net_conn_udata_def)
  moreover have "echo_inv (m(p := None)) ?u"
    unfolding echo_inv_def
  proof (intro conjI allI impI)
    show "eh_malloc ?u n" for n using assms(1) by (simp add: echo_inv_def)
    show "eh_conns ?u r = None" if "eh_next ?u \<le> r" for r using assms(1) that by (simp add: echo_inv_def)
    show "\<exists>r. nc_udata d = Some r \<and> eh_conns ?u r \<noteq> None" if "(m(p := None)) p' = Some d" for p' d
    proof -
      have d: "p' \<noteq> p" "m p' = Some d" using that by (auto split: if_splits)
      obtain r y where r: "nc_udata d = Some r" "eh_conns u r = Some y" using echo_udata [OF assms(1) d(2)] by blast
      then have "r \<noteq> q" using echo_inj [OF assms(1) d(2) assms(2)] d(1) q(1) by auto
      then show ?thesis using r by simp
    qed
    show "p' = p''" if "(m(p := None)) p' = Some d" "(m(p := None)) p'' = Some d'" "nc_udata d = nc_udata d'" for p' p'' d d'
      using that echo_inj [OF assms(1), of p' d p'' d'] by (auto split: if_splits)
  qed
  ultimately show ?thesis by blast
qed

interpretation echo: net_handlers ev_process ev_opened ev_closed echo_inv
proof unfold_locales
  show "echo_inv m u \<Longrightarrow> m p = Some c \<Longrightarrow> conn_kept c c' \<Longrightarrow> echo_inv (m(p \<mapsto> c')) u" for m u p c c'
    by (rule echo_kept) (simp_all add: conn_kept_def)
qed (rule ev_opened_keeps ev_process_keeps ev_closed_keeps; assumption)+

text \<open>A worker in the calling thread is as safe as one in its own.\<close>

lemma add_read_serves:
  "serves process opened closed J s \<Longrightarrow> serves process opened closed J (snd (add_read K epfd f s))"
  by (auto simp: add_read_def add_read_common_def ctl_result_def epoll_ctl_def note_trace_def tick_def serves_def worker_ok_def
      split: option.splits)

lemma create_worker_serves:
  assumes "write_progress K" "serves ev_process ev_opened ev_closed echo_inv s"
    "\<forall>w \<in> set ws. \<forall>evs. w_events w = Inr evs \<longrightarrow> distinct (map ev_fd evs)"
  shows "\<exists>r stopped s'. create_worker K epfd ok_events ws i s = Some (r, stopped, s') \<and>
    serves ev_process ev_opened ev_closed echo_inv s' \<and> r = (if epfd <s 0 then -1 else epfd)"
proof -
  let ?s1 = "s\<lparr>n_ctx := (n_ctx s)\<lparr>ts_epfd := epfd, ts_index := i, ts_ctxs_epfd := (ts_ctxs_epfd (n_ctx s))[i := epfd]\<rparr>\<rparr>"
  have "serves ev_process ev_opened ev_closed echo_inv ?s1" using assms(2) by (simp add: serves_def worker_ok_def)
  then have "serves ev_process ev_opened ev_closed echo_inv (snd (add_read K epfd (ts_listen_fd (n_ctx ?s1)) ?s1))"
    by (rule add_read_serves)
  from this echo.worker_run_ok [OF assms(1) this assms(3)] show ?thesis
    using assms(2) by (auto simp: create_worker_def ts_worker_loop_def Let_def)
qed

section \<open>Properties\<close>

text \<open>A worker without connections, with room for two events.\<close>

definition idle_worker :: "ev_heap net" where
  "idle_worker =
     \<lparr>n_ctx = \<lparr>ts_epfd = 5, ts_wake_fd = 6, ts_index = 0, ts_listen_fd = 4, ts_queuesize = 2, ts_nthreads = 1, ts_events = [],
        pread_que = [], ins_que = [], attachs_que = [], outs_que = [], closes_que = [], inpkts = (\<lambda>i. []),
        inpkts_size = 32768, inspkts_que = [], inspktlens_que = [], ts_process_fn = ev_process, ts_opened_fn = ev_opened,
        ts_closed_fn = ev_closed, ts_ctxs_epfd = [5], ts_hmap = hmap_init_int True 8\<rparr>,
      n_conns = Map.empty, n_next = 0,
      n_user = \<lparr>eh_conns = Map.empty, eh_next = 0, eh_malloc = (\<lambda>n. True),
        eh_realloc = (\<lambda>n. \<lparr>alloc_ok = True, alloc_junk = (\<lambda>i. 0), alloc_addr = 0\<rparr>), eh_calls = 0\<rparr>,
      n_next_ctx_index = 0, n_wake = 0, n_trace = [], n_calls = 0\<rparr>"

text \<open>A kernel that serves every call, one byte per write.\<close>

definition slow_kernel :: kernel where
  "slow_kernel =
     \<lparr>sys_fcntl = (\<lambda>n. True), sys_accept = (\<lambda>n. 9), sys_epoll_ctl = (\<lambda>n. None), sys_read = (\<lambda>n. Inr [104, 105]),
      sys_write = (\<lambda>n. Inr 1), sys_malloc = (\<lambda>n. True)\<rparr>"

definition readable :: "fd \<Rightarrow> event_t" where
  "readable f = \<lparr>ev_EPOLLIN = True, ev_EPOLLOUT = False, ev_EPOLLEXCLUSIVE = False, ev_fd = f\<rparr>"

lemma slow_kernel_progress: "write_progress slow_kernel"
  by (auto simp: write_progress_def slow_kernel_def)

lemma idle_worker_serves: "serves ev_process ev_opened ev_closed echo_inv idle_worker"
proof -
  have "hmap_inv (hmap_init_int True 8 :: (u32, conn_ptr) hmap)"
    "hmap_abs (hmap_init_int True 8 :: (u32, conn_ptr) hmap) = Map.empty"
    using hmap_init_int_ok by blast+
  then show ?thesis by (simp add: serves_def worker_ok_def idle_worker_def linked_def PACKETSIZE_def echo_inv_def)
qed

text \<open>
  C7. A worker with the callbacks of the server never goes wrong, whatever the kernel answers, whatever the allocator refuses to the
  server, and however many rounds it runs: it never writes past one of its queues or past the packet buffer,
  never uses or frees a freed connection, every round ends, and the invariant of the worker
  holds after every round. The thread returns exactly when it meets the stop flag at the
  head of the loop or after a failed wait. (The kernel reports a descriptor once per wait, and does not interrupt
  \<^verbatim>\<open>write\<close> for ever.)
\<close>

theorem worker_loop_safe:
  assumes "write_progress K" "serves ev_process ev_opened ev_closed echo_inv s"
    "\<forall>w \<in> set ws. \<forall>evs. w_events w = Inr evs \<longrightarrow> distinct (map ev_fd evs)"
  shows "\<exists>stopped s'. ts_worker_loop K True ws s = Some (stopped, s') \<and>
    serves ev_process ev_opened ev_closed echo_inv s' \<and>
    (stopped \<longleftrightarrow> (\<exists>w \<in> set ws. w_stopping w \<or> (\<exists>e. w_events w = Inl e \<and> e \<noteq> EINTR \<and> w_stopping_after w)))"
  using echo.worker_run_ok [OF assms] by (simp add: ts_worker_loop_def)

theorem worker_loop_safe_witness:
  "\<exists>s'. ts_worker_loop slow_kernel True
      [\<lparr>w_stopping = False, w_events = Inr [readable 9, readable 4], w_stopping_after = False\<rparr>,
       \<lparr>w_stopping = False, w_events = Inl EINTR, w_stopping_after = False\<rparr>,
       \<lparr>w_stopping = True, w_events = Inr [], w_stopping_after = False\<rparr>] idle_worker = Some (True, s') \<and>
    serves ev_process ev_opened ev_closed echo_inv s'"
  using worker_loop_safe [OF slow_kernel_progress idle_worker_serves, of
      "[\<lparr>w_stopping = False, w_events = Inr [readable 9, readable 4], w_stopping_after = False\<rparr>,
        \<lparr>w_stopping = False, w_events = Inl EINTR, w_stopping_after = False\<rparr>,
        \<lparr>w_stopping = True, w_events = Inr [], w_stopping_after = False\<rparr>]"]
  by (auto simp: readable_def)

text \<open>
  C21. In a round every connection is closed at most once: the close queue has no entry twice, each of its
  connections is freed and its address is no longer in the map of descriptors, and the map still leads
  from a descriptor only to a live connection of that descriptor.
\<close>

theorem round_closes_once:
  assumes "write_progress K" "serves ev_process ev_opened ev_closed echo_inv s" "distinct (map ev_fd evs)"
    "length evs \<le> unat (ts_queuesize (n_ctx s))"
  shows "\<exists>s'. ts_round K evs s = Some s' \<and> distinct (closes_que (n_ctx s')) \<and>
    (\<forall>p \<in> set (closes_que (n_ctx s')). n_conns s' p = None) \<and>
    (\<forall>f p. hmap_get_value (ts_hmap (n_ctx s')) f = Some p \<longrightarrow>
       p \<notin> set (closes_que (n_ctx s')) \<and> map_option nc_fd (n_conns s' p) = Some f)"
proof -
  obtain s' where s': "ts_round K evs s = Some s'" "serves ev_process ev_opened ev_closed echo_inv s'"
      "distinct (closes_que (n_ctx s'))" "set (closes_que (n_ctx s')) \<inter> dom (n_conns s') = {}"
    using echo.round_ok [OF assms] by blast
  have freed: "\<forall>p \<in> set (closes_que (n_ctx s')). n_conns s' p = None" using s'(4) by (simp add: disjoint_iff domIff)
  have "hmap_inv (ts_hmap (n_ctx s'))" "linked (hmap_abs (ts_hmap (n_ctx s'))) (n_conns s')"
    using s'(2) by (simp_all add: serves_def worker_ok_def)
  then have "\<forall>f p. hmap_get_value (ts_hmap (n_ctx s')) f = Some p \<longrightarrow> map_option nc_fd (n_conns s' p) = Some f"
    by (simp add: hmap_get_value_abs linked_def)
  moreover from this have "\<forall>f p. hmap_get_value (ts_hmap (n_ctx s')) f = Some p \<longrightarrow> p \<notin> set (closes_que (n_ctx s'))"
    using freed by (metis option.distinct(1) option.map_disc_iff)
  ultimately show ?thesis using s'(1,3) freed by blast
qed

theorem round_closes_once_witness:
  "\<exists>s'. ts_round (slow_kernel\<lparr>sys_read := (\<lambda>n. Inr [])\<rparr>) [readable 9] idle_worker = Some s' \<and>
     distinct (closes_que (n_ctx s')) \<and> (\<forall>p \<in> set (closes_que (n_ctx s')). n_conns s' p = None)"
proof -
  have "write_progress (slow_kernel\<lparr>sys_read := (\<lambda>n. Inr [])\<rparr>)" by (auto simp: write_progress_def slow_kernel_def)
  then show ?thesis
    using round_closes_once [OF _ idle_worker_serves, of "slow_kernel\<lparr>sys_read := (\<lambda>n. Inr [])\<rparr>" "[readable 9]"]
    by (auto simp: idle_worker_def readable_def)
qed

text \<open>
  C20. Flushing a connection returns, sends a prefix of its unsent output in order and without gaps, in
  as many pieces as the kernel takes, keeps exactly the rest as unsent, and changes nothing else of the
  worker; an emptied output buffer means that everything was sent.
\<close>

theorem flush_conn_in_order:
  assumes "write_progress K" "n_conns s p = Some c" "out_ok c"
  shows "\<exists>s' c' chunks k. flush_conn K p s = Some s' \<and> n_conns s' = (n_conns s)(p \<mapsto> c') \<and>
    n_trace s' = n_trace s @ map (Sent (nc_fd c)) chunks \<and> unsent c = concat chunks @ unsent c' \<and> out_ok c' \<and>
    (nc_outlen c' = 0 \<longrightarrow> concat chunks = unsent c) \<and>
    s' = s\<lparr>n_conns := n_conns s', n_trace := n_trace s', n_calls := k\<rparr>"
proof -
  obtain c' chunks k where f: "flush_conn K p s = Some (flushed p c c' chunks k s)" "out_ok c'"
      "unsent c = concat chunks @ unsent c'" "nc_outlen c' = 0 \<longrightarrow> unsent c' = []"
    using flush_conn_ok [OF assms] by blast
  then show ?thesis
    by (intro exI [of _ "flushed p c c' chunks k s"] exI [of _ c'] exI [of _ chunks] exI [of _ k])
       (auto simp: flushed_def)
qed

theorem flush_conn_in_order_witness:
  "\<exists>s' c' chunks. flush_conn slow_kernel 0
      (set_conn 0 \<lparr>nc_fd = 9, nc_closed = False, nc_udata = None, nc_out = Some [79, 107, 10], nc_outlen = 3, nc_outcap = 3,
         nc_outoff = 1, nc_bgctx = None, nc_ctx = 0\<rparr> idle_worker) = Some s' \<and> n_conns s' 0 = Some c' \<and>
     n_trace s' = map (Sent 9) chunks \<and> [107, 10] = concat chunks @ unsent c'"
proof -
  let ?c = "\<lparr>nc_fd = 9, nc_closed = False, nc_udata = None, nc_out = Some [79, 107, 10], nc_outlen = 3, nc_outcap = 3,
      nc_outoff = 1, nc_bgctx = None, nc_ctx = 0\<rparr>"
  have ok: "out_ok ?c" and u: "unsent ?c = [107, 10]" by (simp_all add: out_ok_def unsent_def)
  have c: "n_conns (set_conn 0 ?c idle_worker) 0 = Some ?c" "n_trace (set_conn 0 ?c idle_worker) = []"
    by (simp_all add: set_conn_def idle_worker_def)
  obtain s' c' chunks k where "flush_conn slow_kernel 0 (set_conn 0 ?c idle_worker) = Some s'"
      "n_conns s' = (n_conns (set_conn 0 ?c idle_worker))(0 \<mapsto> c')"
      "n_trace s' = n_trace (set_conn 0 ?c idle_worker) @ map (Sent (nc_fd ?c)) chunks" "unsent ?c = concat chunks @ unsent c'"
    using flush_conn_in_order [OF slow_kernel_progress c(1) ok] by blast
  then show ?thesis using c(2) u by (intro exI [of _ s'] exI [of _ c'] exI [of _ chunks]) simp
qed

end
