(* ===== verification/NetOutput.thy ===== *)
theory NetOutput
  imports NetRound
begin

text \<open>
  What a worker sends on a connection, over any number of rounds: exactly the replies of the process callback to the
  packets that were read, in order, nothing lost and nothing doubled. The contract \<open>net_replies\<close> adds to that of the
  callbacks what they answer to a packet.
\<close>

section \<open>What went over a connection\<close>

fun sent_by :: "fd \<Rightarrow> net_trace \<Rightarrow> bytes" where
  "sent_by f (Sent g xs) = (if g = f then xs else [])"
| "sent_by f _ = []"

fun received_by :: "fd \<Rightarrow> net_trace \<Rightarrow> bytes list" where
  "received_by f (Received g xs) = (if g = f then [xs] else [])"
| "received_by f _ = []"

definition sent_on :: "fd \<Rightarrow> net_trace list \<Rightarrow> bytes" where
  "sent_on f t = concat (map (sent_by f) t)"

definition received_on :: "fd \<Rightarrow> net_trace list \<Rightarrow> bytes list" where
  "received_on f t = concat (map (received_by f) t)"

lemma on_append [simp]:
  "sent_on f (t @ t') = sent_on f t @ sent_on f t'" "received_on f (t @ t') = received_on f t @ received_on f t'"
  by (simp_all add: sent_on_def received_on_def)

lemma on_single [simp]:
  "sent_on f [e] = sent_by f e" "received_on f [e] = received_by f e" "sent_on f [] = []" "received_on f [] = []"
  by (simp_all add: sent_on_def received_on_def)

lemma on_Cons [simp]:
  "sent_on f (e # t) = sent_by f e @ sent_on f t" "received_on f (e # t) = received_by f e @ received_on f t"
  by (simp_all add: sent_on_def received_on_def)

lemma on_control: "list_all control t \<Longrightarrow> sent_on f t = [] \<and> received_on f t = []"
proof (induction t)
  case (Cons e t)
  then show ?case by (cases e) simp_all
qed simp

lemma on_chunks:
  "sent_on f (map (Sent g) chunks) = (if g = f then concat chunks else [])" "received_on f (map (Sent g) chunks) = []"
  by (induction chunks) simp_all

text \<open>The packets of a connection among the first entries of the queues of packets.\<close>

definition packets_of :: "conn_ptr \<Rightarrow> (nat \<Rightarrow> bytes) \<Rightarrow> conn_ptr list \<Rightarrow> nat list \<Rightarrow> nat list \<Rightarrow> bytes list" where
  "packets_of p inp ps pkts ns = map (\<lambda>(q, pkt, n). take n (inp pkt)) (filter (\<lambda>(q, pkt, n). q = p) (zip ps (zip pkts ns)))"

lemma packets_of_Nil [simp]: "packets_of p inp [] pkts ns = []"
  by (simp add: packets_of_def)

lemma packets_of_Cons [simp]:
  "packets_of p inp (q # ps) (pkt # pkts) (n # ns) =
     (if q = p then [take n (inp pkt)] else []) @ packets_of p inp ps pkts ns"
  by (simp add: packets_of_def)

lemma packets_of_absent: "p \<notin> set ps \<Longrightarrow> packets_of p inp ps pkts ns = []"
  by (auto simp: packets_of_def filter_empty_conv dest: set_zip_leftD)

lemma packets_of_snoc:
  assumes "length pkts = length ps" "length ns = length ps" "\<forall>pkt \<in> set pkts. pkt \<noteq> i"
  shows "packets_of p (inp(i := xs @ [0])) (ps @ [q]) (pkts @ [i]) (ns @ [length xs]) =
    packets_of p inp ps pkts ns @ (if q = p then [xs] else [])"
proof -
  have "map (\<lambda>(q, pkt, n). take n ((inp(i := xs @ [0])) pkt)) (filter (\<lambda>(q, pkt, n). q = p) (zip ps (zip pkts ns))) =
      packets_of p inp ps pkts ns"
    unfolding packets_of_def
  proof (rule map_cong [OF refl])
    fix x assume "x \<in> set (filter (\<lambda>(q, pkt, n). q = p) (zip ps (zip pkts ns)))"
    moreover obtain q pkt n where x: "x = (q, pkt, n)" by (cases x)
    ultimately have "(pkt, n) \<in> set (zip pkts ns)" by (auto dest: set_zip_rightD)
    then have "pkt \<in> set pkts" by (rule set_zip_leftD)
    then show "(\<lambda>(q, pkt, n). take n ((inp(i := xs @ [0])) pkt)) x = (\<lambda>(q, pkt, n). take n (inp pkt)) x"
      using assms(3) x by simp
  qed
  then show ?thesis using assms(1,2) by (simp add: packets_of_def)
qed

section \<open>The balance of a connection\<close>

text \<open>
  \<open>t0\<close> is the trace at some earlier moment and \<open>base\<close> the output pending then; \<open>Q\<close> are queue entries of the current round,
  \<open>R\<close> those of connections that are read and processed, \<open>xs\<close> the packets read but not yet processed.
\<close>

definition apart :: "conn_ptr \<Rightarrow> fd \<Rightarrow> conn_ptr list \<Rightarrow> (conn_ptr \<rightharpoonup> net_conn) \<Rightarrow> bool" where
  "apart p f Q conns \<longleftrightarrow> (\<forall>q \<in> set Q. q \<noteq> p \<longrightarrow> (\<forall>d. conns q = Some d \<longrightarrow> nc_fd d \<noteq> f))"

lemma apart_mono: "apart p f Q conns \<Longrightarrow> set Q' \<subseteq> set Q \<Longrightarrow> apart p f Q' conns"
  by (auto simp: apart_def)

lemma apart_update:
  "apart p f Q conns \<Longrightarrow> conns q = Some c \<Longrightarrow> nc_fd c' = nc_fd c \<Longrightarrow> apart p f Q (conns(q \<mapsto> c'))"
  by (auto simp: apart_def)

definition owed ::
  "(bytes \<Rightarrow> bytes) \<Rightarrow> conn_ptr \<Rightarrow> fd \<Rightarrow> bytes \<Rightarrow> conn_ptr list \<Rightarrow> conn_ptr list \<Rightarrow> bytes list \<Rightarrow> net_trace list \<Rightarrow> 'u net \<Rightarrow> bool"
where
  "owed reply p f base Q R xs t s \<longleftrightarrow>
     (\<forall>c. n_conns s p = Some c \<longrightarrow>
        hmap_abs (ts_hmap (n_ctx s)) f = Some p \<and> nc_fd c = f \<and>
        apart p f Q (n_conns s) \<and> (p \<in> set R \<longrightarrow> nc_outlen c = 0) \<and>
        (\<not> nc_closed c \<longrightarrow> sent_on f t @ unsent c @ concat (map reply xs) = base @ concat (map reply (received_on f t))))"

definition owes ::
  "(bytes \<Rightarrow> bytes) \<Rightarrow> conn_ptr \<Rightarrow> fd \<Rightarrow> net_trace list \<Rightarrow> bytes \<Rightarrow> conn_ptr list \<Rightarrow> conn_ptr list \<Rightarrow> bytes list \<Rightarrow> 'u net \<Rightarrow> bool"
where
  "owes reply p f t0 base Q R xs s \<longleftrightarrow>
     p < n_next s \<and> (\<exists>t. n_trace s = t0 @ t \<and> owed reply p f base Q R xs t s)"

lemma owes_frame:
  assumes "owes reply p f t0 base Q R xs s" "n_conns s' = n_conns s" "n_next s' = n_next s"
    "ts_hmap (n_ctx s') = ts_hmap (n_ctx s)" "n_trace s' = n_trace s @ ys" "list_all control ys"
    "set Q' \<subseteq> set Q" "set R' \<subseteq> set R"
  shows "owes reply p f t0 base Q' R' xs s'"
proof -
  obtain t where t: "p < n_next s" "n_trace s = t0 @ t" "owed reply p f base Q R xs t s"
    using assms(1) unfolding owes_def by blast
  have "owed reply p f base Q' R' xs (t @ ys) s'"
    using t(3) assms(2,4,7,8) on_control [OF assms(6), of f] apart_mono [OF _ assms(7)] unfolding owed_def by auto
  then show ?thesis using t(1,2) assms(3,5) unfolding owes_def by auto
qed


lemma append_tail: "a @ b @ x = c @ y \<Longrightarrow> a @ b @ x @ r = c @ y @ r"
  by (metis append.assoc)

lemma owes_split:
  assumes "owes reply p f t0 base Q R xs s"
    and "n_next s \<le> n_next s'" "n_trace s' = n_trace s @ ys"
    and "\<And>t. owed reply p f base Q R xs t s \<Longrightarrow> owed reply p f base Q' R' xs' (t @ ys) s'"
  shows "owes reply p f t0 base Q' R' xs' s'"
proof -
  obtain t where "p < n_next s" "n_trace s = t0 @ t" "owed reply p f base Q R xs t s"
    using assms(1) unfolding owes_def by blast
  then show ?thesis using assms(2-4) unfolding owes_def by auto
qed

section \<open>Queue operations\<close>

lemma enqueueD:
  assumes "ts_enqueue q s = Some s'"
  obtains c where "n_conns s q = Some c" "s' = s\<lparr>n_ctx := enqueued c q (n_ctx s)\<rparr>"
  using assms
  by (auto simp: ts_enqueue_def push_pread_def push_attachs_def push_outs_def push_closes_def push_que_def enqueued_def
      split: option.splits if_splits)

lemma set_waiting_enqueued [simp]: "set (waiting (enqueued c q ctx)) = insert q (set (waiting ctx))"
  by (auto simp: enqueued_def waiting_def)

text \<open>A connection is read when it has nothing to send.\<close>

lemma owes_enqueue:
  assumes "owes reply p f t0 base (waiting (n_ctx s)) (pread_que (n_ctx s)) [] s" "ts_enqueue q s = Some s'"
    "\<And>c d. n_conns s p = Some c \<Longrightarrow> q \<noteq> p \<Longrightarrow> n_conns s q = Some d \<Longrightarrow> nc_fd d \<noteq> f"
  shows "owes reply p f t0 base (waiting (n_ctx s')) (pread_que (n_ctx s')) [] s'"
proof -
  obtain c where c: "n_conns s q = Some c" "s' = s\<lparr>n_ctx := enqueued c q (n_ctx s)\<rparr>"
    using assms(2) by (rule enqueueD)
  show ?thesis
  proof (rule owes_split [OF assms(1), of _ "[]"])
    fix t
    assume o: "owed reply p f base (waiting (n_ctx s)) (pread_que (n_ctx s)) [] t s"
    have "apart p f (waiting (enqueued c q (n_ctx s))) (n_conns s)" if "n_conns s p = Some d" for d
      using that o assms(3) unfolding owed_def apart_def by auto
    moreover have "nc_outlen d = 0" if "p \<in> set (pread_que (enqueued c q (n_ctx s)))" "n_conns s p = Some d" for d
      using that o c(1) unfolding owed_def by (auto simp: enqueued_def simp flip: word_neq_0_conv split: if_splits)
    ultimately show "owed reply p f base (waiting (n_ctx s')) (pread_que (n_ctx s')) [] (t @ []) s'"
      using o c(2) unfolding owed_def by simp
  qed (simp_all add: c(2))
qed

text \<open>An entry moved to a queue that is written or closed.\<close>

definition moved :: "conn_ptr \<Rightarrow> 'u tscontext \<Rightarrow> 'u tscontext \<Rightarrow> bool" where
  "moved q ctx ctx' \<longleftrightarrow>
     ts_hmap ctx' = ts_hmap ctx \<and> inpkts ctx' = inpkts ctx \<and> set (leftover ctx') \<subseteq> insert q (set (leftover ctx)) \<and>
     ins_que ctx' = ins_que ctx \<and> inspkts_que ctx' = inspkts_que ctx \<and> inspktlens_que ctx' = inspktlens_que ctx"

lemma moved_refl [simp]: "moved q ctx ctx"
  by (auto simp: moved_def)

lemma push_closesD: "push_closes q s = Some s' \<Longrightarrow> \<exists>ctx'. s' = s\<lparr>n_ctx := ctx'\<rparr> \<and> moved q (n_ctx s) ctx' \<and>
    closes_que ctx' = closes_que (n_ctx s) @ [q]"
  by (intro exI [of _ "n_ctx s'"]) (auto simp: push_closes_def push_que_def moved_def leftover_def split: if_splits)

lemma push_outsD: "push_outs q s = Some s' \<Longrightarrow> \<exists>ctx'. s' = s\<lparr>n_ctx := ctx'\<rparr> \<and> moved q (n_ctx s) ctx'"
  by (intro exI [of _ "n_ctx s'"]) (auto simp: push_outs_def push_que_def moved_def leftover_def split: if_splits)

section \<open>Reading\<close>

lemma handle_readD:
  assumes "handle_read r i q s = Some s'"
  obtains (kept) ctx' where "s' = s\<lparr>n_ctx := ctx'\<rparr>" "moved q (n_ctx s) ctx'" "\<And>xs. r = Inr xs \<Longrightarrow> xs = []"
  | (packet) xs where "r = Inr xs" "xs \<noteq> []" "length xs < PACKETSIZE"
    "s' = s\<lparr>n_ctx := (n_ctx s)\<lparr>inpkts := (inpkts (n_ctx s))(i := xs @ [0]), ins_que := ins_que (n_ctx s) @ [q],
       inspkts_que := inspkts_que (n_ctx s) @ [i], inspktlens_que := inspktlens_que (n_ctx s) @ [length xs]\<rparr>\<rparr>"
proof (cases r)
  case (Inl e)
  then have "s' = s \<or> push_closes q s = Some s'" using assms by (auto simp: handle_read_def split: if_splits)
  then have "\<exists>ctx'. s' = s\<lparr>n_ctx := ctx'\<rparr> \<and> moved q (n_ctx s) ctx'"
  proof
    assume "s' = s"
    then show ?thesis by (intro exI [of _ "n_ctx s"]) simp
  qed (use push_closesD in blast)
  then show ?thesis using kept Inl by auto
next
  case (Inr xs)
  show ?thesis
  proof (cases "xs = []")
    case True
    then have "push_closes q s = Some s'" using assms Inr by (simp add: handle_read_def)
    then show ?thesis using kept push_closesD True Inr by blast
  next
    case False
    then show ?thesis
      using assms Inr packet [of xs] by (auto simp: handle_read_def Let_def push_que_def split: if_splits)
  qed
qed

abbreviation packets_due :: "conn_ptr \<Rightarrow> 'u tscontext \<Rightarrow> bytes list" where
  "packets_due p ctx \<equiv> packets_of p (inpkts ctx) (ins_que ctx) (inspkts_que ctx) (inspktlens_que ctx)"

text \<open>Packets are in slots of smaller numbers and fit a slot.\<close>

definition slots_ok :: "nat \<Rightarrow> 'u tscontext \<Rightarrow> bool" where
  "slots_ok i ctx \<longleftrightarrow> (\<forall>pkt \<in> set (inspkts_que ctx). pkt < i) \<and> (\<forall>n \<in> set (inspktlens_que ctx). n < PACKETSIZE)"

lemma pending_moved: "moved q ctx ctx' \<Longrightarrow> set (pending ctx') \<subseteq> insert q (set (pending ctx))"
  by (auto simp: moved_def pending_def leftover_def)


section \<open>The contract of the replies\<close>

text \<open>
  A callback that gets a packet with nothing left to send leaves exactly its reply to be sent, unless it marks the
  connection closed; it never takes such a mark away.
\<close>

locale net_replies = net_handlers process opened closed J
  for process :: "'u on_data" and opened closed :: "'u on_conn" and J :: "(conn_ptr \<rightharpoonup> net_conn) \<Rightarrow> 'u \<Rightarrow> bool" +
  fixes reply :: "bytes \<Rightarrow> bytes"
  assumes reply_ok: "process p c pkt u = Some (c', u') \<Longrightarrow> length pkt < PACKETSIZE \<Longrightarrow> nc_outlen c = 0 \<Longrightarrow> \<not> nc_closed c' \<Longrightarrow>
      \<not> nc_closed c \<and> unsent c' = reply pkt"

context net_replies
begin

lemma opening_owes:
  assumes s: "served s" "owes reply p f t0 base (waiting (n_ctx s)) (pread_que (n_ctx s)) [] s"
    and g: "hmap_abs (ts_hmap (n_ctx s)) g = None"
    and hm: "hmap_abs hm = hmap_abs (ts_hmap (n_ctx s)) \<or> hmap_abs hm = (hmap_abs (ts_hmap (n_ctx s)))(g \<mapsto> n_next s)"
    and s3: "n_ctx s3 = (n_ctx s)\<lparr>ts_hmap := hm\<rparr>" "n_conns s3 = (n_conns s)(n_next s \<mapsto> c1)" "nc_fd c1 = g"
      "n_next s3 = Suc (n_next s)" "n_trace s3 = n_trace s" "ts_enqueue (n_next s) s3 = Some s'"
  shows "owes reply p f t0 base (waiting (n_ctx s')) (pread_que (n_ctx s')) [] s'"
proof (rule owes_enqueue [OF _ s3(6)])
  have p: "p < n_next s" using s(2) by (simp add: owes_def)
  have fg: "f \<noteq> g" if "n_conns s p = Some c" for c
    using that s(2) g unfolding owes_def owed_def by auto
  have w: "waiting (n_ctx s3) = waiting (n_ctx s)" "pread_que (n_ctx s3) = pread_que (n_ctx s)"
    using s3(1) by (simp_all add: waiting_def)
  show "owes reply p f t0 base (waiting (n_ctx s3)) (pread_que (n_ctx s3)) [] s3"
  proof (rule owes_split [OF s(2), of _ "[]"])
    fix t
    assume o: "owed reply p f base (waiting (n_ctx s)) (pread_que (n_ctx s)) [] t s"
    have "apart p f (waiting (n_ctx s)) (n_conns s3)" if "n_conns s p = Some c" for c
      using that o fg s3(2,3) unfolding owed_def apart_def by auto
    moreover have "hmap_abs hm f = Some p" if "n_conns s p = Some c" for c
      using that o fg [OF that] hm unfolding owed_def by auto
    ultimately show "owed reply p f base (waiting (n_ctx s3)) (pread_que (n_ctx s3)) [] (t @ []) s3"
      using o p s3(1,2) unfolding owed_def w by auto
  qed (use s3 in simp_all)
  show "nc_fd d \<noteq> f" if "n_conns s3 p = Some c" "n_next s \<noteq> p" "n_conns s3 (n_next s) = Some d" for c d
    using that fg s3(2,3) by auto
qed

lemma accept_event_owes:
  assumes s: "served s" "owes reply p f t0 base (waiting (n_ctx s)) (pread_que (n_ctx s)) [] s"
    and ev: "ts_accept_event K ev s = Some s'"
  shows "owes reply p f t0 base (waiting (n_ctx s')) (pread_que (n_ctx s')) [] s'"
proof -
  let ?f = "get_event_fd ev" and ?hm = "ts_hmap (n_ctx s)"
  have ok: "worker_ok s" "J (n_conns s) (n_user s)" "ts_opened_fn (n_ctx s) = opened" using s(1) by (simp_all add: serves_def)
  then have inv: "hmap_inv ?hm" "linked (hmap_abs ?hm) (n_conns s)" by (simp_all add: worker_ok_def)
  note frame = owes_frame [OF s(2)]
  consider (wake) "?f = ts_wake_fd (n_ctx s)"
    | (known) q where "?f \<noteq> ts_wake_fd (n_ctx s)" "hmap_get_value ?hm ?f = Some q"
    | (listen) "?f \<noteq> ts_wake_fd (n_ctx s)" "hmap_get_value ?hm ?f = None" "?f = ts_listen_fd (n_ctx s)"
    | (new) "?f \<noteq> ts_wake_fd (n_ctx s)" "hmap_get_value ?hm ?f = None" "?f \<noteq> ts_listen_fd (n_ctx s)"
    by (cases "hmap_get_value ?hm ?f"; cases "?f = ts_wake_fd (n_ctx s)"; cases "?f = ts_listen_fd (n_ctx s)") blast+
  then show ?thesis
  proof cases
    case wake
    then have "s' = s\<lparr>n_wake := 0\<rparr>" using ev by (simp add: ts_accept_event_def drain_wake_eq)
    then show ?thesis by (intro frame [of _ "[]"]) simp_all
  next
    case known
    then have q: "hmap_abs ?hm ?f = Some q" using hmap_get_value_abs [OF inv(1)] by simp
    have "nc_fd d \<noteq> f" if "n_conns s p = Some c" "q \<noteq> p" "n_conns s q = Some d" for c d
      using that q s(2) linkedD [OF inv(2) q] unfolding owes_def owed_def by auto
    moreover have "ts_enqueue q s = Some s'" using known ev by (simp add: ts_accept_event_def)
    ultimately show ?thesis by (intro owes_enqueue [OF s(2)])
  next
    case listen
    obtain ys k i where ys: "list_all control ys"
        "ts_accept_new K s = Some (s\<lparr>n_trace := n_trace s @ ys, n_calls := k, n_next_ctx_index := i\<rparr>)"
      using accept_new_ok [OF ok(1)] by blast
    then have "s' = s\<lparr>n_trace := n_trace s @ ys, n_calls := k, n_next_ctx_index := i\<rparr>"
      using listen ev by (simp add: ts_accept_event_def)
    then show ?thesis using ys(1) by (intro frame [of _ ys]) simp_all
  next
    case new
    show ?thesis
    proof (cases "sys_malloc K (n_calls s)")
      case False
      then have "s' = sys_close ?f (tick s)" using new ev by (simp add: ts_accept_event_def conn_new_def)
      then show ?thesis by (intro frame [of _ "[Shut ?f]"]) (simp_all add: net_defs)
    next
      case True
      define c0 where "c0 = \<lparr>nc_fd = ?f, nc_closed = False, nc_udata = None, nc_out = None, nc_outlen = 0, nc_outcap = 0,
          nc_outoff = 0, nc_bgctx = None, nc_ctx = ts_index (n_ctx s)\<rparr>"
      have c0: "nc_fd c0 = ?f" "out_ok c0" by (simp_all add: c0_def out_ok_def)
      obtain r hm where hm: "hmap_insert (sys_malloc K (n_calls s + 1)) (sys_malloc K (n_calls s + 2)) ?hm ?f (n_next s) = (r, hm)"
        by fastforce
      have g: "hmap_abs ?hm ?f = None" using hmap_get_value_abs [OF inv(1)] new(2) by simp
      have abs: "hmap_abs hm = hmap_abs ?hm \<or> hmap_abs hm = (hmap_abs ?hm)(?f \<mapsto> n_next s)"
        using hmap_insert_ok [OF inv(1) int_map_room [OF inv(1)], where ok_grow = "sys_malloc K (n_calls s + 1)"
            and ok_node = "sys_malloc K (n_calls s + 2)" and k = ?f and v = "n_next s"] hm by (auto split: option.splits)
      have fresh: "n_conns s (n_next s) = None" using ok(1) by (simp add: worker_ok_def)
      obtain c1 u1 where c1: "opened (n_next s) c0 (n_user s) = Some (c1, u1)" "nc_fd c1 = ?f"
        using opened_ok [OF ok(2) fresh c0(2)] c0(1) by metis
      let ?s3 = "s\<lparr>n_next := Suc (n_next s), n_calls := n_calls s + 3, n_ctx := (n_ctx s)\<lparr>ts_hmap := hm\<rparr>,
          n_user := u1, n_conns := (n_conns s)(n_next s \<mapsto> c1)\<rparr>"
      have "ts_enqueue (n_next s) ?s3 = Some s'"
        using ev new True c1(1) hm ok(3)
        by (simp add: ts_accept_event_def conn_new_def net_defs Let_def call_opened_def c0_def numeral_eq_Suc)
      then show ?thesis by (intro opening_owes [OF s g abs, of ?s3 c1]) (simp_all add: c1(2))
    qed
  qed
qed

lemma accept_loop_owes:
  assumes "served s" "admitted F s" "distinct (map get_event_fd evs)" "get_event_fd ` set evs \<inter> F = {}"
    "length (waiting (n_ctx s)) + length evs \<le> unat (ts_queuesize (n_ctx s))"
    "owes reply p f t0 base (waiting (n_ctx s)) (pread_que (n_ctx s)) [] s" "ts_accept_loop K evs s = Some s'"
  shows "owes reply p f t0 base (waiting (n_ctx s')) (pread_que (n_ctx s')) [] s'"
  using assms
proof (induction evs arbitrary: s F)
  case (Cons ev evs)
  let ?F = "insert (get_event_fd ev) F"
  obtain s1 where s1: "ts_accept_event K ev s = Some s1" "served s1" "admits ?F s s1"
    using accept_event_ok [OF Cons.prems(1,2), of ev K] Cons.prems(4,5) by auto
  have "admitted ?F s1" "length (waiting (n_ctx s1)) \<le> Suc (length (waiting (n_ctx s)))"
    "same_setup (n_ctx s) (n_ctx s1)" using s1(3) by (simp_all add: admits_def)
  moreover have "distinct (map get_event_fd evs)" "get_event_fd ` set evs \<inter> ?F = {}" using Cons.prems(3,4) by auto
  moreover have "owes reply p f t0 base (waiting (n_ctx s1)) (pread_que (n_ctx s1)) [] s1"
    by (rule accept_event_owes [OF Cons.prems(1,6) s1(1)])
  ultimately show ?case using Cons.IH [OF s1(2), of ?F] Cons.prems(5,7) s1(1) by (auto simp: same_setup_def)
qed simp

lemma read_one_owes:
  assumes o: "owes reply p f t0 base (q # ps @ pending (n_ctx s)) (q # ps @ ins_que (n_ctx s)) (packets_due p (n_ctx s)) s"
    and "packets_ok (n_ctx s)" "slots_ok i (n_ctx s)" "ts_read_one K i q s = Some s'"
  shows "owes reply p f t0 base (ps @ pending (n_ctx s')) (ps @ ins_que (n_ctx s')) (packets_due p (n_ctx s')) s' \<and>
    slots_ok (Suc i) (n_ctx s')"
proof -
  define r where "r = (case sys_read K (n_calls s) of Inl e \<Rightarrow> Inl e | Inr xs \<Rightarrow> Inr (take (PACKETSIZE - 1) xs))"
  obtain c where c: "n_conns s q = Some c" "handle_read r i q (note_read (nc_fd c) r (tick s)) = Some s'"
    using assms(4) by (auto simp: ts_read_one_def r_def Let_def split: option.splits if_splits)
  let ?s = "note_read (nc_fd c) r (tick s)"
  have ctx: "n_ctx ?s = n_ctx s" by (simp add: note_read_simps tick_def)
  consider (kept) ctx' where "s' = ?s\<lparr>n_ctx := ctx'\<rparr>" "moved q (n_ctx ?s) ctx'" "\<And>xs. r = Inr xs \<Longrightarrow> xs = []"
    | (packet) xs where "r = Inr xs" "xs \<noteq> []" "length xs < PACKETSIZE"
        "s' = ?s\<lparr>n_ctx := (n_ctx ?s)\<lparr>inpkts := (inpkts (n_ctx ?s))(i := xs @ [0]), ins_que := ins_que (n_ctx ?s) @ [q],
           inspkts_que := inspkts_que (n_ctx ?s) @ [i], inspktlens_que := inspktlens_que (n_ctx ?s) @ [length xs]\<rparr>\<rparr>"
    using handle_readD [OF c(2)] by metis
  then show ?thesis
  proof cases
    case (kept ctx')
    have tr: "n_trace ?s = n_trace s" using kept(3) by (simp add: note_read_def tick_def split: sum.splits)
    have m: "moved q (n_ctx s) ctx'" using kept(2) ctx by simp
    have sub: "set (ps @ pending ctx') \<subseteq> set (q # ps @ pending (n_ctx s))" using pending_moved [OF m] by auto
    have "owes reply p f t0 base (ps @ pending ctx') (ps @ ins_que ctx') (packets_due p ctx') s'"
    proof (rule owes_split [OF o, of _ "[]"])
      fix t
      assume "owed reply p f base (q # ps @ pending (n_ctx s)) (q # ps @ ins_que (n_ctx s)) (packets_due p (n_ctx s)) t s"
      then show "owed reply p f base (ps @ pending ctx') (ps @ ins_que ctx') (packets_due p ctx') (t @ []) s'"
        using apart_mono [OF _ sub] kept(1) m unfolding owed_def by (simp add: moved_def note_read_simps tick_def)
    qed (use kept(1) tr in \<open>simp_all add: note_read_simps tick_def\<close>)
    then show ?thesis using kept(1) m assms(3) by (auto simp: moved_def slots_ok_def)
  next
    case (packet xs)
    have tr: "n_trace s' = n_trace s @ [Received (nc_fd c) xs]" and cn: "n_conns s' = n_conns s" "n_next s' = n_next s"
      using packet by (simp_all add: note_read_def note_trace_def tick_def)
    have same: "ts_hmap (n_ctx s') = ts_hmap (n_ctx s)" "ins_que (n_ctx s') = ins_que (n_ctx s) @ [q]"
      "set (pending (n_ctx s')) = insert q (set (pending (n_ctx s)))"
      using packet(4) ctx by (auto simp: pending_def)
    define due where "due = packets_due p (n_ctx s')"
    have due: "due = packets_due p (n_ctx s) @ (if q = p then [xs] else [])"
      using packets_of_snoc [of "inspkts_que (n_ctx s)" "ins_que (n_ctx s)" "inspktlens_que (n_ctx s)" i p "inpkts (n_ctx s)" xs q]
        assms(2,3) packet(4) ctx by (force simp: packets_ok_def due_def slots_ok_def)
    have "owes reply p f t0 base (ps @ pending (n_ctx s')) (ps @ ins_que (n_ctx s')) due s'"
    proof (rule owes_split [OF o, of _ "[Received (nc_fd c) xs]"])
      fix t
      assume ow: "owed reply p f base (q # ps @ pending (n_ctx s)) (q # ps @ ins_que (n_ctx s)) (packets_due p (n_ctx s)) t s"
      have fd: "nc_fd c = f \<longleftrightarrow> q = p" if "n_conns s p = Some d" for d
        using ow that c(1) unfolding owed_def apart_def by auto
      have "apart p f (ps @ pending (n_ctx s')) (n_conns s)" if "apart p f (q # ps @ pending (n_ctx s)) (n_conns s)"
        using that same(3) by (auto simp: apart_def)
      with ow fd show "owed reply p f base (ps @ pending (n_ctx s')) (ps @ ins_que (n_ctx s')) due
          (t @ [Received (nc_fd c) xs]) s'"
        unfolding owed_def due same(1,2) cn by (auto simp: append_tail)
    qed (simp_all add: tr cn)
    moreover have "slots_ok (Suc i) (n_ctx s')" using assms(3) packet(3,4) ctx by (auto simp: slots_ok_def)
    ultimately show ?thesis by (simp add: due_def)
  qed
qed

lemma read_loop_owes:
  assumes "served s" "parked (ps @ pending (n_ctx s)) s" "packets_ok (n_ctx s)"
    "i + length ps \<le> unat (ts_queuesize (n_ctx s))"
    "owes reply p f t0 base (ps @ pending (n_ctx s)) (ps @ ins_que (n_ctx s)) (packets_due p (n_ctx s)) s"
    "slots_ok i (n_ctx s)" "ts_read_loop K i ps s = Some s'"
  shows "owes reply p f t0 base (pending (n_ctx s')) (ins_que (n_ctx s')) (packets_due p (n_ctx s')) s' \<and>
    (\<forall>n \<in> set (inspktlens_que (n_ctx s')). n < PACKETSIZE)"
  using assms
proof (induction ps arbitrary: s i)
  case (Cons q ps)
  obtain s1 where s1: "ts_read_one K i q s = Some s1" "served s1" "same_setup (n_ctx s) (n_ctx s1)"
      "parked (ps @ pending (n_ctx s1)) s1" "packets_ok (n_ctx s1)"
    using read_one_ok [OF Cons.prems(1), of q ps i K] Cons.prems(2-4) by auto
  have "owes reply p f t0 base (q # ps @ pending (n_ctx s)) (q # ps @ ins_que (n_ctx s)) (packets_due p (n_ctx s)) s"
    using Cons.prems(5) by simp
  note read_one_owes [OF this Cons.prems(3,6) s1(1)]
  then show ?case using Cons.IH [OF s1(2,4,5), of "Suc i"] Cons.prems(4,7) s1(1,3) by (auto simp: same_setup_def)
qed (simp add: slots_ok_def)

lemma process_one_owes:
  assumes s: "served s" and q: "q \<notin> set ps" "n < PACKETSIZE"
    and o: "owes reply p f t0 base (q # ps @ leftover (n_ctx s)) (q # ps)
      (packets_of p (inpkts (n_ctx s)) (q # ps) (pkt # pkts) (n # ns)) s"
    and one: "ts_process_one q pkt n s = Some s'"
  shows "owes reply p f t0 base (ps @ leftover (n_ctx s')) ps (packets_of p (inpkts (n_ctx s')) ps pkts ns) s' \<and>
    inpkts (n_ctx s') = inpkts (n_ctx s)"
proof -
  have sv: "worker_ok s" "J (n_conns s) (n_user s)" "ts_process_fn (n_ctx s) = process" using s by (simp_all add: serves_def)
  let ?x = "take n (inpkts (n_ctx s) pkt)"
  obtain c where c: "n_conns s q = Some c" using one by (cases "n_conns s q") (simp_all add: ts_process_one_def)
  have "out_ok c" using sv(1) c by (simp add: worker_ok_def)
  then obtain c1 u where c1: "process q c ?x (n_user s) = Some (c1, u)" "nc_fd c1 = nc_fd c"
    using process_ok [OF sv(2) c] by blast
  let ?s1 = "set_conn q c1 (s\<lparr>n_user := u\<rparr>)"
  have "(if nc_bgctx c1 \<noteq> None then Some ?s1 else if 0 < nc_outlen c1 then push_outs q ?s1
       else if nc_closed c1 then push_closes q ?s1 else Some ?s1) = Some s'"
    using one c c1(1) sv(3) by (simp add: ts_process_one_def Let_def)
  then have "s' = ?s1 \<or> push_outs q ?s1 = Some s' \<or> push_closes q ?s1 = Some s'" by (auto split: if_splits)
  then have "\<exists>ctx'. s' = ?s1\<lparr>n_ctx := ctx'\<rparr> \<and> moved q (n_ctx ?s1) ctx'"
  proof (elim disjE)
    assume "s' = ?s1"
    then show ?thesis by (intro exI [of _ "n_ctx ?s1"]) simp
  qed (use push_outsD push_closesD in blast)+
  then obtain ctx' where s': "s' = ?s1\<lparr>n_ctx := ctx'\<rparr>" "moved q (n_ctx s) ctx'" by (auto simp: set_conn_def)
  have cn: "n_conns s' = (n_conns s)(q \<mapsto> c1)" "n_trace s' = n_trace s @ []" "n_next s \<le> n_next s'" "ts_hmap (n_ctx s') = ts_hmap (n_ctx s)"
    using s' by (simp_all add: set_conn_def moved_def)
  define rest where "rest = packets_of p (inpkts (n_ctx s)) ps pkts ns"
  have sub: "set (ps @ leftover ctx') \<subseteq> set (q # ps @ leftover (n_ctx s))" using s'(2) by (auto simp: moved_def)
  have "owes reply p f t0 base (ps @ leftover ctx') ps rest s'"
  proof (rule owes_split [OF o cn(3,2)])
    fix t
    assume ow: "owed reply p f base (q # ps @ leftover (n_ctx s)) (q # ps)
      (packets_of p (inpkts (n_ctx s)) (q # ps) (pkt # pkts) (n # ns)) t s"
    have ap: "apart p f (ps @ leftover ctx') (n_conns s')" if "n_conns s p = Some d" for d
      unfolding cn(1)
      by (rule apart_update [OF apart_mono [OF _ sub], of _ _ _ q c]) (use that ow c c1(2) in \<open>simp_all add: owed_def\<close>)
    show "owed reply p f base (ps @ leftover ctx') ps rest (t @ []) s'"
    proof (cases "q = p")
      case True
      then have "rest = []" using q(1) by (simp add: rest_def packets_of_absent)
      moreover have "nc_outlen c = 0" "unsent c = []" using ow c True unfolding owed_def by (auto simp: unsent_def split: option.splits)
      then have "\<not> nc_closed c1 \<Longrightarrow> \<not> nc_closed c \<and> unsent c1 = reply ?x" using q(2) by (intro reply_ok [OF c1(1)]) simp_all
      ultimately show ?thesis using ow ap c True c1(2) q(1) \<open>unsent c = []\<close> cn(1,4) unfolding owed_def rest_def by auto
    next
      case False
      then show ?thesis using ow ap cn(1,4) unfolding owed_def rest_def by auto
    qed
  qed
  moreover have "inpkts ctx' = inpkts (n_ctx s)" using s'(2) by (simp add: moved_def)
  ultimately show ?thesis using s'(1) by (simp add: rest_def)
qed

lemma process_loop_owes:
  assumes "served s" "parked (ps @ leftover (n_ctx s)) s" "length pkts = length ps" "length ns = length ps"
    "\<forall>n \<in> set ns. n < PACKETSIZE" "owes reply p f t0 base (ps @ leftover (n_ctx s)) ps (packets_of p (inpkts (n_ctx s)) ps pkts ns) s"
    "ts_process_loop ps pkts ns s = Some s'"
  shows "owes reply p f t0 base (leftover (n_ctx s')) [] [] s'"
  using assms
proof (induction ps arbitrary: s pkts ns)
  case (Cons q ps)
  obtain pkt pkts' n ns' where eq: "pkts = pkt # pkts'" "ns = n # ns'" "length pkts' = length ps" "length ns' = length ps"
    using Cons.prems(3,4) by (metis length_Suc_conv)
  obtain s1 where s1: "ts_process_one q pkt n s = Some s1" "served s1" "parked (ps @ leftover (n_ctx s1)) s1"
    using process_one_ok [OF Cons.prems(1), of q ps pkt n] Cons.prems(2) by auto
  have "q \<notin> set ps" using Cons.prems(2) by (simp add: parked_def)
  moreover have "n < PACKETSIZE" "\<forall>n \<in> set ns'. n < PACKETSIZE" using Cons.prems(5) eq by simp_all
  moreover have "owes reply p f t0 base (q # ps @ leftover (n_ctx s)) (q # ps)
      (packets_of p (inpkts (n_ctx s)) (q # ps) (pkt # pkts') (n # ns')) s" using Cons.prems(6) eq by simp
  ultimately have "owes reply p f t0 base (ps @ leftover (n_ctx s1)) ps (packets_of p (inpkts (n_ctx s1)) ps pkts' ns') s1"
    using process_one_owes [OF Cons.prems(1) _ _ _ s1(1)] by blast
  then show ?case using Cons.IH [OF s1(2,3) eq(3,4)] Cons.prems(5,7) eq(1,2) s1(1) by simp
qed simp

lemma write_one_owes:
  assumes K: "write_progress K" and s: "served s" "owes reply p f t0 base (q # ps @ closes_que (n_ctx s)) [] [] s"
    and one: "ts_write_one K q s = Some s'"
  shows "owes reply p f t0 base (ps @ closes_que (n_ctx s')) [] [] s'"
proof -
  obtain c where c: "n_conns s q = Some c"
    using one by (cases "n_conns s q") (simp_all add: ts_write_one_def flush_conn.simps)
  have "out_ok c" using s(1) c by (simp add: serves_def worker_ok_def)
  then obtain c' chunks k where f: "flush_conn K q s = Some (flushed q c c' chunks k s)" "conn_kept c c'"
      "unsent c = concat chunks @ unsent c'"
    using flush_conn_ok [OF K c] by blast
  let ?s1 = "flushed q c c' chunks k s"
  have e1: "n_conns ?s1 = (n_conns s)(q \<mapsto> c')" "n_ctx ?s1 = n_ctx s" "n_trace ?s1 = n_trace s @ map (Sent (nc_fd c)) chunks"
    "n_next ?s1 = n_next s"
    by (simp_all add: flushed_def)
  have o1: "owes reply p f t0 base (q # ps @ closes_que (n_ctx s)) [] [] ?s1"
  proof (rule owes_split [OF s(2) _ e1(3)])
    fix t
    assume ow: "owed reply p f base (q # ps @ closes_que (n_ctx s)) [] [] t s"
    have "nc_fd c' = nc_fd c" "nc_closed c \<longrightarrow> nc_closed c'" using f(2) by (simp_all add: conn_kept_def)
    moreover have "nc_fd c = f \<longleftrightarrow> q = p" if "n_conns s p = Some d" for d
      using ow that c unfolding owed_def apart_def by auto
    ultimately show "owed reply p f base (q # ps @ closes_que (n_ctx s)) [] [] (t @ map (Sent (nc_fd c)) chunks) ?s1"
      using ow c f(3) apart_update [of p f _ "n_conns s" q c c'] unfolding owed_def e1 by (auto simp: on_chunks)
  qed (simp add: e1)
  show ?thesis
  proof (cases "nc_closed c'")
    case True
    then have "push_closes q ?s1 = Some s'" using one f(1) e1(1) by (simp add: ts_write_one_def)
    then obtain ctx' where s': "s' = ?s1\<lparr>n_ctx := ctx'\<rparr>" "moved q (n_ctx ?s1) ctx'" "closes_que ctx' = closes_que (n_ctx ?s1) @ [q]"
      using push_closesD by blast
    then show ?thesis
      using e1(2) by (intro owes_frame [OF o1, of _ "[]"]) (auto simp: moved_def)
  next
    case False
    let ?w = "(if 0 < nc_outlen c' then add_write else mod_read) K (ts_epfd (n_ctx s)) (nc_fd c') ?s1"
    obtain r ys k where w: "?w = (r, ?s1\<lparr>n_trace := n_trace ?s1 @ ys, n_calls := k\<rparr>)" "list_all control ys"
      using watch_frame [of ?s1 "0 < nc_outlen c'" K "ts_epfd (n_ctx s)" "nc_fd c'"] unfolding controls_def by (cases ?w) fastforce
    let ?s2 = "?s1\<lparr>n_trace := n_trace ?s1 @ ys, n_calls := k\<rparr>"
    have o2: "owes reply p f t0 base (ps @ closes_que (n_ctx s)) [] [] ?s2"
      using w(2) by (intro owes_frame [OF o1, of _ ys]) auto
    have "s' = (if r \<noteq> 0 then set_conn q (c'\<lparr>nc_closed := True\<rparr>) ?s2 else ?s2)"
      using one f(1) e1(1,2) False w(1) by (simp add: ts_write_one_def split: prod.splits if_splits)
    moreover have "owes reply p f t0 base (ps @ closes_que (n_ctx s)) [] [] (set_conn q (c'\<lparr>nc_closed := True\<rparr>) ?s2)"
    proof (rule owes_split [OF o2, of _ "[]"])
      fix t
      assume "owed reply p f base (ps @ closes_que (n_ctx s)) [] [] t ?s2"
      then show "owed reply p f base (ps @ closes_que (n_ctx s)) [] [] (t @ []) (set_conn q (c'\<lparr>nc_closed := True\<rparr>) ?s2)"
        using apart_update [of p f _ "(n_conns s)(q \<mapsto> c')" q c' "c'\<lparr>nc_closed := True\<rparr>"] e1(1)
        unfolding owed_def by (auto simp: set_conn_def)
    qed (simp_all add: set_conn_def)
    ultimately show ?thesis using o2 e1(2) by (auto simp: set_conn_def)
  qed
qed

lemma write_loop_owes:
  assumes "write_progress K" "served s" "parked (ps @ closes_que (n_ctx s)) s"
    "owes reply p f t0 base (ps @ closes_que (n_ctx s)) [] [] s" "ts_write_loop K ps s = Some s'"
  shows "owes reply p f t0 base (closes_que (n_ctx s')) [] [] s'"
  using assms(2-5)
proof (induction ps arbitrary: s)
  case (Cons q ps)
  obtain s1 where s1: "ts_write_one K q s = Some s1" "served s1" "parked (ps @ closes_que (n_ctx s1)) s1"
    using write_one_ok [OF assms(1) Cons.prems(1), of q ps] Cons.prems(2) by auto
  have "owes reply p f t0 base (ps @ closes_que (n_ctx s1)) [] [] s1"
    using write_one_owes [OF assms(1) Cons.prems(1) _ s1(1)] Cons.prems(3) by simp
  then show ?case using Cons.IH [OF s1(2,3)] Cons.prems(4) s1(1) by simp
qed simp

lemma close_loop_owes:
  assumes "served s" "distinct ps" "set ps \<subseteq> dom (n_conns s)" "owes reply p f t0 base ps [] [] s" "ts_close_loop ps s = Some s'"
  shows "owes reply p f t0 base [] [] [] s'"
  using assms
proof (induction ps arbitrary: s)
  case (Cons q ps)
  obtain c where c: "n_conns s q = Some c" using Cons.prems(3) by auto
  have sv: "worker_ok s" "J (n_conns s) (n_user s)" "ts_closed_fn (n_ctx s) = closed"
    using Cons.prems(1) by (simp_all add: serves_def)
  obtain c1 u where c1: "closed q c (n_user s) = Some (c1, u)" "nc_fd c1 = nc_fd c" using closed_ok [OF sv(2) c] by blast
  obtain r o1 hm where hm: "hmap_delete (ts_hmap (n_ctx s)) (nc_fd c) = (r, o1, hm)" by (metis prod_cases3)
  then have abs: "hmap_abs hm = (hmap_abs (ts_hmap (n_ctx s)))(nc_fd c := None)"
    using hmap_delete_ok [of "ts_hmap (n_ctx s)" "nc_fd c"] sv(1) by (auto simp: worker_ok_def)
  obtain s1 where s1: "ts_close_one q s = Some s1" "served s1" "n_conns s1 = (n_conns s)(q := None)"
      "n_trace s1 = n_trace s @ [Shut (nc_fd c)]"
    using close_one_ok [OF Cons.prems(1) c] by blast
  have "s1 = s\<lparr>n_user := u, n_trace := n_trace s @ [Shut (nc_fd c)], n_ctx := (n_ctx s)\<lparr>ts_hmap := hm\<rparr>,
      n_conns := (n_conns s)(q := None)\<rparr>"
    using s1(1) c c1 sv(3) hm by (simp add: ts_close_one_def conn_free_def net_defs Let_def)
  then have e: "ts_hmap (n_ctx s1) = hm" "n_next s1 = n_next s" by simp_all
  have "owes reply p f t0 base ps [] [] s1"
  proof (rule owes_split [OF Cons.prems(4) _ s1(4)])
    fix t
    assume ow: "owed reply p f base (q # ps) [] [] t s"
    show "owed reply p f base ps [] [] (t @ [Shut (nc_fd c)]) s1"
      unfolding owed_def
    proof (intro allI impI)
      fix d assume "n_conns s1 p = Some d"
      then have d: "p \<noteq> q" "n_conns s p = Some d" using s1(3) by (auto split: if_splits)
      have o: "hmap_abs (ts_hmap (n_ctx s)) f = Some p" "nc_fd d = f" "apart p f (q # ps) (n_conns s)"
        "\<not> nc_closed d \<longrightarrow> sent_on f t @ unsent d = base @ concat (map reply (received_on f t))"
        using ow d(2) unfolding owed_def by simp_all
      have "nc_fd c \<noteq> f" using o(3) c d(1) by (simp add: apart_def)
      moreover have "apart p f ps (n_conns s1)" using o(3) s1(3) by (simp add: apart_def)
      ultimately show "hmap_abs (ts_hmap (n_ctx s1)) f = Some p \<and> nc_fd d = f \<and> apart p f ps (n_conns s1) \<and>
          (p \<in> set [] \<longrightarrow> nc_outlen d = 0) \<and>
          (\<not> nc_closed d \<longrightarrow> sent_on f (t @ [Shut (nc_fd c)]) @ unsent d @ concat (map reply []) =
             base @ concat (map reply (received_on f (t @ [Shut (nc_fd c)]))))"
        using o(1,2,4) by (simp add: e(1) abs)
    qed
  qed (simp add: e(2))
  moreover have "distinct ps" "set ps \<subseteq> dom (n_conns s1)" using Cons.prems(2,3) s1(3) by auto
  moreover have "ts_close_loop ps s1 = Some s'" using Cons.prems(5) s1(1) by simp
  ultimately show ?case by (intro Cons.IH [OF s1(2)])
qed simp

lemma round_owes:
  assumes "write_progress K" "served s" "distinct (map ev_fd evs)" "length evs \<le> unat (ts_queuesize (n_ctx s))"
    and o: "owes reply p f t0 base [] [] [] s" and r: "ts_round K evs s = Some s'"
  shows "owes reply p f t0 base [] [] [] s'"
proof -
  from assms(1-4) obtain s0 F s1 s2 s3 s4 s5 where
    s0: "s0 = ts_attach (ts_reset (s\<lparr>n_ctx := (n_ctx s)\<lparr>ts_events := evs\<rparr>\<rparr>))" "served s0" and
    s1: "ts_accept_loop K evs s0 = Some s1" "served s1" "admitted F s1"
      "parked (pread_que (n_ctx s1) @ pending (n_ctx s1)) s1" "length (pread_que (n_ctx s1)) \<le> unat (ts_queuesize (n_ctx s1))" and
    s2: "ts_read K s1 = Some s2" "served s2" "parked (ins_que (n_ctx s2) @ leftover (n_ctx s2)) s2" "packets_ok (n_ctx s2)" and
    s3: "ts_process s2 = Some s3" "served s3" "parked (outs_que (n_ctx s3) @ closes_que (n_ctx s3)) s3" and
    s4: "ts_write K s3 = Some s4" "served s4" "parked (closes_que (n_ctx s4)) s4" and
    s5: "ts_close s4 = Some s5" "ts_round K evs s = Some s5"
    by (rule round_phases) blast
  have i0: "admitted {} s0" "waiting (n_ctx s0) = []" "pread_que (n_ctx s0) = []" "ts_queuesize (n_ctx s0) = ts_queuesize (n_ctx s)"
    by (simp_all add: s0(1) admitted_def waiting_def ts_attach_def ts_reset_def)
  have "owes reply p f t0 base (waiting (n_ctx s0)) (pread_que (n_ctx s0)) [] s0"
    unfolding i0(2,3) by (rule owes_frame [OF o, of _ "[]"]) (simp_all add: s0(1) ts_attach_def ts_reset_def)
  then have o1: "owes reply p f t0 base (waiting (n_ctx s1)) (pread_que (n_ctx s1)) [] s1"
    using accept_loop_owes [OF s0(2) i0(1), of evs p f t0 base K s1] assms(3,4) s1(1) i0(2,4) by (simp add: get_event_fd_def [abs_def])
  have e1: "ins_que (n_ctx s1) = []" "slots_ok 0 (n_ctx s1)" "packets_ok (n_ctx s1)" "packets_due p (n_ctx s1) = []"
    using s1(3) by (simp_all add: admitted_def packets_ok_def slots_ok_def)
  have "owes reply p f t0 base (pread_que (n_ctx s1) @ pending (n_ctx s1)) (pread_que (n_ctx s1) @ ins_que (n_ctx s1))
      [] s1"
    by (rule owes_frame [OF o1, of _ "[]"]) (auto simp: waiting_def pending_def e1(1))
  then have o2: "owes reply p f t0 base (pending (n_ctx s2)) (ins_que (n_ctx s2)) (packets_due p (n_ctx s2)) s2"
    and n2: "\<forall>n \<in> set (inspktlens_que (n_ctx s2)). n < PACKETSIZE"
    using read_loop_owes [OF s1(2,4) e1(3), of 0] s1(5) s2(1) e1(1,2) by (simp_all add: ts_read_def)
  have "owes reply p f t0 base (ins_que (n_ctx s2) @ leftover (n_ctx s2)) (ins_que (n_ctx s2)) (packets_due p (n_ctx s2)) s2"
    by (rule owes_frame [OF o2, of _ "[]"]) (auto simp: pending_def leftover_def)
  then have o3: "owes reply p f t0 base (leftover (n_ctx s3)) [] [] s3"
    using s2(4) s3(1) n2 by (intro process_loop_owes [OF s2(2,3)]) (simp_all add: ts_process_def packets_ok_def)
  have "owes reply p f t0 base (outs_que (n_ctx s3) @ closes_que (n_ctx s3)) [] [] s3"
    by (rule owes_frame [OF o3, of _ "[]"]) (auto simp: leftover_def)
  then have "owes reply p f t0 base (closes_que (n_ctx s4)) [] [] s4"
    using write_loop_owes [OF assms(1) s3(2,3)] s4(1) by (simp add: ts_write_def)
  then have "owes reply p f t0 base [] [] [] s5"
    using close_loop_owes [OF s4(2)] s4(3) s5(1) by (auto simp: parked_def ts_close_def)
  then show ?thesis using s5(2) r by simp
qed

lemma worker_run_owes:
  assumes "write_progress K" "served s" "\<forall>w \<in> set ws. \<forall>evs. w_events w = Inr evs \<longrightarrow> distinct (map ev_fd evs)"
    "owes reply p f t0 base [] [] [] s" "ts_worker_run K ws s = Some (stopped, s')"
  shows "owes reply p f t0 base [] [] [] s'"
  using assms(2-5)
proof (induction ws arbitrary: s)
  case (Cons w ws)
  show ?case
  proof (cases "w_events w")
    case (Inl e)
    then show ?thesis using Cons.IH [of s] Cons.prems by (auto split: if_splits)
  next
    case (Inr evs)
    let ?evs = "take (unat (ts_queuesize (n_ctx s))) evs"
    have evs: "distinct (map ev_fd ?evs)" "length ?evs \<le> unat (ts_queuesize (n_ctx s))"
      using Cons.prems(2) Inr distinct_take [of "map ev_fd evs"] by (simp_all add: take_map)
    then obtain s1 where s1: "ts_round K ?evs s = Some s1" "served s1"
      using round_ok [OF assms(1) Cons.prems(1), of ?evs] by blast
    have "owes reply p f t0 base [] [] [] s1" by (rule round_owes [OF assms(1) Cons.prems(1) evs Cons.prems(3) s1(1)])
    then show ?thesis using Cons.IH [OF s1(2)] Cons.prems Inr s1(1) by (auto split: if_splits)
  qed
qed simp

text \<open>A connection in the map, from any moment on.\<close>

lemma replies_in_order:
  assumes K: "write_progress K" and s: "served s" and ws: "\<forall>w \<in> set ws. \<forall>evs. w_events w = Inr evs \<longrightarrow> distinct (map ev_fd evs)"
    and c: "hmap_get_value (ts_hmap (n_ctx s)) f = Some p" "n_conns s p = Some c" "\<not> nc_closed c"
  shows "\<exists>stopped s' t. ts_worker_loop K True ws s = Some (stopped, s') \<and> n_trace s' = n_trace s @ t \<and>
    (\<forall>c'. n_conns s' p = Some c' \<and> \<not> nc_closed c' \<longrightarrow>
       sent_on f t @ unsent c' = unsent c @ concat (map reply (received_on f t)))"
proof -
  have ok: "worker_ok s" using s by (simp add: serves_def)
  then have "p < n_next s" using c(2) by (metis not_less option.distinct(1) worker_ok_def)
  moreover have "hmap_abs (ts_hmap (n_ctx s)) f = Some p" using c(1) ok by (simp add: worker_ok_def hmap_get_value_abs)
  moreover have "linked (hmap_abs (ts_hmap (n_ctx s))) (n_conns s)" using ok by (simp add: worker_ok_def)
  moreover from this have "nc_fd c = f" using c(2) calculation(2) linkedD [of _ "n_conns s" f p] by auto
  ultimately have o: "owes reply p f (n_trace s) (unsent c) [] [] [] s"
    using c(2) by (simp add: owes_def owed_def apart_def)
  obtain stopped s' where s': "ts_worker_run K ws s = Some (stopped, s')" using worker_run_ok [OF K s ws] by blast
  have "owes reply p f (n_trace s) (unsent c) [] [] [] s'" by (rule worker_run_owes [OF K s ws o s'])
  then show ?thesis using s' by (auto simp: owes_def owed_def ts_worker_loop_def)
qed

end

section \<open>The callbacks of the server\<close>

lemma ev_process_reply:
  assumes "ev_process p c pkt u = Some (c', u')" "\<not> nc_closed c'"
  shows "\<not> nc_closed c \<and> unsent c' = ev_response"
proof (cases "c_realloc (eh_realloc u (eh_calls u)) (nc_out c) (of_nat (length ev_response))")
  case None
  then show ?thesis using assms by (auto simp: ev_process_def Let_def)
next
  case (Some d)
  have "length d = 3" using c_realloc_length [OF Some] by (simp add: ev_response_def)
  then obtain a b e where "d = [a, b, e]" by (auto simp: numeral_3_eq_3 length_Suc_conv)
  then show ?thesis using Some assms by (auto simp: ev_process_def Let_def ev_response_def unsent_def mem_write_def)
qed

interpretation ok_replies: net_replies ev_process ev_opened ev_closed echo_inv "\<lambda>pkt. ev_response"
  by unfold_locales (use ev_process_reply in blast)+

text \<open>A worker with one connection, on descriptor 9, and nothing to send.\<close>

definition quiet_conn :: "fd \<Rightarrow> nat \<Rightarrow> net_conn" where
  "quiet_conn f q = \<lparr>nc_fd = f, nc_closed = False, nc_udata = Some q, nc_out = None, nc_outlen = 0, nc_outcap = 0, nc_outoff = 0,
     nc_bgctx = None, nc_ctx = 0\<rparr>"

definition one_conn :: "'u net \<Rightarrow> 'u net" where
  "one_conn s = s\<lparr>n_conns := [0 \<mapsto> quiet_conn 9 0], n_next := 1,
     n_ctx := (n_ctx s)\<lparr>ts_hmap := snd (hmap_insert True True (hmap_init_int True 8) 9 0)\<rparr>\<rparr>"

lemma one_conn_map:
  "hmap_inv (snd (hmap_insert True True (hmap_init_int True 8) (9 :: u32) (0 :: conn_ptr)))"
  "hmap_abs (snd (hmap_insert True True (hmap_init_int True 8) (9 :: u32) (0 :: conn_ptr))) = [9 \<mapsto> 0]"
proof -
  let ?h = "hmap_init_int True 8 :: (u32, conn_ptr) hmap"
  have "hmap_inv ?h" "hmap_abs ?h = Map.empty" using hmap_init_int_ok by blast+
  then show "hmap_inv (snd (hmap_insert True True ?h 9 0))" "hmap_abs (snd (hmap_insert True True ?h 9 0)) = [9 \<mapsto> 0]"
    using hmap_insert_ok [OF _ int_map_room, where hm = ?h and ok_grow = True and ok_node = True and k = 9 and v = 0]
    by (auto split: option.splits prod.splits)
qed

definition busy_worker :: "ev_heap net" where
  "busy_worker = (one_conn idle_worker)\<lparr>n_user := (n_user idle_worker)\<lparr>eh_next := 1,
     eh_conns := [0 \<mapsto> \<lparr>cn_fd = 0, cn_packet = \<lparr>buf_data = None, buf_len = 0, buf_cap = 0\<rparr>, cn_conn5 = Some 0\<rparr>]\<rparr>\<rparr>"

lemma busy_worker_serves: "serves ev_process ev_opened ev_closed echo_inv busy_worker"
  using one_conn_map
  by (simp add: serves_def worker_ok_def busy_worker_def one_conn_def idle_worker_def linked_def PACKETSIZE_def echo_inv_def
      quiet_conn_def out_ok_def)

definition answered :: "ev_heap net \<Rightarrow> bool" where
  "answered s \<longleftrightarrow> n_trace s = [Received 9 [104, 105], Sent 9 [79], Sent 9 [107], Sent 9 [10],
      Watch EPOLL_CTL_MOD 5 (readable 9)] \<and> n_conns s = [0 \<mapsto> quiet_conn 9 0]"

lemmas worker_evals = busy_worker_def one_conn_def idle_worker_def ts_attach_def ts_reset_def quiet_conn_def slow_kernel_def
  readable_def net_defs note_read_def PACKETSIZE_def Let_def

lemmas phase_evals = ts_accept_def ts_accept_event_def get_event_fd_def ts_enqueue_def push_pread_def push_outs_def push_que_def
  ts_read_def ts_read_one_def handle_read_def ts_process_def ts_process_one_def ts_write_def ts_write_one_def ts_close_def

lemma busy_round: "\<exists>s'. ts_round slow_kernel [readable 9] busy_worker = Some s' \<and> answered s'"
proof -
  have h: "hmap_get_value (snd (hmap_insert True True (hmap_init_int True 8) (9 :: u32) (0 :: conn_ptr))) 9 = Some 0"
    using one_conn_map by (simp add: hmap_get_value_abs)
  show ?thesis
    apply (simp add: ts_round_def worker_evals phase_evals h)
    apply (simp add: ev_process_def c_realloc_def c_malloc_def ev_response_def PTRDIFF_LIMIT_def mem_write_def Let_def)
    apply (simp add: phase_evals worker_evals flush_conn.simps out_rest_def mem_read_def)
    apply (simp add: answered_def phase_evals worker_evals mod_read_def epoll_ctl_def ctl_result_def)
    done
qed

section \<open>Properties\<close>

text \<open>
  C8. The server answers every packet exactly once, in order. From any moment at which a connection is known to the
  worker, over any number of rounds, whatever the kernel answers and however it splits the writes: as long as the connection is
  open and not marked closed, what was sent on it together with what is still to be sent is what was to be sent at the start followed by one
  \<^verbatim>\<open>Ok\<close> line for every packet read from it since. Nothing is lost, doubled, reordered or mixed up with other connections.
\<close>

theorem every_packet_answered:
  assumes "write_progress K" "serves ev_process ev_opened ev_closed echo_inv s"
    "\<forall>w \<in> set ws. \<forall>evs. w_events w = Inr evs \<longrightarrow> distinct (map ev_fd evs)"
    "hmap_get_value (ts_hmap (n_ctx s)) f = Some p" "n_conns s p = Some c" "\<not> nc_closed c"
  shows "\<exists>stopped s' t. ts_worker_loop K True ws s = Some (stopped, s') \<and> n_trace s' = n_trace s @ t \<and>
    (\<forall>c'. n_conns s' p = Some c' \<and> \<not> nc_closed c' \<longrightarrow>
       sent_on f t @ unsent c' = unsent c @ concat (replicate (length (received_on f t)) ev_response))"
  using ok_replies.replies_in_order [OF assms] by (simp add: map_replicate_const)

theorem every_packet_answered_witness:
  "\<exists>stopped s'. ts_worker_loop slow_kernel True
      [\<lparr>w_stopping = False, w_events = Inr [readable 9], w_stopping_after = False\<rparr>] busy_worker = Some (stopped, s') \<and>
     received_on 9 (n_trace s') = [[104, 105]] \<and>
     sent_on 9 (n_trace s') @ unsent (quiet_conn 9 0) = unsent (quiet_conn 9 0) @ concat (replicate 1 ev_response)"
proof -
  let ?ws = "[\<lparr>w_stopping = False, w_events = Inr [readable 9], w_stopping_after = False\<rparr>]"
  obtain s1 where s1: "ts_round slow_kernel [readable 9] busy_worker = Some s1" "answered s1" using busy_round by blast
  have q: "unat (ts_queuesize (n_ctx busy_worker)) = 2" "n_trace busy_worker = []" "n_conns busy_worker 0 = Some (quiet_conn 9 0)"
    "hmap_get_value (ts_hmap (n_ctx busy_worker)) 9 = Some 0"
    using one_conn_map by (simp_all add: hmap_get_value_abs busy_worker_def one_conn_def idle_worker_def)
  have run: "ts_worker_loop slow_kernel True ?ws busy_worker = Some (False, s1)"
    using s1(1) q(1) by (simp add: ts_worker_loop_def)
  have "\<not> nc_closed (quiet_conn 9 0)" by (simp add: quiet_conn_def)
  from every_packet_answered [OF slow_kernel_progress busy_worker_serves _ q(4,3) this, of ?ws] run q(2) s1(2)
  show ?thesis by (auto simp: answered_def readable_def quiet_conn_def)
qed

end
