(* ===== verification/NetServer.thy ===== *)
theory NetServer
  imports NetRound
begin

text \<open>
  Starting, stopping and releasing the network server (\<^verbatim>\<open>libv/src/net/net.c\<close>). Here a context
  \<^verbatim>\<open>struct tscontext\<close> is seen as what it owns: blocks of memory, a map and descriptors; the state of its
  rounds is the record \<open>tscontext\<close> of theory Net. The world has the live blocks with their sizes, the open descriptors,
  the running threads, and the answers of the allocator to the calls to come. A second \<^verbatim>\<open>free\<close> of a
  block, a signed overflow and a null pointer that is followed give \<^term>\<open>None\<close>. The options and the place
  for the result are always given to \<^verbatim>\<open>net_server_start\<close>; the messages it prints are left out.
\<close>

section \<open>The world\<close>

record world =
  nw_blocks :: "nat \<rightharpoonup> u64"
  nw_next :: nat
  nw_malloc :: "nat \<Rightarrow> bool"
  nw_calls :: nat
  nw_fds :: "fd list"
  nw_threads :: "nat list"

definition w_malloc :: "u64 \<Rightarrow> world \<Rightarrow> nat option \<times> world" where
  "w_malloc n w =
     (let w1 = w\<lparr>nw_calls := Suc (nw_calls w)\<rparr>
      in if nw_malloc w (nw_calls w) \<and> unat n < PTRDIFF_LIMIT
         then (Some (nw_next w), w1\<lparr>nw_blocks := (nw_blocks w)(nw_next w \<mapsto> n), nw_next := Suc (nw_next w)\<rparr>)
         else (None, w1))"

definition w_free :: "nat option \<Rightarrow> world \<Rightarrow> world option" where
  "w_free p w =
     (case p of
        None \<Rightarrow> Some w
      | Some a \<Rightarrow> if nw_blocks w a = None then None else Some (w\<lparr>nw_blocks := (nw_blocks w)(a := None)\<rparr>))"

definition w_open :: "fd \<Rightarrow> world \<Rightarrow> world" where
  "w_open f w = w\<lparr>nw_fds := f # nw_fds w\<rparr>"

definition w_close :: "fd \<Rightarrow> world \<Rightarrow> world" where
  "w_close f w = w\<lparr>nw_fds := remove1 f (nw_fds w)\<rparr>"

fun free_all :: "nat option list \<Rightarrow> world \<Rightarrow> world option" where
  "free_all [] w = Some w"
| "free_all (p # ps) w =
     do {
       w1 \<leftarrow> w_free p w;
       free_all ps w1
     }"

fun malloc_all :: "u64 list \<Rightarrow> world \<Rightarrow> nat option list \<times> world" where
  "malloc_all [] w = ([], w)"
| "malloc_all (n # ns) w =
     (case w_malloc n w of
        (p, w1) \<Rightarrow> (case malloc_all ns w1 of (ps, w2) \<Rightarrow> (p # ps, w2)))"

section \<open>Contexts and the server\<close>

record ts_block =
  wk_epfd :: fd
  wk_wake_fd :: fd
  wk_wake :: u64
  wk_index :: nat
  wk_listen_fd :: fd
  wk_queuesize :: u32
  wk_nthreads :: u32
  wk_events :: "nat option"
  wk_pread_que :: "nat option"
  wk_ins_que :: "nat option"
  wk_outs_que :: "nat option"
  wk_closes_que :: "nat option"
  wk_attachs_que :: "nat option"
  wk_inpkts :: "nat option"
  wk_inspkts_que :: "nat option"
  wk_inspktlens_que :: "nat option"
  wk_hmap_ready :: bool
  wk_hmap_buckets :: "nat option"

record NetListenOptions =
  opt_host :: "bytes option"
  opt_port :: "bytes option"
  opt_nthreads :: u32
  opt_queuesize :: u32
  opt_udata :: "nat option"
  opt_process :: "nat option"
  opt_opened :: "nat option"
  opt_closed :: "nat option"

record NetServer =
  sv_self :: nat
  sv_listen_fd :: fd
  sv_bound_port :: u32
  sv_nthreads :: u32
  sv_queuesize :: u32
  sv_stopping :: bool
  sv_joined :: bool
  sv_threads :: "nat option"
  sv_ctxs :: "nat option"
  sv_workers :: "ts_block list"
  sv_started_threads :: nat
  sv_udata :: "nat option"
  sv_process :: "nat option"
  sv_opened :: "nat option"
  sv_closed :: "nat option"

text \<open>The answers of the kernel to the calls of a start; those of a worker's setup are indexed by the worker.\<close>

record server_env =
  se_getaddrinfo :: "bytes \<Rightarrow> bytes \<Rightarrow> bool list option"
  se_socket :: fd
  se_setsockopt :: bool
  se_setnonblock :: bool
  se_bind :: bool
  se_listen :: bool
  se_getsockname :: "u16 option"
  se_epoll_create :: "nat \<Rightarrow> fd"
  se_eventfd :: "nat \<Rightarrow> fd"
  se_add_listen :: "nat \<Rightarrow> bool"
  se_add_wake :: "nat \<Rightarrow> bool"
  se_pthread_create :: "nat \<Rightarrow> bool"

datatype 'a call = Aborts | Returns 'a

section \<open>Listening\<close>

text \<open>
  The address list is given by whether each entry is an IPv4 address; running off its end follows a
  null pointer. The port is written to \<^verbatim>\<open>out_port\<close> only when it is known.
\<close>

definition listen_tcp ::
  "server_env \<Rightarrow> bytes option \<Rightarrow> bytes option \<Rightarrow> u32 \<Rightarrow> world \<Rightarrow> ((fd \<times> u32) call \<times> world) option" where
  "listen_tcp E host0 port0 out_port w =
     (let host = (case host0 of None \<Rightarrow> map (of_nat \<circ> of_char) ''127.0.0.1'' | Some h \<Rightarrow> h)
      in case port0 of
           None \<Rightarrow> Some (Returns (-1, out_port), w)
         | Some port \<Rightarrow>
             if port = [] then Some (Returns (-1, out_port), w)
             else
               case se_getaddrinfo E host port of
                 None \<Rightarrow> Some (Aborts, w)
               | Some addrs \<Rightarrow>
                   if addrs = [] then Some (Aborts, w)
                   else if True \<notin> set addrs then None
                   else
                     let f = se_socket E
                     in if f = -1 then Some (Aborts, w)
                        else if \<not> se_setsockopt E \<or> \<not> se_setnonblock E \<or> \<not> se_bind E \<or> \<not> se_listen E
                        then Some (Aborts, w_open f w)
                        else if f <s 0 then Some (Returns (-1, out_port), w_open f w)
                        else Some (Returns (f, (case se_getsockname E of None \<Rightarrow> out_port | Some p \<Rightarrow> ucast p)), w_open f w))"

section \<open>Contexts\<close>

definition ts_pointers :: "ts_block \<Rightarrow> nat option list" where
  "ts_pointers wk =
     [wk_events wk, wk_pread_que wk, wk_ins_que wk, wk_outs_que wk, wk_closes_que wk, wk_attachs_que wk, wk_inpkts wk,
      wk_inspkts_que wk, wk_inspktlens_que wk]"

text \<open>The pointers to the freed blocks stay; only the map is reset by \<^verbatim>\<open>hmap_deinit\<close>.\<close>

definition free_tscontext :: "ts_block \<Rightarrow> world \<Rightarrow> (ts_block \<times> world) option" where
  "free_tscontext wk w =
     do {
       w1 \<leftarrow> free_all (ts_pointers wk) w;
       w2 \<leftarrow> w_free (wk_hmap_buckets wk) w1;
       Some (wk\<lparr>wk_hmap_buckets := None\<rparr>, w2)
     }"

definition ts_zero :: ts_block where
  "ts_zero = \<lparr>wk_epfd = 0, wk_wake_fd = 0, wk_wake = 0, wk_index = 0, wk_listen_fd = 0, wk_queuesize = 0, wk_nthreads = 0,
     wk_events = None, wk_pread_que = None, wk_ins_que = None, wk_outs_que = None, wk_closes_que = None,
     wk_attachs_que = None, wk_inpkts = None, wk_inspkts_que = None, wk_inspktlens_que = None, wk_hmap_ready = False,
     wk_hmap_buckets = None\<rparr>"

definition ts_sizes :: "u32 \<Rightarrow> u64 list" where
  "ts_sizes q = [8 * scast q, 8 * scast q, 8 * scast q, 8 * scast q, 8 * scast q, scast (16384 * q), 8 * scast q, 4 * scast q]"

text \<open>\<^verbatim>\<open>PACKETSIZE * sctx->queuesize\<close> is a product of two \<^verbatim>\<open>int\<close>.\<close>

definition init_tscontext :: "NetServer \<Rightarrow> nat \<Rightarrow> world \<Rightarrow> (int \<times> NetServer \<times> world) option" where
  "init_tscontext server i w =
     (let q = sv_queuesize server;
          sctx = ts_zero\<lparr>wk_epfd := -1, wk_wake_fd := -1, wk_listen_fd := sv_listen_fd server, wk_queuesize := q,
                         wk_nthreads := sv_nthreads server\<rparr>
      in if 131072 \<le> sint q then None
         else
           case malloc_all (ts_sizes q) w of
             (ps, w1) \<Rightarrow>
               let sctx1 = sctx\<lparr>wk_pread_que := ps ! 0, wk_ins_que := ps ! 1, wk_outs_que := ps ! 2, wk_closes_que := ps ! 3,
                                wk_attachs_que := ps ! 4, wk_inpkts := ps ! 5, wk_inspkts_que := ps ! 6,
                                wk_inspktlens_que := ps ! 7\<rparr>
               in if None \<in> set ps
                  then do {
                    (sctx2, w2) \<leftarrow> free_tscontext sctx1 w1;
                    Some (-1, server\<lparr>sv_workers := (sv_workers server)[i := sctx2]\<rparr>, w2)
                  }
                  else
                    case w_malloc (8 * HMAP_DEFAULT_NBUCKETS) w1 of
                      (b, w2) \<Rightarrow>
                        Some (0, server\<lparr>sv_workers :=
                            (sv_workers server)[i := sctx1\<lparr>wk_hmap_ready := True, wk_hmap_buckets := b\<rparr>]\<rparr>, w2))"

fun init_contexts :: "nat list \<Rightarrow> NetServer \<Rightarrow> world \<Rightarrow> (int \<times> NetServer \<times> world) option" where
  "init_contexts [] server w = Some (0, server, w)"
| "init_contexts (i # is) server w =
     do {
       (r, server1, w1) \<leftarrow> init_tscontext server i w;
       if r \<noteq> 0 then Some (-1, server1, w1) else init_contexts is server1 w1
     }"

section \<open>Threads\<close>

text \<open>
  A worker's thread begins with the allocation of its event array. A descriptor that was opened
  before a failure stays open, unless the thread could not be created.
\<close>

definition create_worker_thread :: "server_env \<Rightarrow> NetServer \<Rightarrow> nat \<Rightarrow> world \<Rightarrow> fd \<times> NetServer \<times> world" where
  "create_worker_thread E server i w =
     (let wk = sv_workers server ! i; epfd = se_epoll_create E i
      in if epfd <s 0 then (-1, server, w)
         else
           let w1 = w_open epfd w; efd = se_eventfd E i; wk1 = wk\<lparr>wk_wake_fd := efd\<rparr>;
               server1 = server\<lparr>sv_workers := (sv_workers server)[i := wk1]\<rparr>
           in if efd <s 0 then (-1, server1, w1)
              else
                let w2 = w_open efd w1; wk2 = wk1\<lparr>wk_epfd := epfd, wk_index := i\<rparr>;
                    server2 = server\<lparr>sv_workers := (sv_workers server)[i := wk2]\<rparr>
                in if \<not> se_add_listen E i then (-1, server2, w2)
                   else if \<not> se_add_wake E i then (-1, server2, w2)
                   else if \<not> se_pthread_create E i then (-1, server2, w_close epfd w2)
                   else
                     case w_malloc (12 * scast (wk_queuesize wk2)) w2 of
                       (ev, w3) \<Rightarrow>
                         (epfd,
                          server\<lparr>sv_workers := (sv_workers server)[i := wk2\<lparr>wk_events := ev\<rparr>],
                                 sv_started_threads := Suc (sv_started_threads server)\<rparr>,
                          w3\<lparr>nw_threads := i # nw_threads w3\<rparr>))"

fun create_threads :: "server_env \<Rightarrow> nat list \<Rightarrow> NetServer \<Rightarrow> world \<Rightarrow> int \<times> NetServer \<times> world" where
  "create_threads E [] server w = (0, server, w)"
| "create_threads E (i # is) server w =
     (case create_worker_thread E server i w of
        (epfd, server1, w1) \<Rightarrow> if epfd <s 0 then (-1, server1, w1) else create_threads E is server1 w1)"

section \<open>Stopping, waiting, releasing\<close>

text \<open>Adding 1 to an \<^verbatim>\<open>eventfd\<close> fails when the counter is at its largest value.\<close>

definition eventfd_add_one :: "u64 \<Rightarrow> u64" where
  "eventfd_add_one v = (if v = -2 then v else v + 1)"

definition wake_worker :: "ts_block \<Rightarrow> ts_block" where
  "wake_worker wk = (if 0 <=s wk_wake_fd wk then wk\<lparr>wk_wake := eventfd_add_one (wk_wake wk)\<rparr> else wk)"

definition stop_server :: "NetServer \<Rightarrow> NetServer" where
  "stop_server server =
     (if sv_stopping server then server
      else server\<lparr>sv_stopping := True, sv_workers := map wake_worker (sv_workers server)\<rparr>)"

definition net_server_stop :: "NetServer option \<Rightarrow> NetServer option" where
  "net_server_stop server = map_option stop_server server"

definition net_server_wait :: "NetServer option \<Rightarrow> world \<Rightarrow> int \<times> NetServer option \<times> world" where
  "net_server_wait server w =
     (case server of
        None \<Rightarrow> (0, None, w)
      | Some sv \<Rightarrow>
          if sv_joined sv then (0, Some sv, w)
          else (0, Some (sv\<lparr>sv_joined := True\<rparr>),
                w\<lparr>nw_threads := filter (\<lambda>i. sv_started_threads sv \<le> i) (nw_threads w)\<rparr>))"

fun free_contexts :: "ts_block list \<Rightarrow> world \<Rightarrow> world option" where
  "free_contexts [] w = Some w"
| "free_contexts (wk # wks) w =
     do {
       (wk1, w1) \<leftarrow> free_tscontext wk w;
       free_contexts wks w1
     }"

definition net_server_destroy :: "NetServer option \<Rightarrow> world \<Rightarrow> world option" where
  "net_server_destroy server0 w0 =
     (case net_server_wait (net_server_stop server0) w0 of
        (r, None, w) \<Rightarrow> Some w0
      | (r, Some server, w) \<Rightarrow>
          do {
            w1 \<leftarrow> (if sv_ctxs server \<noteq> None then free_contexts (sv_workers server) w else Some w);
            let w2 = (if 0 <=s sv_listen_fd server then w_close (sv_listen_fd server) w1 else w1);
            free_all [sv_ctxs server, sv_threads server, Some (sv_self server)] w2
          })"

definition net_server_port :: "NetServer option \<Rightarrow> u32" where
  "net_server_port server = (case server of None \<Rightarrow> -1 | Some s \<Rightarrow> sv_bound_port s)"

section \<open>Starting\<close>

definition SIZEOF_NetServer :: u64 where
  "SIZEOF_NetServer = 80"

definition SIZEOF_tscontext :: u64 where
  "SIZEOF_tscontext = 232"

definition net_server_new :: "NetListenOptions \<Rightarrow> nat \<Rightarrow> NetServer" where
  "net_server_new opt self =
     \<lparr>sv_self = self, sv_listen_fd = -1, sv_bound_port = -1,
      sv_nthreads = (if 0 <s opt_nthreads opt then opt_nthreads opt else 1),
      sv_queuesize = (if 0 <s opt_queuesize opt then opt_queuesize opt else 128),
      sv_stopping = False, sv_joined = False, sv_threads = None, sv_ctxs = None, sv_workers = [], sv_started_threads = 0,
      sv_udata = opt_udata opt, sv_process = opt_process opt, sv_opened = opt_opened opt, sv_closed = opt_closed opt\<rparr>"

text \<open>The cleanup at the label \<^verbatim>\<open>fail\<close>.\<close>

definition start_failed :: "NetServer \<Rightarrow> world \<Rightarrow> ((int \<times> NetServer option) call \<times> world) option" where
  "start_failed server w = map_option (\<lambda>w1. (Returns (-1, None), w1)) (net_server_destroy (Some server) w)"

definition start_workers :: "server_env \<Rightarrow> NetServer \<Rightarrow> world \<Rightarrow> ((int \<times> NetServer option) call \<times> world) option" where
  "start_workers E server1 w2 =
     (let n = unat (sv_nthreads server1)
      in case w_malloc (of_nat n * SIZEOF_tscontext) w2 of
           (cs, w3) \<Rightarrow>
             (case w_malloc (of_nat n * 8) w3 of
                (ths, w4) \<Rightarrow>
                  let server2 = server1\<lparr>sv_ctxs := cs, sv_threads := ths,
                                        sv_workers := (if cs = None then [] else replicate n ts_zero)\<rparr>
                  in if cs = None \<or> ths = None then start_failed server2 w4
                     else do {
                       (r, server3, w5) \<leftarrow> init_contexts [0..<n] server2 w4;
                       if r \<noteq> 0 then start_failed server3 w5
                       else
                         case create_threads E [0..<n] server3 w5 of
                           (r1, server4, w6) \<Rightarrow> Some (Returns (if r1 \<noteq> 0 then (-1, None) else (0, Some server4)), w6)
                     }))"

definition net_server_start ::
  "server_env \<Rightarrow> NetListenOptions \<Rightarrow> world \<Rightarrow> ((int \<times> NetServer option) call \<times> world) option" where
  "net_server_start E opt w =
     (if opt_process opt = None \<or> opt_opened opt = None \<or> opt_closed opt = None then Some (Returns (-1, None), w)
      else
        case w_malloc SIZEOF_NetServer w of
          (None, w1) \<Rightarrow> Some (Returns (-1, None), w1)
        | (Some self, w1) \<Rightarrow>
            let server = net_server_new opt self
            in do {
                 (lr, w2) \<leftarrow> listen_tcp E (opt_host opt) (opt_port opt) (sv_bound_port server) w1;
                 case lr of
                   Aborts \<Rightarrow> Some (Aborts, w2)
                 | Returns (f, port) \<Rightarrow>
                     let server1 = server\<lparr>sv_listen_fd := f, sv_bound_port := port\<rparr>
                     in if f <s 0 then start_failed server1 w2 else start_workers E server1 w2
               })"

text \<open>\<^verbatim>\<open>net_listen\<close>: start on the fixed address, wait for the threads, release.\<close>

definition listen_options :: "u32 \<Rightarrow> NetListenOptions" where
  "listen_options nthread =
     \<lparr>opt_host = Some (map (of_nat \<circ> of_char) ''127.0.0.1''), opt_port = Some (map (of_nat \<circ> of_char) ''4567''),
      opt_nthreads = nthread, opt_queuesize = 128, opt_udata = None, opt_process = Some 0, opt_opened = Some 1,
      opt_closed = Some 2\<rparr>"

definition net_listen :: "server_env \<Rightarrow> u32 \<Rightarrow> world \<Rightarrow> (int call \<times> world) option" where
  "net_listen E nthread w =
     do {
       (r, w1) \<leftarrow> net_server_start E (listen_options nthread) w;
       case r of
         Aborts \<Rightarrow> Some (Aborts, w1)
       | Returns (rc, server) \<Rightarrow>
           (case server of
              None \<Rightarrow> Some (Returns (-1), w1)
            | Some sv \<Rightarrow>
                (case net_server_wait (Some sv) w1 of
                   (r1, sv1, w2) \<Rightarrow> map_option (\<lambda>w3. (Returns 0, w3)) (net_server_destroy sv1 w2)))
     }"

section \<open>Ownership of blocks\<close>

fun somes :: "'a option list \<Rightarrow> 'a list" where
  "somes [] = []"
| "somes (None # ps) = somes ps"
| "somes (Some a # ps) = a # somes ps"

lemma somes_append [simp]: "somes (ps @ qs) = somes ps @ somes qs"
  by (induction ps rule: somes.induct) simp_all

text \<open>The blocks of \<open>A\<close> are live and owned once; the other live blocks are those of \<open>base\<close>.\<close>

definition owns :: "(nat \<rightharpoonup> u64) \<Rightarrow> nat list \<Rightarrow> world \<Rightarrow> bool" where
  "owns base A w \<longleftrightarrow>
     distinct A \<and> set A \<subseteq> dom (nw_blocks w) \<and> nw_blocks w |` (- set A) = base \<and> (\<forall>a \<ge> nw_next w. nw_blocks w a = None)"

lemma owns_perm: "owns base A w \<Longrightarrow> mset A = mset B \<Longrightarrow> owns base B w"
  unfolding owns_def using mset_eq_imp_distinct_iff mset_eq_setD by metis

lemma owns_frame: "owns base A w \<Longrightarrow> nw_blocks w' = nw_blocks w \<Longrightarrow> nw_next w' = nw_next w \<Longrightarrow> owns base A w'"
  by (simp add: owns_def)

lemma owns_malloc:
  assumes "owns base A w" "w_malloc n w = (p, w')"
  shows "owns base (A @ somes [p]) w'"
proof (cases p)
  case None
  then have "nw_blocks w' = nw_blocks w" "nw_next w' = nw_next w"
    using assms(2) by (auto simp: w_malloc_def Let_def split: if_splits)
  then show ?thesis using None assms(1) by (simp add: owns_def)
next
  case (Some a)
  then have w': "a = nw_next w" "nw_blocks w' = (nw_blocks w)(a \<mapsto> n)" "nw_next w' = Suc a"
    using assms(2) by (auto simp: w_malloc_def Let_def split: if_splits)
  have fresh: "nw_blocks w a = None" using assms(1) w'(1) by (simp add: owns_def)
  then have "a \<notin> set A" using assms(1) by (auto simp: owns_def)
  moreover have "nw_blocks w' |` (- insert a (set A)) = nw_blocks w |` (- set A)"
    using w'(2) fresh by (auto simp: restrict_map_def fun_eq_iff)
  ultimately show ?thesis using assms(1) Some w' by (auto simp: owns_def)
qed

lemma owns_malloc_all:
  "owns base A w \<Longrightarrow> malloc_all ns w = (ps, w') \<Longrightarrow> owns base (A @ somes ps) w' \<and> length ps = length ns"
proof (induction ns arbitrary: A w ps)
  case Nil
  then show ?case by simp
next
  case (Cons n ns)
  obtain p w1 qs where 1: "w_malloc n w = (p, w1)" "malloc_all ns w1 = (qs, w')" "ps = p # qs"
    using Cons.prems(2) by (auto split: prod.splits)
  have "somes ps = somes [p] @ somes qs" using 1(3) somes_append [of "[p]" qs] by simp
  then show ?case using Cons.IH [OF owns_malloc [OF Cons.prems(1) 1(1)] 1(2)] 1(3) by simp
qed

lemma owns_free_all:
  "owns base (somes ps @ A) w \<Longrightarrow> \<exists>w'. free_all ps w = Some w' \<and> owns base A w'"
proof (induction ps arbitrary: w rule: somes.induct)
  case (3 a ps)
  let ?w = "w\<lparr>nw_blocks := (nw_blocks w)(a := None)\<rparr>"
  have a: "nw_blocks w a \<noteq> None" "a \<notin> set (somes ps @ A)" "distinct (somes ps @ A)"
    using "3.prems" by (auto simp: owns_def)
  have "nw_blocks ?w |` (- set (somes ps @ A)) = nw_blocks w |` (- insert a (set (somes ps @ A)))"
    by (auto simp: restrict_map_def fun_eq_iff)
  then have "owns base (somes ps @ A) ?w" using "3.prems" a by (auto simp: owns_def)
  then show ?case using "3.IH" a(1) by (auto simp: w_free_def)
qed (simp_all add: w_free_def)

text \<open>What a context and the server own.\<close>

definition wk_owned :: "ts_block \<Rightarrow> nat list" where
  "wk_owned wk = somes (ts_pointers wk @ [wk_hmap_buckets wk])"

definition sv_owned :: "NetServer \<Rightarrow> nat list" where
  "sv_owned server = concat (map wk_owned (sv_workers server)) @ somes [sv_ctxs server, sv_threads server, Some (sv_self server)]"

lemma free_tscontext_ok:
  assumes "owns base (wk_owned wk @ A) w"
  shows "\<exists>w'. free_tscontext wk w = Some (wk\<lparr>wk_hmap_buckets := None\<rparr>, w') \<and> owns base A w'"
proof -
  obtain w1 where w1: "free_all (ts_pointers wk) w = Some w1" "owns base (somes [wk_hmap_buckets wk] @ A) w1"
    using owns_free_all [of base "ts_pointers wk" "somes [wk_hmap_buckets wk] @ A" w] assms by (auto simp: wk_owned_def)
  then obtain w2 where "free_all [wk_hmap_buckets wk] w1 = Some w2" "owns base A w2" using owns_free_all by blast
  then show ?thesis using w1(1) by (auto simp: free_tscontext_def bind_eq_Some_conv)
qed

lemma free_contexts_ok:
  "owns base (concat (map wk_owned wks) @ A) w \<Longrightarrow> \<exists>w'. free_contexts wks w = Some w' \<and> owns base A w'"
proof (induction wks arbitrary: w)
  case Nil
  then show ?case by simp
next
  case (Cons wk wks)
  obtain w1 where "free_tscontext wk w = Some (wk\<lparr>wk_hmap_buckets := None\<rparr>, w1)" "owns base (concat (map wk_owned wks) @ A) w1"
    using free_tscontext_ok [of base wk "concat (map wk_owned wks) @ A" w] Cons.prems by auto
  then show ?case using Cons.IH by simp
qed

lemma wk_owned_wake [simp]: "wk_owned (wake_worker wk) = wk_owned wk"
  by (simp add: wake_worker_def wk_owned_def ts_pointers_def)

lemma ts_pointers_wake [simp]: "ts_pointers (wake_worker wk) = ts_pointers wk"
  by (simp add: wake_worker_def ts_pointers_def)

lemma sv_owned_stop [simp]: "sv_owned (stop_server server) = sv_owned server"
  by (simp add: stop_server_def sv_owned_def comp_def)

lemma stop_keeps [simp]:
  "sv_ctxs (stop_server server) = sv_ctxs server" "sv_threads (stop_server server) = sv_threads server"
  "sv_self (stop_server server) = sv_self server"
  by (simp_all add: stop_server_def)

lemma wait_frame:
  assumes "net_server_wait (Some server) w = (r, Some server', w')"
  shows "sv_owned server' = sv_owned server" "sv_workers server' = sv_workers server" "sv_ctxs server' = sv_ctxs server"
    "sv_threads server' = sv_threads server" "sv_self server' = sv_self server"
    "nw_blocks w' = nw_blocks w" "nw_next w' = nw_next w"
  using assms by (auto simp: net_server_wait_def sv_owned_def split: if_splits)

lemma wait_some: "\<exists>r sv w'. net_server_wait (Some server) w = (r, Some sv, w')"
  by (simp add: net_server_wait_def)

lemma destroy_ok:
  assumes "owns base (sv_owned server) w" "sv_ctxs server = None \<longrightarrow> sv_workers server = []"
  shows "\<exists>w'. net_server_destroy (Some server) w = Some w' \<and> nw_blocks w' = base"
proof -
  obtain r sv w0 where w0: "net_server_wait (Some (stop_server server)) w = (r, Some sv, w0)" using wait_some by blast
  note f = wait_frame [OF w0]
  let ?tl = "[sv_ctxs sv, sv_threads sv, Some (sv_self sv)]"
  have "owns base (sv_owned sv) w" using assms(1) f(1) by simp
  then have "owns base (sv_owned sv) w0" by (rule owns_frame [OF _ f(6,7)])
  then have o: "owns base (concat (map wk_owned (sv_workers sv)) @ somes ?tl) w0" by (simp add: sv_owned_def)
  have "sv_ctxs sv = None \<longrightarrow> sv_workers sv = []" using f(2,3) assms(2) by (cases "sv_stopping server") (simp_all add: stop_server_def)
  then obtain w1 where w1: "(if sv_ctxs sv \<noteq> None then free_contexts (sv_workers sv) w0 else Some w0) = Some w1"
      "owns base (somes ?tl) w1"
    using free_contexts_ok [OF o] o by (cases "sv_ctxs sv") auto
  let ?w2 = "if 0 <=s sv_listen_fd sv then w_close (sv_listen_fd sv) w1 else w1"
  have "owns base (somes ?tl) ?w2" by (rule owns_frame [OF w1(2)]) (simp_all add: w_close_def)
  then obtain w3 where "free_all ?tl ?w2 = Some w3" "owns base [] w3" using owns_free_all [of base ?tl "[]" ?w2] by auto
  then show ?thesis using w0 w1(1) by (auto simp: net_server_destroy_def net_server_stop_def owns_def Let_def)
qed

section \<open>Ownership while starting\<close>

lemma sv_owned_update:
  assumes "i < length (sv_workers server)"
  shows "mset (sv_owned (server\<lparr>sv_workers := (sv_workers server)[i := y]\<rparr>)) + mset (wk_owned (sv_workers server ! i)) =
    mset (sv_owned server) + mset (wk_owned y)"
  using mset_concat_update [of i "map wk_owned (sv_workers server)" "wk_owned y"] assms
  by (simp add: sv_owned_def map_update)

lemma ts_zero_owned [simp]: "wk_owned ts_zero = []"
  by (simp add: wk_owned_def ts_pointers_def ts_zero_def)

lemma init_tscontext_owns:
  assumes "owns base (sv_owned server) w" "i < length (sv_workers server)" "sv_workers server ! i = ts_zero"
    "init_tscontext server i w = Some (0, server', w')"
  shows "owns base (sv_owned server') w' \<and>
    (\<exists>wk. server' = server\<lparr>sv_workers := (sv_workers server)[i := wk]\<rparr> \<and> wk_events wk = None)"
proof -
  obtain ps w1 where m: "malloc_all (ts_sizes (sv_queuesize server)) w = (ps, w1)" by fastforce
  obtain b w2 where b: "w_malloc (8 * HMAP_DEFAULT_NBUCKETS) w1 = (b, w2)" by fastforce
  note o1 = owns_malloc_all [OF assms(1) m]
  have o2: "owns base (sv_owned server @ somes (ps @ [b])) w2"
    using owns_malloc [OF conjunct1 [OF o1] b] by (simp del: somes.simps)
  have "length ps = 8" using o1 by (simp add: ts_sizes_def)
  then obtain a0 a1 a2 a3 a4 a5 a6 a7 where ps: "ps = [a0, a1, a2, a3, a4, a5, a6, a7]"
    by (auto simp: numeral_eq_Suc length_Suc_conv)
  define wk where "wk = ts_zero\<lparr>wk_epfd := -1, wk_wake_fd := -1, wk_listen_fd := sv_listen_fd server,
      wk_queuesize := sv_queuesize server, wk_nthreads := sv_nthreads server, wk_pread_que := a0, wk_ins_que := a1,
      wk_outs_que := a2, wk_closes_que := a3, wk_attachs_que := a4, wk_inpkts := a5, wk_inspkts_que := a6,
      wk_inspktlens_que := a7, wk_hmap_ready := True, wk_hmap_buckets := b\<rparr>"
  have r: "server' = server\<lparr>sv_workers := (sv_workers server)[i := wk]\<rparr>" "w' = w2"
    using assms(4) m b
    by (auto simp: init_tscontext_def Let_def ps wk_def bind_eq_Some_conv split: if_splits prod.splits)
  have "wk_owned wk = somes (ps @ [b])" by (simp add: wk_owned_def ts_pointers_def wk_def ps ts_zero_def)
  then have "mset (sv_owned server') = mset (sv_owned server @ somes (ps @ [b]))"
    using sv_owned_update [OF assms(2), of wk] assms(3) r(1) by simp
  then show ?thesis using owns_perm [OF o2] r by (auto simp: wk_def ts_zero_def)
qed

lemma init_contexts_owns:
  assumes "owns base (sv_owned server) w" "\<forall>i \<in> set is. i < length (sv_workers server) \<and> sv_workers server ! i = ts_zero"
    "distinct is" "init_contexts is server w = Some (0, server', w')"
    "\<forall>i < length (sv_workers server). wk_events (sv_workers server ! i) = None"
  shows "owns base (sv_owned server') w' \<and> sv_ctxs server' = sv_ctxs server \<and>
    length (sv_workers server') = length (sv_workers server) \<and>
    (\<forall>i < length (sv_workers server'). wk_events (sv_workers server' ! i) = None)"
  using assms
proof (induction "is" arbitrary: server w)
  case Nil
  then show ?case by simp
next
  case (Cons i "is")
  obtain server1 w1 where 1: "init_tscontext server i w = Some (0, server1, w1)" "init_contexts is server1 w1 = Some (0, server', w')"
    using Cons.prems(4) by (auto simp: bind_eq_Some_conv split: if_splits)
  have i: "i < length (sv_workers server)" "sv_workers server ! i = ts_zero" using Cons.prems(2) by auto
  obtain wk where wk: "owns base (sv_owned server1) w1" "server1 = server\<lparr>sv_workers := (sv_workers server)[i := wk]\<rparr>"
      "wk_events wk = None"
    using init_tscontext_owns [OF Cons.prems(1) i 1(1)] by blast
  have "\<forall>j \<in> set is. j < length (sv_workers server1) \<and> sv_workers server1 ! j = ts_zero"
    using Cons.prems(2,3) wk(2) by (auto simp: nth_list_update)
  moreover have "\<forall>j < length (sv_workers server1). wk_events (sv_workers server1 ! j) = None"
    using Cons.prems(5) wk(2,3) i(1) by (auto simp: nth_list_update)
  ultimately show ?case using Cons.IH [OF wk(1) _ _ 1(2)] Cons.prems(3) wk(2) by simp
qed

lemma create_worker_thread_owns:
  assumes "owns base (sv_owned server) w" "i < length (sv_workers server)" "wk_events (sv_workers server ! i) = None"
    "create_worker_thread E server i w = (epfd, server', w')" "\<not> epfd <s 0"
  shows "owns base (sv_owned server') w' \<and> sv_ctxs server' = sv_ctxs server \<and>
    (\<exists>wk. sv_workers server' = (sv_workers server)[i := wk])"
proof -
  let ?wk = "(sv_workers server ! i)\<lparr>wk_wake_fd := se_eventfd E i, wk_epfd := se_epoll_create E i, wk_index := i\<rparr>"
  let ?w = "w_open (se_eventfd E i) (w_open (se_epoll_create E i) w)"
  obtain ev w3 where ev: "w_malloc (12 * scast (wk_queuesize ?wk)) ?w = (ev, w3)" by fastforce
  have r: "server' = server\<lparr>sv_workers := (sv_workers server)[i := ?wk\<lparr>wk_events := ev\<rparr>],
        sv_started_threads := Suc (sv_started_threads server)\<rparr>" "w' = w3\<lparr>nw_threads := i # nw_threads w3\<rparr>"
    using assms(4,5) ev by (auto simp: create_worker_thread_def Let_def word_sless_alt split: if_splits prod.splits)
  have "owns base (sv_owned server) ?w" by (rule owns_frame [OF assms(1)]) (simp_all add: w_open_def)
  from owns_malloc [OF this ev] have o: "owns base (sv_owned server @ somes [ev]) w'"
    by (rule owns_frame) (simp_all add: r)
  have "mset (wk_owned (?wk\<lparr>wk_events := ev\<rparr>)) = mset (wk_owned (sv_workers server ! i)) + mset (somes [ev])"
    using assms(3) by (cases ev) (simp_all add: wk_owned_def ts_pointers_def)
  then have "mset (sv_owned server') = mset (sv_owned server @ somes [ev])"
    using sv_owned_update [OF assms(2), of "?wk\<lparr>wk_events := ev\<rparr>"] r(1) by (simp add: sv_owned_def)
  then show ?thesis using owns_perm [OF o] r by auto
qed

lemma create_threads_owns:
  assumes "owns base (sv_owned server) w" "\<forall>i \<in> set is. i < length (sv_workers server) \<and> wk_events (sv_workers server ! i) = None"
    "distinct is" "create_threads E is server w = (0, server', w')"
  shows "owns base (sv_owned server') w' \<and> sv_ctxs server' = sv_ctxs server"
  using assms
proof (induction "is" arbitrary: server w)
  case Nil
  then show ?case by simp
next
  case (Cons i "is")
  obtain epfd server1 w1 where 1: "create_worker_thread E server i w = (epfd, server1, w1)" by (metis prod_cases3)
  then have 2: "\<not> epfd <s 0" "create_threads E is server1 w1 = (0, server', w')"
    using Cons.prems(4) by (auto split: if_splits)
  obtain wk where wk: "owns base (sv_owned server1) w1" "sv_ctxs server1 = sv_ctxs server"
      "sv_workers server1 = (sv_workers server)[i := wk]"
    using create_worker_thread_owns [OF Cons.prems(1) _ _ 1 2(1)] Cons.prems(2) by auto
  have "\<forall>j \<in> set is. j < length (sv_workers server1) \<and> wk_events (sv_workers server1 ! j) = None"
    using Cons.prems(2,3) wk(3) by (auto simp: nth_list_update)
  then show ?case using Cons.IH [OF wk(1) _ _ 2(2)] Cons.prems(3) wk(2) by simp
qed

lemma listen_tcp_frame:
  assumes "listen_tcp E h p op w = Some (r, w')"
  shows "nw_blocks w' = nw_blocks w" "nw_next w' = nw_next w"
  using assms by (auto simp: listen_tcp_def Let_def w_open_def split: option.splits if_splits)

lemma net_server_new_owned:
  "sv_owned (net_server_new opt self) = [self]" "sv_ctxs (net_server_new opt self) = None" "sv_self (net_server_new opt self) = self"
  by (simp_all add: sv_owned_def net_server_new_def)

lemma start_failed_not_0 [simp]: "start_failed server w \<noteq> Some (Returns (0, x), w')"
  by (auto simp: start_failed_def)

lemma start_workers_owns:
  assumes o: "owns base (sv_owned server1) w2" and empty: "sv_ctxs server1 = None" "sv_threads server1 = None" "sv_workers server1 = []"
    and ok: "start_workers E server1 w2 = Some (Returns (0, Some server), w')"
  shows "owns base (sv_owned server) w' \<and> sv_ctxs server \<noteq> None"
proof -
  let ?n = "unat (sv_nthreads server1)"
  obtain cs w3 where cs: "w_malloc (of_nat ?n * SIZEOF_tscontext) w2 = (cs, w3)" by fastforce
  obtain ths w4 where ths: "w_malloc (of_nat ?n * 8) w3 = (ths, w4)" by fastforce
  let ?server = "server1\<lparr>sv_ctxs := cs, sv_threads := ths, sv_workers := replicate ?n ts_zero\<rparr>"
  have some: "cs \<noteq> None" "ths \<noteq> None"
    using ok cs ths unfolding start_workers_def Let_def by (auto split: if_splits)
  obtain r server3 w5 where 3: "init_contexts [0..<?n] ?server w4 = Some (r, server3, w5)"
      and r0: "(if r \<noteq> 0 then start_failed server3 w5
        else case create_threads E [0..<?n] server3 w5 of
          (r1, server4, w6) \<Rightarrow> Some (Returns (if r1 \<noteq> 0 then (-1, None) else (0, Some server4)), w6)) =
        Some (Returns (0, Some server), w')"
    using ok cs ths some unfolding start_workers_def Let_def by (auto simp: bind_eq_Some_conv)
  have r: "r = 0" using r0 by (auto split: if_splits)
  then have 4: "create_threads E [0..<?n] server3 w5 = (0, server, w')"
    using r0 by (auto split: prod.splits if_splits)
  have "owns base (sv_owned server1 @ somes [cs]) w3" by (rule owns_malloc [OF o cs])
  note o4 = owns_malloc [OF this ths]
  have "mset ((sv_owned server1 @ somes [cs]) @ somes [ths]) = mset (sv_owned ?server)"
    using empty some by (auto simp: sv_owned_def map_replicate_const)
  from owns_perm [OF o4 this] have "owns base (sv_owned ?server) w4" .
  from init_contexts_owns [OF this _ _ 3 [unfolded r]]
  have "owns base (sv_owned server3) w5 \<and> sv_ctxs server3 = cs \<and> length (sv_workers server3) = ?n \<and>
      (\<forall>i < length (sv_workers server3). wk_events (sv_workers server3 ! i) = None)"
    by (simp add: ts_zero_def)
  then show ?thesis using create_threads_owns [OF _ _ _ 4, of base] some by simp
qed

lemma server_start_destroy:
  assumes "\<forall>a \<ge> nw_next w. nw_blocks w a = None" "net_server_start E opt w = Some (Returns (0, Some server), w')"
  shows "\<exists>w''. net_server_destroy (Some server) w' = Some w'' \<and> nw_blocks w'' = nw_blocks w"
proof -
  let ?base = "nw_blocks w"
  obtain self w1 lr w2 where 1: "w_malloc SIZEOF_NetServer w = (Some self, w1)"
      "listen_tcp E (opt_host opt) (opt_port opt) (sv_bound_port (net_server_new opt self)) w1 = Some (lr, w2)"
    using assms(2) unfolding net_server_start_def Let_def
    by (auto simp: bind_eq_Some_conv split: if_splits prod.splits option.splits)
  then obtain f port where 2: "lr = Returns (f, port)"
    using assms(2) unfolding net_server_start_def Let_def by (cases lr) (auto split: if_splits)
  let ?server = "(net_server_new opt self)\<lparr>sv_listen_fd := f, sv_bound_port := port\<rparr>"
  have 3: "start_workers E ?server w2 = Some (Returns (0, Some server), w')"
    using assms(2) 1 2 unfolding net_server_start_def Let_def by (fastforce split: if_splits)
  have "owns ?base [] w" using assms(1) by (simp add: owns_def restrict_map_def)
  then have "owns ?base [self] w1" using owns_malloc [OF _ 1(1)] by force
  then have "owns ?base [self] w2" by (rule owns_frame) (rule listen_tcp_frame [OF 1(2)])+
  then have "owns ?base (sv_owned ?server) w2" by (simp add: sv_owned_def net_server_new_def)
  from start_workers_owns [OF this _ _ _ 3] have "owns ?base (sv_owned server) w' \<and> sv_ctxs server \<noteq> None"
    by (simp add: net_server_new_def)
  then show ?thesis by (intro destroy_ok) auto
qed

section \<open>Properties\<close>

text \<open>
  C19. Starting the server and releasing it frees every block that the start allocated, each exactly once: the
  heap is as it was before the start, whatever was allocated by others.
\<close>

theorem server_lifecycle_frees_all:
  assumes "\<forall>a \<ge> nw_next w. nw_blocks w a = None" "net_server_start E opt w = Some (Returns (0, Some server), w')"
  shows "\<exists>w''. net_server_destroy (Some server) w' = Some w'' \<and> nw_blocks w'' = nw_blocks w"
  by (rule server_start_destroy [OF assms])

text \<open>A host on which every call succeeds.\<close>

definition good_env :: server_env where
  "good_env =
     \<lparr>se_getaddrinfo = (\<lambda>h p. Some [True]), se_socket = 3, se_setsockopt = True, se_setnonblock = True, se_bind = True,
      se_listen = True, se_getsockname = Some 4567, se_epoll_create = (\<lambda>i. 10), se_eventfd = (\<lambda>i. 11),
      se_add_listen = (\<lambda>i. True), se_add_wake = (\<lambda>i. True), se_pthread_create = (\<lambda>i. True)\<rparr>"

definition fresh_world :: "(nat \<Rightarrow> bool) \<Rightarrow> world" where
  "fresh_world m = \<lparr>nw_blocks = Map.empty, nw_next = 0, nw_malloc = m, nw_calls = 0, nw_fds = [], nw_threads = []\<rparr>"

lemmas start_defs = net_server_start_def listen_options_def w_malloc_def PTRDIFF_LIMIT_def SIZEOF_NetServer_def
  SIZEOF_tscontext_def net_server_new_def listen_tcp_def good_env_def start_workers_def init_tscontext_def ts_sizes_def
  create_worker_thread_def w_open_def fresh_world_def HMAP_DEFAULT_NBUCKETS_def ts_zero_def word_sless_alt

theorem server_lifecycle_frees_all_witness:
  "\<exists>server w' w''. net_server_start good_env (listen_options 1) (fresh_world (\<lambda>n. True)) = Some (Returns (0, Some server), w') \<and>
     net_server_port (Some server) = 4567 \<and> net_server_destroy (Some server) w' = Some w'' \<and> nw_blocks w'' = Map.empty"
proof -
  let ?w = "fresh_world (\<lambda>n. True)"
  have "\<exists>server w'. net_server_start good_env (listen_options 1) ?w = Some (Returns (0, Some server), w') \<and> sv_bound_port server = 4567"
    by (simp add: start_defs)
  then obtain server w' where 1: "net_server_start good_env (listen_options 1) ?w = Some (Returns (0, Some server), w')"
      "sv_bound_port server = 4567" by blast
  have "\<forall>a \<ge> nw_next ?w. nw_blocks ?w a = None" by (simp add: fresh_world_def)
  from server_lifecycle_frees_all [OF this 1(1)] 1 show ?thesis
    by (auto simp: net_server_port_def fresh_world_def)
qed

section \<open>A failed start\<close>

lemma w_free_dead: "w_free p w = Some w' \<Longrightarrow> nw_blocks w a = None \<Longrightarrow> nw_blocks w' a = None"
  by (auto simp: w_free_def split: option.splits if_splits)

lemma free_all_dead:
  "free_all ps w = Some w' \<Longrightarrow> nw_blocks w a = None \<Longrightarrow> nw_blocks w' a = None \<and> Some a \<notin> set ps"
proof (induction ps arbitrary: w)
  case (Cons p ps)
  then obtain w1 where 1: "w_free p w = Some w1" "free_all ps w1 = Some w'" by (auto simp: bind_eq_Some_conv)
  have "p \<noteq> Some a" using 1(1) Cons.prems(2) by (auto simp: w_free_def)
  then show ?case using Cons.IH [OF 1(2) w_free_dead [OF 1(1) Cons.prems(2)]] by auto
qed simp

lemma free_all_frees: "free_all ps w = Some w' \<Longrightarrow> Some a \<in> set ps \<Longrightarrow> nw_blocks w' a = None"
proof (induction ps arbitrary: w)
  case (Cons p ps)
  then obtain w1 where 1: "w_free p w = Some w1" "free_all ps w1 = Some w'" by (auto simp: bind_eq_Some_conv)
  show ?case
  proof (cases "p = Some a")
    case True
    then have "nw_blocks w1 a = None" using 1(1) by (auto simp: w_free_def split: if_splits)
    then show ?thesis using free_all_dead [OF 1(2)] by blast
  next
    case False
    then show ?thesis using Cons.IH [OF 1(2)] Cons.prems(2) by auto
  qed
qed simp

lemma free_tscontext_dead:
  assumes "free_tscontext wk w = Some (wk', w')" "nw_blocks w a = None"
  shows "nw_blocks w' a = None \<and> Some a \<notin> set (ts_pointers wk)"
  using assms free_all_dead [of "ts_pointers wk" w _ a] w_free_dead
  by (auto simp: free_tscontext_def bind_eq_Some_conv)

lemma free_contexts_dead:
  "wk \<in> set wks \<Longrightarrow> Some a \<in> set (ts_pointers wk) \<Longrightarrow> nw_blocks w a = None \<Longrightarrow> free_contexts wks w = None"
proof (induction wks arbitrary: w)
  case (Cons x wks)
  show ?case
  proof (cases "free_tscontext x w")
    case (Some r)
    then obtain x' w1 where r: "free_tscontext x w = Some (x', w1)" by (cases r) auto
    note d = free_tscontext_dead [OF r Cons.prems(3)]
    then have "wk \<in> set wks" using Cons.prems(1,2) by auto
    then show ?thesis using Cons.IH [OF _ Cons.prems(2)] d r by simp
  qed simp
qed simp

text \<open>
  C35. When the memory of a context cannot be allocated completely, the cleanup of the start frees the blocks that had
  been allocated a second time: \<^verbatim>\<open>init_tscontext\<close> releases them and leaves the pointers, and
  \<^verbatim>\<open>net_server_destroy\<close> releases every context again.
\<close>

theorem failed_start_frees_twice:
  assumes "init_tscontext server i w = Some (-1, server', w')" "i < length (sv_workers server)" "sv_ctxs server \<noteq> None"
    "Some a \<in> set (ts_pointers (sv_workers server' ! i))"
  shows "start_failed server' w' = None"
proof -
  obtain wk w1 wk' where wk: "free_tscontext wk w1 = Some (wk', w')" "server' = server\<lparr>sv_workers := (sv_workers server)[i := wk']\<rparr>"
    using assms(1) by (auto simp: init_tscontext_def Let_def bind_eq_Some_conv split: if_splits prod.splits)
  have p: "ts_pointers wk' = ts_pointers wk"
    using wk(1) by (auto simp: free_tscontext_def bind_eq_Some_conv ts_pointers_def)
  have i: "sv_workers server' ! i = wk'" using wk(2) assms(2) by simp
  then obtain w2 where "free_all (ts_pointers wk) w1 = Some w2" "w_free (wk_hmap_buckets wk) w2 = Some w'"
    using wk(1) by (auto simp: free_tscontext_def bind_eq_Some_conv)
  then have dead: "nw_blocks w' a = None"
    using free_all_frees w_free_dead assms(4) unfolding i p by blast
  obtain r sv w0 where w0: "net_server_wait (Some (stop_server server')) w' = (r, Some sv, w0)" using wait_some by blast
  note f = wait_frame [OF w0]
  let ?stopped = "sv_workers (stop_server server')"
  have "\<exists>x \<in> set ?stopped. Some a \<in> set (ts_pointers x)"
    using assms(2,4) wk(2) i set_update_memI [OF assms(2), of wk'] by (auto simp: stop_server_def)
  then have "free_contexts (sv_workers sv) w0 = None"
    using free_contexts_dead [of _ "sv_workers sv" a w0] dead f(2,6) by auto
  moreover have "sv_ctxs sv \<noteq> None" using f(3) wk(2) assms(3) by simp
  ultimately show ?thesis using w0 by (simp add: start_failed_def net_server_destroy_def net_server_stop_def)
qed

theorem failed_start_frees_twice_witness:
  "\<exists>server' w'. init_tscontext ((net_server_new (listen_options 1) 7)\<lparr>sv_ctxs := Some 8, sv_workers := [ts_zero]\<rparr>) 0
      (fresh_world (\<lambda>n. n \<noteq> 3)) = Some (-1, server', w') \<and> start_failed server' w' = None"
proof -
  let ?s = "(net_server_new (listen_options 1) 7)\<lparr>sv_ctxs := Some 8, sv_workers := [ts_zero]\<rparr>"
  have "\<exists>server' w'. init_tscontext ?s 0 (fresh_world (\<lambda>n. n \<noteq> 3)) = Some (-1, server', w') \<and>
      Some 0 \<in> set (ts_pointers (sv_workers server' ! 0))"
    by (simp add: start_defs free_tscontext_def ts_pointers_def w_free_def)
  then show ?thesis using failed_start_frees_twice [of ?s 0] by force
qed

text \<open>
  Stopping sets the flag once and wakes every worker that has an event descriptor: its counter is not zero, so the
  worker's wait returns and the loop meets the flag. A second stop changes nothing.
\<close>

theorem stop_wakes_every_worker:
  assumes "\<not> sv_stopping server" "\<forall>wk \<in> set (sv_workers server). wk_wake wk \<noteq> -1"
  shows "\<exists>server'. net_server_stop (Some server) = Some server' \<and> sv_stopping server' \<and>
    (\<forall>wk \<in> set (sv_workers server'). 0 <=s wk_wake_fd wk \<longrightarrow> wk_wake wk \<noteq> 0) \<and>
    net_server_stop (Some server') = Some server'"
proof -
  have "eventfd_add_one v \<noteq> 0" if "v \<noteq> -1" for v
    using that by (simp add: eventfd_add_one_def add_eq_0_iff2)
  then show ?thesis using assms by (auto simp: net_server_stop_def stop_server_def wake_worker_def)
qed

theorem stop_wakes_every_worker_witness:
  "\<exists>server'. net_server_stop (Some ((net_server_new (listen_options 2) 0)\<lparr>sv_workers := [ts_zero, ts_zero\<lparr>wk_wake_fd := 11\<rparr>]\<rparr>)) =
     Some server' \<and> sv_stopping server' \<and>
   (\<forall>wk \<in> set (sv_workers server'). 0 <=s wk_wake_fd wk \<longrightarrow> wk_wake wk \<noteq> 0)"
  using stop_wakes_every_worker
    [of "(net_server_new (listen_options 2) 0)\<lparr>sv_workers := [ts_zero, ts_zero\<lparr>wk_wake_fd := 11\<rparr>]\<rparr>"]
  by (auto simp: net_server_new_def ts_zero_def)

end
