(* ===== verification/EchoServer.thy ===== *)
theory EchoServer
  imports NetOutput NetServer
begin

text \<open>
  The two example programs of the network library: the server \<^verbatim>\<open>libv/example/server/server.c\<close>, whose callbacks send back
  what they get, and the client \<^verbatim>\<open>libv/example/client/client.c\<close>. The callbacks keep the contracts of NetRound and
  NetOutput, so the server is safe and faithful; its \<^verbatim>\<open>main\<close> goes through the lifecycle of NetServer. The handlers of
  signals, pauses and messages are left out.
\<close>

section \<open>The callbacks of the server\<close>

text \<open>The answers of \<^verbatim>\<open>malloc\<close> to the calls to come.\<close>

record echo_heap =
  ek_malloc :: "nat \<Rightarrow> allocator"
  ek_calls :: nat

definition echo_opened :: "echo_heap on_conn" where
  "echo_opened p conn u = Some (conn, u)"

definition echo_closed :: "echo_heap on_conn" where
  "echo_closed p conn u = Some (conn, u)"

definition echo_process :: "echo_heap on_data" where
  "echo_process p conn data u =
     (let len = of_nat (length data); u1 = u\<lparr>ek_calls := Suc (ek_calls u)\<rparr>
      in case c_malloc (ek_malloc u (ek_calls u)) len of
           None \<Rightarrow> Some (conn\<lparr>nc_closed := True\<rparr>, u1)
         | Some out \<Rightarrow>
             Some (conn\<lparr>nc_out := Some (mem_write 0 data out), nc_outlen := len, nc_outcap := len, nc_outoff := 0\<rparr>, u1))"

lemma echo_process_keeps:
  "\<exists>c' u'. echo_process p c data u = Some (c', u') \<and> nc_fd c' = nc_fd c \<and> (out_ok c \<longrightarrow> out_ok c')"
  by (auto simp: echo_process_def Let_def out_ok_def mem_write_def unsigned_of_nat take_bit_eq_mod split: option.splits)

lemma echo_process_reply:
  assumes "echo_process p c data u = Some (c', u')" "length data < PACKETSIZE" "\<not> nc_closed c'"
  shows "\<not> nc_closed c \<and> unsent c' = data"
proof (cases "c_malloc (ek_malloc u (ek_calls u)) (of_nat (length data))")
  case None
  then show ?thesis using assms by (auto simp: echo_process_def Let_def)
next
  case (Some out)
  have "unat (of_nat (length data) :: u64) = length data"
    using assms(2) by (intro unat_of_nat_u64) (simp add: PACKETSIZE_def)
  then show ?thesis using Some assms by (auto simp: echo_process_def Let_def unsent_def mem_write_def)
qed

interpretation echo_replies: net_replies echo_process echo_opened echo_closed "\<lambda>m u. True" "\<lambda>pkt. pkt"
proof unfold_locales
  show "\<exists>c' u'. echo_process p c pkt u = Some (c', u') \<and> nc_fd c' = nc_fd c \<and> out_ok c' \<and> True" if "out_ok c" for p c pkt u
    using echo_process_keeps that by blast
qed (use echo_process_reply in \<open>auto simp: echo_opened_def echo_closed_def\<close>)

section \<open>The program\<close>

text \<open>\<^verbatim>\<open>atoi\<close>: white space, a sign, digits; a value outside \<^verbatim>\<open>int\<close> is undefined.\<close>

definition is_space :: "u8 \<Rightarrow> bool" where
  "is_space b \<longleftrightarrow> b = 32 \<or> 9 \<le> b \<and> b \<le> 13"

definition is_digit :: "u8 \<Rightarrow> bool" where
  "is_digit b \<longleftrightarrow> 48 \<le> b \<and> b \<le> 57"

definition digits_value :: "bytes \<Rightarrow> int" where
  "digits_value ds = foldl (\<lambda>v d. 10 * v + (uint d - 48)) 0 ds"

definition atoi :: "bytes \<Rightarrow> u32 option" where
  "atoi str =
     (let s1 = dropWhile is_space str;
          (neg, s2) = (case s1 of [] \<Rightarrow> (False, []) | b # bs \<Rightarrow> if b = 45 then (True, bs) else if b = 43 then (False, bs) else (False, s1));
          v = (if neg then -1 else 1) * digits_value (takeWhile is_digit s2)
      in if - (2 ^ 31) \<le> v \<and> v < 2 ^ 31 then Some (word_of_int v) else None)"

text \<open>
  \<^verbatim>\<open>main\<close> of the server: \<open>args\<close> are the arguments after the name of the program; the loop ends when a signal has
  set the flag.
\<close>

definition echo_options :: "bytes list \<Rightarrow> u32 \<Rightarrow> NetListenOptions" where
  "echo_options args nthreads =
     \<lparr>opt_host = Some (if 0 < length args then args ! 0 else map (of_nat \<circ> of_char) ''127.0.0.1''),
      opt_port = Some (if 1 < length args then args ! 1 else map (of_nat \<circ> of_char) ''4567''),
      opt_nthreads = nthreads, opt_queuesize = 128, opt_udata = Some 0, opt_process = Some 0, opt_opened = Some 1, opt_closed = Some 2\<rparr>"

definition echo_main :: "server_env \<Rightarrow> bytes list \<Rightarrow> world \<Rightarrow> (int call \<times> world) option" where
  "echo_main E args w =
     do {
       n \<leftarrow> (if 2 < length args then atoi (args ! 2) else Some 1);
       let nthreads = (if n \<le>s 0 then 1 else n);
       (r, w1) \<leftarrow> net_server_start E (echo_options args nthreads) w;
       case r of
         Aborts \<Rightarrow> Some (Aborts, w1)
       | Returns (rc, server) \<Rightarrow>
           if rc \<noteq> 0 then Some (Returns 1, w1)
           else do {
             let server1 = net_server_stop server;
             w2 \<leftarrow> net_server_destroy server1 w1;
             Some (Returns 0, w2)
           }
     }"

text \<open>The program gives back everything it takes: when it returns success, the heap is as it was when it was called.\<close>

lemma start_workers_some: "start_workers E server w = Some (Returns (0, sv), w') \<Longrightarrow> \<exists>server'. sv = Some server'"
  unfolding start_workers_def Let_def
  by (fastforce simp: start_failed_def bind_eq_Some_conv split: if_splits prod.splits)

lemma net_server_start_some:
  assumes "net_server_start E opt w = Some (Returns (0, sv), w')"
  shows "\<exists>server. sv = Some server"
proof -
  obtain self w1 where 1: "w_malloc SIZEOF_NetServer w = (Some self, w1)"
    using assms unfolding net_server_start_def Let_def by (auto split: if_splits prod.splits option.splits)
  let ?server = "net_server_new opt self"
  obtain lr w2 where 2: "listen_tcp E (opt_host opt) (opt_port opt) (sv_bound_port ?server) w1 = Some (lr, w2)"
    using assms 1 unfolding net_server_start_def Let_def by (auto simp: bind_eq_Some_conv split: if_splits)
  obtain f port where "lr = Returns (f, port)"
    using assms 1 2 unfolding net_server_start_def Let_def by (cases lr) (auto split: if_splits)
  then have "start_workers E (?server\<lparr>sv_listen_fd := f, sv_bound_port := port\<rparr>) w2 = Some (Returns (0, sv), w')"
    using assms 1 2 unfolding net_server_start_def Let_def by (auto simp: start_failed_def split: if_splits)
  then show ?thesis by (rule start_workers_some)
qed

lemma destroy_stopped: "net_server_destroy (net_server_stop (Some server)) w = net_server_destroy (Some server) w"
  by (simp add: net_server_destroy_def net_server_stop_def stop_server_def)

lemma echo_main_frees_all:
  assumes "\<forall>a \<ge> nw_next w. nw_blocks w a = None" "echo_main E args w = Some (Returns 0, w')"
  shows "nw_blocks w' = nw_blocks w"
proof -
  obtain n where n: "(if 2 < length args then atoi (args ! 2) else Some 1) = Some n"
    using assms(2) unfolding echo_main_def by (cases "if 2 < length args then atoi (args ! 2) else Some 1") simp_all
  let ?opt = "echo_options args (if n \<le>s 0 then 1 else n)"
  obtain r w1 where s: "net_server_start E ?opt w = Some (r, w1)"
    using assms(2) n unfolding echo_main_def by (cases "net_server_start E ?opt w") auto
  have m: "(case r of Aborts \<Rightarrow> Some (Aborts, w1) | Returns (rc, server) \<Rightarrow>
      if rc \<noteq> 0 then Some (Returns 1, w1)
      else net_server_destroy (net_server_stop server) w1 \<bind> (\<lambda>w2. Some (Returns 0, w2))) = Some (Returns (0 :: int), w')"
    using assms(2) unfolding echo_main_def n by (cases r) (auto simp: s Let_def split: if_splits)
  then obtain server where r: "r = Returns (0, server)"
    by (auto split: call.splits if_splits)
  obtain sv where sv: "server = Some sv" using net_server_start_some s r by blast
  obtain w2 where "net_server_destroy (Some sv) w1 = Some w2" "nw_blocks w2 = nw_blocks w"
    using server_start_destroy [OF assms(1), of E ?opt sv w1] s r sv by blast
  then show ?thesis using m r sv by (simp add: destroy_stopped)
qed

section \<open>The client\<close>


























section \<open>Properties\<close>

text \<open>
  C13. The echo server is faithful: over any number of rounds, whatever the kernel answers, what has been sent on a connection together
  with what is still to be sent is what was to be sent at the start followed by exactly the bytes received since,
  as long as the connection is open and not marked closed (which happens when memory is refused or the socket fails).
\<close>

theorem echo_server_echoes:
  assumes "write_progress K" "serves echo_process echo_opened echo_closed (\<lambda>m u. True) s"
    "\<forall>w \<in> set ws. \<forall>evs. w_events w = Inr evs \<longrightarrow> distinct (map ev_fd evs)"
    "hmap_get_value (ts_hmap (n_ctx s)) f = Some p" "n_conns s p = Some c" "\<not> nc_closed c"
  shows "\<exists>stopped s' t. ts_worker_loop K True ws s = Some (stopped, s') \<and> n_trace s' = n_trace s @ t \<and>
    (\<forall>c'. n_conns s' p = Some c' \<and> \<not> nc_closed c' \<longrightarrow>
       sent_on f t @ unsent c' = unsent c @ concat (received_on f t))"
  using echo_replies.replies_in_order [OF assms] by simp

text \<open>A worker of the echo server with one connection.\<close>

definition echo_worker :: "echo_heap net" where
  "echo_worker = one_conn
     \<lparr>n_ctx = \<lparr>ts_epfd = 5, ts_wake_fd = 6, ts_index = 0, ts_listen_fd = 4, ts_queuesize = 2, ts_nthreads = 1, ts_events = [],
        pread_que = [], ins_que = [], attachs_que = [], outs_que = [], closes_que = [], inpkts = (\<lambda>i. []),
        inpkts_size = 32768, inspkts_que = [], inspktlens_que = [], ts_process_fn = echo_process, ts_opened_fn = echo_opened,
        ts_closed_fn = echo_closed, ts_ctxs_epfd = [5], ts_hmap = hmap_init_int True 8\<rparr>,
      n_conns = Map.empty, n_next = 0,
      n_user = \<lparr>ek_malloc = (\<lambda>n. \<lparr>alloc_ok = True, alloc_junk = (\<lambda>i. 0), alloc_addr = 0\<rparr>), ek_calls = 0\<rparr>,
      n_next_ctx_index = 0, n_wake = 0, n_trace = [], n_calls = 0\<rparr>"

lemma echo_worker_serves: "serves echo_process echo_opened echo_closed (\<lambda>m u. True) echo_worker"
  using one_conn_map
  by (simp add: serves_def worker_ok_def echo_worker_def one_conn_def linked_def PACKETSIZE_def quiet_conn_def out_ok_def)

lemma echo_round: "\<exists>s'. ts_round slow_kernel [readable 9] echo_worker = Some s' \<and> received_on 9 (n_trace s') = [[104, 105]] \<and>
    n_conns s' 0 = Some (quiet_conn 9 0)"
proof -
  have h: "hmap_get_value (snd (hmap_insert True True (hmap_init_int True 8) (9 :: u32) (0 :: conn_ptr))) 9 = Some 0"
    using one_conn_map by (simp add: hmap_get_value_abs)
  show ?thesis
    apply (simp add: ts_round_def echo_worker_def worker_evals phase_evals h)
    apply (simp add: echo_process_def c_malloc_def PTRDIFF_LIMIT_def mem_write_def Let_def)
    apply (simp add: phase_evals worker_evals flush_conn.simps out_rest_def mem_read_def)
    apply (simp add: phase_evals worker_evals mod_read_def epoll_ctl_def ctl_result_def)
    done
qed

theorem echo_server_echoes_witness:
  "\<exists>s'. ts_worker_loop slow_kernel True
      [\<lparr>w_stopping = False, w_events = Inr [readable 9], w_stopping_after = False\<rparr>] echo_worker = Some (False, s') \<and>
     sent_on 9 (n_trace s') @ unsent (quiet_conn 9 0) = [104, 105]"
proof -
  let ?ws = "[\<lparr>w_stopping = False, w_events = Inr [readable 9], w_stopping_after = False\<rparr>]"
  obtain s1 where s1: "ts_round slow_kernel [readable 9] echo_worker = Some s1" "received_on 9 (n_trace s1) = [[104, 105]]"
      "n_conns s1 0 = Some (quiet_conn 9 0)" using echo_round by blast
  have q: "unat (ts_queuesize (n_ctx echo_worker)) = 2" "n_trace echo_worker = []" "n_conns echo_worker 0 = Some (quiet_conn 9 0)"
    "hmap_get_value (ts_hmap (n_ctx echo_worker)) 9 = Some 0"
    using one_conn_map by (simp_all add: hmap_get_value_abs echo_worker_def one_conn_def)
  have run: "ts_worker_loop slow_kernel True ?ws echo_worker = Some (False, s1)"
    using s1(1) q(1) by (simp add: ts_worker_loop_def)
  have n: "\<not> nc_closed (quiet_conn 9 0)" "unsent (quiet_conn 9 0) = []" by (simp_all add: quiet_conn_def unsent_def)
  from echo_server_echoes [OF slow_kernel_progress echo_worker_serves _ q(4,3) n(1), of ?ws] run q(2) s1(2,3) n
  show ?thesis by (auto simp: readable_def)
qed





end
