(* ===== verification/Shutdown.thy ===== *)
theory Shutdown
  imports NetServer
begin

text \<open>
  Stopping the server while its workers run (\<^verbatim>\<open>libv/src/net/net.c\<close>): the loop of \<^verbatim>\<open>ts_worker_loop\<close> and the body of
  \<^verbatim>\<open>net_server_stop\<close> in atomic steps, interleaved in any order. The flag \<^verbatim>\<open>stopping\<close> and the counters of the event
  descriptors are shared. Every worker has been started, so each has an event descriptor. What a worker does in a round is left to the theories Net and NetRound, where every round ends.
\<close>

section \<open>Workers and callers\<close>

text \<open>
  Where a worker stands: before its event array is allocated, at the head of its loop, in \<^verbatim>\<open>epoll_wait\<close>, in a round (with
  its event descriptor among the events and not yet read, or not), or at the end. A caller of \<^verbatim>\<open>net_server_stop\<close>
  has not begun, is about to wake the worker with a given index, or is done.
\<close>

datatype worker_pc = Starting | AtHead | Waiting | Serving bool | Returned
datatype stop_pc = NotCalled | Waking nat | Stopped

record stop_sys =
  sy_stopping :: bool
  sy_wake :: "u64 list"
  sy_workers :: "worker_pc list"
  sy_callers :: "stop_pc list"

definition set_worker :: "nat \<Rightarrow> worker_pc \<Rightarrow> stop_sys \<Rightarrow> stop_sys" where
  "set_worker w pc s = s\<lparr>sy_workers := (sy_workers s)[w := pc]\<rparr>"

definition set_caller :: "nat \<Rightarrow> stop_pc \<Rightarrow> stop_sys \<Rightarrow> stop_sys" where
  "set_caller t pc s = s\<lparr>sy_callers := (sy_callers s)[t := pc]\<rparr>"

abbreviation worker_at :: "stop_sys \<Rightarrow> nat \<Rightarrow> worker_pc \<Rightarrow> bool" where
  "worker_at s w pc \<equiv> w < length (sy_workers s) \<and> sy_workers s ! w = pc"

abbreviation caller_at :: "stop_sys \<Rightarrow> nat \<Rightarrow> stop_pc \<Rightarrow> bool" where
  "caller_at s t pc \<equiv> t < length (sy_callers s) \<and> sy_callers s ! t = pc"

text \<open>
  The wait may end at any time, with events of sockets or with an error; it may report the event descriptor only when its counter is
  not zero. Reading the descriptor empties it.
\<close>

inductive worker_step :: "stop_sys \<Rightarrow> stop_sys \<Rightarrow> bool" where
  no_event_array: "worker_at s w Starting \<Longrightarrow> worker_step s (set_worker w Returned s)"
| enters_loop: "worker_at s w Starting \<Longrightarrow> worker_step s (set_worker w AtHead s)"
| begins_wait: "worker_at s w AtHead \<Longrightarrow> \<not> sy_stopping s \<Longrightarrow> worker_step s (set_worker w Waiting s)"
| sees_flag: "worker_at s w AtHead \<Longrightarrow> sy_stopping s \<Longrightarrow> worker_step s (set_worker w Returned s)"
| is_interrupted: "worker_at s w Waiting \<Longrightarrow> worker_step s (set_worker w AtHead s)"
| wait_fails: "worker_at s w Waiting \<Longrightarrow> worker_step s (set_worker w (if sy_stopping s then Returned else AtHead) s)"
| gets_events: "worker_at s w Waiting \<Longrightarrow> woken \<longrightarrow> sy_wake s ! w \<noteq> 0 \<Longrightarrow> worker_step s (set_worker w (Serving woken) s)"
| drains: "worker_at s w (Serving True) \<Longrightarrow>
    worker_step s ((set_worker w (Serving False) s)\<lparr>sy_wake := (sy_wake s)[w := 0]\<rparr>)"
| ends_round: "worker_at s w (Serving False) \<Longrightarrow> worker_step s (set_worker w AtHead s)"

text \<open>A caller sets the flag unless somebody else has, and then wakes the workers one by one.\<close>

inductive caller_step :: "stop_sys \<Rightarrow> stop_sys \<Rightarrow> bool" where
  sets_flag: "caller_at s t NotCalled \<Longrightarrow> \<not> sy_stopping s \<Longrightarrow>
    caller_step s ((set_caller t (Waking 0) s)\<lparr>sy_stopping := True\<rparr>)"
| flag_was_set: "caller_at s t NotCalled \<Longrightarrow> sy_stopping s \<Longrightarrow> caller_step s (set_caller t Stopped s)"
| wakes: "caller_at s t (Waking i) \<Longrightarrow> i < length (sy_wake s) \<Longrightarrow>
    caller_step s ((set_caller t (Waking (Suc i)) s)\<lparr>sy_wake := (sy_wake s)[i := eventfd_add_one (sy_wake s ! i)]\<rparr>)"
| all_woken: "caller_at s t (Waking i) \<Longrightarrow> \<not> i < length (sy_wake s) \<Longrightarrow> caller_step s (set_caller t Stopped s)"

inductive stop_step :: "stop_sys \<Rightarrow> stop_sys \<Rightarrow> bool" where
  works: "worker_step s s' \<Longrightarrow> stop_step s s'"
| calls: "caller_step s s' \<Longrightarrow> stop_step s s'"

definition stop_start :: "nat \<Rightarrow> nat \<Rightarrow> stop_sys" where
  "stop_start n k =
     \<lparr>sy_stopping = False, sy_wake = replicate n 0, sy_workers = replicate n Starting, sy_callers = replicate k NotCalled\<rparr>"

section \<open>No wake-up is lost\<close>

text \<open>
  A worker is blocked when it waits and its descriptor has nothing for it: then only the outside world can help. Once the flag is
  set, the callers have woken all workers below their position, and a worker that was woken is not blocked again.
\<close>

definition blocked :: "stop_sys \<Rightarrow> nat \<Rightarrow> bool" where
  "blocked s w \<longleftrightarrow> sy_workers s ! w = Waiting \<and> sy_wake s ! w = 0"

definition stop_inv :: "nat \<Rightarrow> nat \<Rightarrow> stop_sys \<Rightarrow> bool" where
  "stop_inv n k s \<longleftrightarrow> length (sy_workers s) = n \<and> length (sy_wake s) = n \<and> length (sy_callers s) = k \<and>
     (\<forall>w < n. sy_wake s ! w \<noteq> -1) \<and>
     (\<forall>t < k. \<forall>i. sy_callers s ! t = Waking i \<longrightarrow> sy_stopping s \<and> i \<le> n \<and> (\<forall>w < i. \<not> blocked s w)) \<and>
     (sy_stopping s \<longrightarrow> (\<exists>t < k. \<exists>i. sy_callers s ! t = Waking i) \<or> (\<forall>w < n. \<not> blocked s w))"

lemma eventfd_add_one_keeps: "v \<noteq> -1 \<Longrightarrow> eventfd_add_one v \<noteq> -1 \<and> eventfd_add_one v \<noteq> 0"
  using eq_diff_eq [of v "-1" 1] eq_diff_eq [of v 0 1] by (auto simp: eventfd_add_one_def)

lemma stop_inv_start: "stop_inv n k (stop_start n k)"
  by (simp add: stop_inv_def stop_start_def)

lemma set_simps [simp]:
  "sy_workers (set_worker w pc s) = (sy_workers s)[w := pc]" "sy_callers (set_worker w pc s) = sy_callers s"
  "sy_wake (set_worker w pc s) = sy_wake s" "sy_stopping (set_worker w pc s) = sy_stopping s"
  "sy_workers (set_caller t q s) = sy_workers s" "sy_callers (set_caller t q s) = (sy_callers s)[t := q]"
  "sy_wake (set_caller t q s) = sy_wake s" "sy_stopping (set_caller t q s) = sy_stopping s"
  by (simp_all add: set_worker_def set_caller_def)

text \<open>A step of a worker blocks nobody once the flag is set.\<close>

lemma stop_inv_worker:
  assumes "stop_inv n k s" "sy_callers s' = sy_callers s" "sy_stopping s' = sy_stopping s"
    and "length (sy_workers s') = n" "length (sy_wake s') = n" "\<forall>w < n. sy_wake s' ! w \<noteq> -1"
    and "\<And>w. sy_stopping s \<Longrightarrow> w < n \<Longrightarrow> blocked s' w \<Longrightarrow> blocked s w"
  shows "stop_inv n k s'"
proof -
  have "\<not> blocked s' w" if "sy_callers s ! t = Waking i" "t < k" "w < i" for t i w
  proof -
    have "sy_stopping s" "w < n" "\<not> blocked s w" using assms(1) that by (auto simp: stop_inv_def)
    then show ?thesis using assms(7) by blast
  qed
  then show ?thesis using assms unfolding stop_inv_def by simp blast
qed

lemma stop_inv_worker_step:
  assumes "worker_step s s'" "stop_inv n k s"
  shows "stop_inv n k s'"
  using assms
  by (induction rule: worker_step.induct)
    (rule stop_inv_worker [of n k], auto simp: stop_inv_def blocked_def nth_list_update split: if_splits)

lemma stop_inv_caller_step:
  assumes "caller_step s s'" "stop_inv n k s"
  shows "stop_inv n k s'"
  using assms
proof (induction rule: caller_step.induct)
  case (sets_flag s t)
  then show ?case by (auto simp: stop_inv_def blocked_def nth_list_update)
next
  case (flag_was_set s t)
  then have "(sy_callers s)[t := Stopped] ! t' = Waking i \<longleftrightarrow> sy_callers s ! t' = Waking i" for t' i
    by (cases "t' = t") simp_all
  then show ?case using flag_was_set by (simp add: stop_inv_def blocked_def)
next
  case (wakes s t i)
  have "sy_wake s ! i \<noteq> -1" using wakes by (simp add: stop_inv_def)
  note v = eventfd_add_one_keeps [OF this]
  then show ?case using wakes by (auto simp: stop_inv_def blocked_def nth_list_update less_Suc_eq)
next
  case (all_woken s t i)
  then show ?case by (auto simp: stop_inv_def blocked_def nth_list_update)
qed

lemma stop_inv_step: "stop_step s s' \<Longrightarrow> stop_inv n k s \<Longrightarrow> stop_inv n k s'"
  by (elim stop_step.cases) (auto intro: stop_inv_worker_step stop_inv_caller_step)

inductive stop_reach :: "nat \<Rightarrow> nat \<Rightarrow> stop_sys \<Rightarrow> bool" for n k where
  at_start: "stop_reach n k (stop_start n k)"
| after_step: "stop_reach n k s \<Longrightarrow> stop_step s s' \<Longrightarrow> stop_reach n k s'"

lemma stop_reach_inv: "stop_reach n k s \<Longrightarrow> stop_inv n k s"
  by (induction rule: stop_reach.induct) (auto intro: stop_inv_start stop_inv_step)

section \<open>How long it takes\<close>

fun worker_left :: "worker_pc \<Rightarrow> nat" where
  "worker_left Starting = 2"
| "worker_left AtHead = 1"
| "worker_left Waiting = 4"
| "worker_left (Serving woken) = (if woken then 3 else 2)"
| "worker_left Returned = 0"

fun caller_left :: "nat \<Rightarrow> stop_pc \<Rightarrow> nat" where
  "caller_left n NotCalled = 1"
| "caller_left n (Waking i) = Suc (n - i)"
| "caller_left n Stopped = 0"

definition stop_left :: "nat \<Rightarrow> stop_sys \<Rightarrow> nat" where
  "stop_left n s = sum_list (map worker_left (sy_workers s)) + sum_list (map (caller_left n) (sy_callers s))"

lemma sum_list_map_update_less:
  fixes f :: "'a \<Rightarrow> nat"
  assumes "i < length xs" "f x < f (xs ! i)"
  shows "sum_list (map f (xs[i := x])) < sum_list (map f xs)"
proof -
  have "f (xs ! i) \<le> sum_list (map f xs)" using assms(1) by (intro member_le_sum_list) simp_all
  then show ?thesis using assms by (simp add: map_update sum_list_update)
qed

lemma stop_step_left:
  assumes "stop_step s s'" "stop_inv n k s" "sy_stopping s"
  shows "sy_stopping s' \<and> stop_left n s' < stop_left n s"
  using assms(1)
proof cases
  case works
  then show ?thesis using assms(3)
    by (induction rule: worker_step.induct) (simp_all add: stop_left_def sum_list_map_update_less)
next
  case calls
  then show ?thesis using assms(2,3)
    by (induction rule: caller_step.induct) (simp_all add: stop_left_def stop_inv_def sum_list_map_update_less)
qed

lemma stop_left_bound: "stop_inv n k s \<Longrightarrow> stop_left n s \<le> 4 * n + Suc n * k"
proof -
  have bound: "sum_list (map f xs) \<le> c * length xs" if "\<And>x. f x \<le> c" for f :: "'x \<Rightarrow> nat" and c xs
    using that by (induction xs) (simp_all add: add_mono)
  have "worker_left x \<le> 4" for x by (cases x) simp_all
  moreover have "caller_left n y \<le> Suc n" for y by (cases y) simp_all
  moreover assume "stop_inv n k s"
  ultimately show ?thesis
    using bound [of worker_left 4 "sy_workers s"] bound [of "caller_left n" "Suc n" "sy_callers s"]
    by (simp add: stop_inv_def stop_left_def add_mono)
qed

text \<open>Nobody can go on without help from outside: every worker has returned or is blocked, every caller that began is done.\<close>

definition stop_stuck :: "stop_sys \<Rightarrow> bool" where
  "stop_stuck s \<longleftrightarrow> (\<forall>w < length (sy_workers s). sy_workers s ! w = Returned \<or> blocked s w) \<and>
     (\<forall>t < length (sy_callers s). \<forall>i. sy_callers s ! t \<noteq> Waking i)"

lemma not_stuck_steps:
  assumes "stop_inv n k s" "sy_stopping s" "\<not> stop_stuck s"
  shows "\<exists>s'. stop_step s s'"
proof (cases "\<exists>t i. caller_at s t (Waking i)")
  case True
  then show ?thesis using calls [OF wakes] calls [OF all_woken] by meson
next
  case False
  with assms(3) obtain w where w: "w < length (sy_workers s)" "sy_workers s ! w \<noteq> Returned" "\<not> blocked s w"
    by (auto simp: stop_stuck_def)
  show ?thesis
  proof (cases "sy_workers s ! w")
    case Starting
    then show ?thesis using works [OF enters_loop] w(1) by blast
  next
    case AtHead
    then show ?thesis using works [OF sees_flag] w(1) assms(2) by blast
  next
    case Waiting
    then show ?thesis using works [OF is_interrupted] w(1) by blast
  next
    case (Serving woken)
    then show ?thesis using works [OF drains [of w s]] works [OF ends_round [of w s]] w(1) by (cases woken) auto
  qed (use w(2) in simp)
qed

lemma steps_left:
  assumes "(stop_step ^^ l) s s'" "stop_inv n k s" "sy_stopping s"
  shows "stop_inv n k s' \<and> sy_stopping s' \<and> l + stop_left n s' \<le> stop_left n s"
  using assms(1)
proof (induction l arbitrary: s')
  case 0
  then show ?case using assms by simp
next
  case (Suc l)
  then obtain s1 where s1: "(stop_step ^^ l) s s1" "stop_step s1 s'" by auto
  with Suc.IH [OF s1(1)] stop_inv_step [OF s1(2)] stop_step_left [OF s1(2)] show ?case by fastforce
qed

section \<open>A call that is not interrupted\<close>

lemma wakes_rest:
  assumes "caller_at s t (Waking i)" "i \<le> length (sy_wake s)"
  shows "stop_step\<^sup>*\<^sup>* s ((set_caller t Stopped s)\<lparr>sy_wake := take i (sy_wake s) @ map eventfd_add_one (drop i (sy_wake s))\<rparr>)"
  using assms
proof (induction "length (sy_wake s) - i" arbitrary: s i)
  case 0
  then have "stop_step s (set_caller t Stopped s)" using calls [OF all_woken] by simp
  then show ?case using 0 by (simp add: set_caller_def r_into_rtranclp)
next
  case (Suc d)
  let ?s = "(set_caller t (Waking (Suc i)) s)\<lparr>sy_wake := (sy_wake s)[i := eventfd_add_one (sy_wake s ! i)]\<rparr>"
  have i: "i < length (sy_wake s)" using Suc(2) by linarith
  have "stop_step s ?s" by (rule calls [OF wakes [OF Suc.prems(1) i]])
  moreover have "stop_step\<^sup>*\<^sup>* ?s ((set_caller t Stopped ?s)\<lparr>sy_wake := take (Suc i) (sy_wake ?s) @ map eventfd_add_one (drop (Suc i) (sy_wake ?s))\<rparr>)"
    using Suc i by (intro Suc(1)) simp_all
  moreover have "(set_caller t Stopped ?s)\<lparr>sy_wake := take (Suc i) (sy_wake ?s) @ map eventfd_add_one (drop (Suc i) (sy_wake ?s))\<rparr> =
      (set_caller t Stopped s)\<lparr>sy_wake := take i (sy_wake s) @ map eventfd_add_one (drop i (sy_wake s))\<rparr>"
    using i by (simp add: set_caller_def take_Suc_conv_app_nth Cons_nth_drop_Suc [symmetric])
  ultimately show ?case by simp
qed

text \<open>Alone, a call does what \<^verbatim>\<open>stop_server\<close> says.\<close>

lemma stop_alone:
  assumes "caller_at s t NotCalled" "\<not> sy_stopping s" "\<not> sv_stopping server"
    and "sy_wake s = map wk_wake (sv_workers server)" "\<forall>wk \<in> set (sv_workers server). 0 <=s wk_wake_fd wk"
  shows "\<exists>s'. stop_step\<^sup>*\<^sup>* s s' \<and> sy_stopping s' = sv_stopping (stop_server server) \<and>
    sy_wake s' = map wk_wake (sv_workers (stop_server server)) \<and> sy_workers s' = sy_workers s"
proof -
  let ?s = "(set_caller t (Waking 0) s)\<lparr>sy_stopping := True\<rparr>"
  have "stop_step\<^sup>*\<^sup>* ?s ((set_caller t Stopped ?s)\<lparr>sy_wake := map eventfd_add_one (sy_wake ?s)\<rparr>)"
    using wakes_rest [where s = ?s and t = t and i = 0] assms(1) by simp
  with calls [OF sets_flag [OF assms(1,2)]] have "stop_step\<^sup>*\<^sup>* s ((set_caller t Stopped ?s)\<lparr>sy_wake := map eventfd_add_one (sy_wake ?s)\<rparr>)"
    by (rule converse_rtranclp_into_rtranclp)
  moreover have "map eventfd_add_one (sy_wake s) = map wk_wake (sv_workers (stop_server server))"
    using assms(3-5) by (simp add: stop_server_def wake_worker_def)
  ultimately show ?thesis
    using assms(3) by (intro exI [of _ "(set_caller t Stopped ?s)\<lparr>sy_wake := map eventfd_add_one (sy_wake ?s)\<rparr>"])
      (simp add: stop_server_def)
qed

section \<open>Properties\<close>

text \<open>
  C9. Stopping ends every worker. However the workers, the calls of \<^verbatim>\<open>net_server_stop\<close> and the kernel's answers interleave: once
  the flag is set, only a bounded number of steps is left, somebody can always go on without help from outside until all workers
  have returned, and no wake-up is lost. So \<^verbatim>\<open>net_server_wait\<close>, which joins the threads, returns.
\<close>

theorem stop_ends_every_worker:
  assumes "stop_reach n k s" "sy_stopping s" "(stop_step ^^ l) s s'"
  shows "l \<le> 4 * n + Suc n * k \<and> (stop_stuck s' \<longrightarrow> (\<forall>w < n. sy_workers s' ! w = Returned)) \<and>
    (\<not> stop_stuck s' \<longrightarrow> (\<exists>s''. stop_step s' s''))"
proof -
  from steps_left [OF assms(3) stop_reach_inv [OF assms(1)] assms(2)] have
    s': "stop_inv n k s'" "sy_stopping s'" "l + stop_left n s' \<le> stop_left n s" by simp_all
  have "\<forall>w < n. sy_workers s' ! w = Returned" if "stop_stuck s'"
    using s'(1,2) that unfolding stop_inv_def stop_stuck_def by metis
  moreover have "l \<le> 4 * n + Suc n * k" using s'(3) stop_left_bound [OF stop_reach_inv [OF assms(1)]] by linarith
  ultimately show ?thesis using not_stuck_steps [OF s'(1,2)] by blast
qed

text \<open>Two workers: one waits, the other is at the head of its loop when the flag is set.\<close>

definition stopping_pair :: "worker_pc \<Rightarrow> worker_pc \<Rightarrow> stop_pc \<Rightarrow> u64 list \<Rightarrow> bool \<Rightarrow> stop_sys" where
  "stopping_pair a b c ws flag = \<lparr>sy_stopping = flag, sy_wake = ws, sy_workers = [a, b], sy_callers = [c]\<rparr>"

lemma stopping_pair_reach: "stop_reach 2 1 (stopping_pair Waiting AtHead (Waking 0) [0, 0] True)"
proof -
  have "stop_reach 2 1 (stopping_pair Starting Starting NotCalled [0, 0] False)"
    using at_start [of 2 1] by (simp add: stop_start_def stopping_pair_def numeral_2_eq_2)
  from after_step [OF this works [OF enters_loop [where w = 0]]] have "stop_reach 2 1 (stopping_pair AtHead Starting NotCalled [0, 0] False)"
    by (simp add: stopping_pair_def set_worker_def)
  from after_step [OF this works [OF begins_wait [where w = 0]]] have "stop_reach 2 1 (stopping_pair Waiting Starting NotCalled [0, 0] False)"
    by (simp add: stopping_pair_def set_worker_def)
  from after_step [OF this works [OF enters_loop [where w = 1]]] have "stop_reach 2 1 (stopping_pair Waiting AtHead NotCalled [0, 0] False)"
    by (simp add: stopping_pair_def set_worker_def)
  from after_step [OF this calls [OF sets_flag [where t = 0]]] show ?thesis by (simp add: stopping_pair_def set_caller_def)
qed

theorem stop_ends_every_worker_witness:
  "stop_left 2 (stopping_pair Waiting AtHead (Waking 0) [0, 0] True) = 8 \<and>
   blocked (stopping_pair Waiting AtHead (Waking 0) [0, 0] True) 0 \<and>
   stop_step (stopping_pair Waiting AtHead (Waking 0) [0, 0] True) (stopping_pair Waiting AtHead (Waking 1) [1, 0] True) \<and>
   \<not> blocked (stopping_pair Waiting AtHead (Waking 1) [1, 0] True) 0 \<and>
   (\<exists>s''. stop_step (stopping_pair Waiting AtHead (Waking 1) [1, 0] True) s'')"
proof -
  let ?s = "stopping_pair Waiting AtHead (Waking 0) [0, 0] True" and ?s' = "stopping_pair Waiting AtHead (Waking 1) [1, 0] True"
  have st: "stop_step ?s ?s'" using calls [OF wakes [where s = ?s and t = 0 and i = 0]] by (simp add: stopping_pair_def set_caller_def eventfd_add_one_def)
  have "\<not> stop_stuck ?s'" by (auto simp: stop_stuck_def stopping_pair_def)
  moreover have "(stop_step ^^ 1) ?s ?s'" using st by (simp only: relpowp_1)
  ultimately have "\<exists>s''. stop_step ?s' s''"
    using stop_ends_every_worker [OF stopping_pair_reach, of 1 ?s'] by (simp add: stopping_pair_def)
  moreover have "stop_left 2 ?s = 8" "blocked ?s 0" "\<not> blocked ?s' 0"
    by (simp_all add: stop_left_def stopping_pair_def blocked_def)
  ultimately show ?thesis using st by simp
qed

end
