(* ===== verification/Alloc.thy ===== *)
theory Alloc
  imports Prelude "HOL-Library.Monad_Syntax"
begin

text \<open>
  The counting allocator of \<^verbatim>\<open>src/utils/alloc.c\<close>. A block is its header (the size of the user's part) with
  the user's bytes; a pointer is the number of the block. A null pointer is \<^term>\<open>None\<close>; a pointer to
  a freed block makes an operation undefined, the outer \<^term>\<open>None\<close>. The system's allocator serves the
  \<open>n\<close>-th request as \<open>ms_env\<close> says, never beyond the address space. A weak compare-and-swap may fail
  although the value is as expected; \<open>ms_weak\<close> gives how often it does. The compile-time switch
  \<^verbatim>\<open>MUSTDB_ENABLE_ALLOC_FAULTS\<close> is a parameter.
\<close>

section \<open>State\<close>

type_synonym ptr = nat

record MAllocStats =
  alloc_count :: u64
  free_count :: u64
  realloc_count :: u64
  bytes_live :: u64
  bytes_peak :: u64

record AllocHdr =
  hdr_size :: usize
  hdr_user :: bytes

record malloc_state =
  ms_blocks :: "ptr \<rightharpoonup> AllocHdr"
  ms_next :: ptr
  ms_used :: nat
  ms_stats :: MAllocStats
  ms_fault :: "64 word"
  ms_env :: "nat \<Rightarrow> allocator"
  ms_weak :: "nat \<Rightarrow> nat"
  ms_calls :: nat

definition SIZEOF_AllocHdr :: usize where
  "SIZEOF_AllocHdr = 8"

section \<open>Statistics\<close>

text \<open>\<open>k\<close> is the number of spurious failures to come; a failure loads the value again.\<close>

fun update_mem_peak_loop :: "nat \<Rightarrow> u64 \<Rightarrow> u64 \<Rightarrow> u64" where
  "update_mem_peak_loop k live peak =
     (if peak < live then (case k of 0 \<Rightarrow> live | Suc k' \<Rightarrow> update_mem_peak_loop k' live peak) else peak)"

definition update_mem_peak :: "nat \<Rightarrow> u64 \<Rightarrow> MAllocStats \<Rightarrow> MAllocStats" where
  "update_mem_peak k live st = st\<lparr>bytes_peak := update_mem_peak_loop k live (bytes_peak st)\<rparr>"

fun mem_should_fail_loop :: "nat \<Rightarrow> 64 word \<Rightarrow> bool \<times> 64 word" where
  "mem_should_fail_loop k countdown =
     (if countdown <s 0 then (False, countdown)
      else if countdown = 0 then (True, countdown)
      else (case k of 0 \<Rightarrow> (False, countdown - 1) | Suc k' \<Rightarrow> mem_should_fail_loop k' countdown))"

definition mem_should_fail :: "malloc_state \<Rightarrow> bool \<times> malloc_state" where
  "mem_should_fail s =
     (case mem_should_fail_loop (ms_weak s (ms_calls s)) (ms_fault s) of
        (r, c) \<Rightarrow> (r, s\<lparr>ms_fault := c, ms_calls := Suc (ms_calls s)\<rparr>))"

definition alloc_mem_stats :: "nat \<Rightarrow> usize \<Rightarrow> MAllocStats \<Rightarrow> MAllocStats" where
  "alloc_mem_stats k sz st =
     (let st1 = st\<lparr>alloc_count := alloc_count st + 1\<rparr>;
          live = bytes_live st1 + sz
      in update_mem_peak k live (st1\<lparr>bytes_live := live\<rparr>))"

fun sub_mem_stats_live_loop :: "nat \<Rightarrow> usize \<Rightarrow> u64 \<Rightarrow> u64" where
  "sub_mem_stats_live_loop k sz old_live =
     (let new_live = (if sz \<le> old_live then old_live - sz else 0)
      in case k of 0 \<Rightarrow> new_live | Suc k' \<Rightarrow> sub_mem_stats_live_loop k' sz old_live)"

definition sub_mem_stats_live :: "nat \<Rightarrow> usize \<Rightarrow> MAllocStats \<Rightarrow> MAllocStats" where
  "sub_mem_stats_live k sz st = st\<lparr>bytes_live := sub_mem_stats_live_loop k sz (bytes_live st)\<rparr>"

definition free_mem_stats :: "nat \<Rightarrow> usize \<Rightarrow> MAllocStats \<Rightarrow> MAllocStats" where
  "free_mem_stats k sz st = sub_mem_stats_live k sz (st\<lparr>free_count := free_count st + 1\<rparr>)"

section \<open>Allocation\<close>

definition sys_fits :: "nat \<Rightarrow> usize \<Rightarrow> bool" where
  "sys_fits used n \<longleftrightarrow> used + unat n < 2 ^ 64"

definition hdr_malloc :: "usize \<Rightarrow> malloc_state \<Rightarrow> ptr option \<times> malloc_state" where
  "hdr_malloc sz s =
     (if (-1) - SIZEOF_AllocHdr < sz then (None, s)
      else
        let total = SIZEOF_AllocHdr + sz; s1 = s\<lparr>ms_calls := Suc (ms_calls s)\<rparr>
        in case c_malloc (ms_env s (ms_calls s)) total of
             None \<Rightarrow> (None, s1)
           | Some d \<Rightarrow>
               if \<not> sys_fits (ms_used s) total then (None, s1)
               else
                 let p = ms_next s1
                 in (Some p,
                     s1\<lparr>ms_blocks := (ms_blocks s1)(p \<mapsto> \<lparr>hdr_size = sz, hdr_user = drop (unat SIZEOF_AllocHdr) d\<rparr>),
                        ms_next := Suc p, ms_used := ms_used s1 + unat total,
                        ms_stats := alloc_mem_stats (ms_weak s1 (ms_calls s1)) sz (ms_stats s1)\<rparr>))"

definition check_fault :: "bool \<Rightarrow> malloc_state \<Rightarrow> bool \<times> malloc_state" where
  "check_fault faults s = (if faults then mem_should_fail s else (False, s))"

definition mmalloc :: "bool \<Rightarrow> usize \<Rightarrow> malloc_state \<Rightarrow> ptr option \<times> malloc_state" where
  "mmalloc faults sz s0 =
     (case check_fault faults s0 of (fail, s) \<Rightarrow> if fail then (None, s) else hdr_malloc sz s)"

definition mcalloc :: "bool \<Rightarrow> usize \<Rightarrow> usize \<Rightarrow> malloc_state \<Rightarrow> ptr option \<times> malloc_state" where
  "mcalloc faults count sz s =
     (if count \<noteq> 0 \<and> (-1) div count < sz then (None, s)
      else
        let n = count * sz
        in case mmalloc faults n s of
             (None, s1) \<Rightarrow> (None, s1)
           | (Some p, s1) \<Rightarrow>
               (Some p, s1\<lparr>ms_blocks := (ms_blocks s1)(p := map_option (\<lambda>b. b\<lparr>hdr_user := replicate (unat n) 0\<rparr>) (ms_blocks s1 p))\<rparr>))"

definition mfree :: "ptr option \<Rightarrow> malloc_state \<Rightarrow> malloc_state option" where
  "mfree p s =
     (case p of
        None \<Rightarrow> Some s
      | Some a \<Rightarrow>
          do {
            hdr \<leftarrow> ms_blocks s a;
            let sz = hdr_size hdr;
            Some (s\<lparr>ms_stats := free_mem_stats (ms_weak s (ms_calls s)) sz (ms_stats s),
                    ms_calls := Suc (ms_calls s),
                    ms_blocks := (ms_blocks s)(a := None),
                    ms_used := ms_used s - unat (SIZEOF_AllocHdr + sz)\<rparr>)
          })"

text \<open>The moved block keeps the common prefix; its number changes when the system moves it.\<close>

text \<open>The part of \<^verbatim>\<open>mrealloc\<close> after the guards; \<open>realloc_stats\<close> is its accounting.\<close>

definition realloc_stats :: "nat \<Rightarrow> usize \<Rightarrow> usize \<Rightarrow> MAllocStats \<Rightarrow> MAllocStats" where
  "realloc_stats k old_size sz st0 =
     (let st = st0\<lparr>realloc_count := realloc_count st0 + 1\<rparr>
      in if old_size \<le> sz
         then let live = bytes_live st + (sz - old_size) in update_mem_peak k live (st\<lparr>bytes_live := live\<rparr>)
         else sub_mem_stats_live k (old_size - sz) st)"

definition hdr_realloc :: "ptr \<Rightarrow> AllocHdr \<Rightarrow> usize \<Rightarrow> malloc_state \<Rightarrow> ptr option \<times> malloc_state" where
  "hdr_realloc a old_hdr sz s =
     (if (-1) - SIZEOF_AllocHdr < sz then (None, s)
      else
        let old_size = hdr_size old_hdr; total = SIZEOF_AllocHdr + sz; s1 = s\<lparr>ms_calls := Suc (ms_calls s)\<rparr>;
            used = ms_used s - unat (SIZEOF_AllocHdr + old_size)
        in case c_realloc (ms_env s (ms_calls s)) (Some (word_bytes old_size @ hdr_user old_hdr)) total of
             None \<Rightarrow> (None, s1)
           | Some d \<Rightarrow>
               if \<not> sys_fits used total then (None, s1)
               else
                 let q = ms_next s1
                 in (Some q,
                     s1\<lparr>ms_blocks := ((ms_blocks s1)(a := None))(q \<mapsto> \<lparr>hdr_size = sz, hdr_user = drop (unat SIZEOF_AllocHdr) d\<rparr>),
                        ms_next := Suc q, ms_used := used + unat total,
                        ms_stats := realloc_stats (ms_weak s1 (ms_calls s1)) old_size sz (ms_stats s1)\<rparr>))"

text \<open>The moved block keeps the common prefix; it gets a new number.\<close>

definition mrealloc :: "bool \<Rightarrow> ptr option \<Rightarrow> usize \<Rightarrow> malloc_state \<Rightarrow> (ptr option \<times> malloc_state) option" where
  "mrealloc faults p sz s0 =
     (case p of
        None \<Rightarrow> Some (mmalloc faults sz s0)
      | Some a \<Rightarrow>
          if sz = 0 then map_option (\<lambda>s1. (None, s1)) (mfree p s0)
          else
            case check_fault faults s0 of
              (fail, s) \<Rightarrow> if fail then Some (None, s) else map_option (\<lambda>h. hdr_realloc a h sz s) (ms_blocks s a))"

record MAllocStatsSnap =
  snap_alloc_count :: u64
  snap_free_count :: u64
  snap_realloc_count :: u64
  snap_bytes_live :: u64
  snap_bytes_peak :: u64

definition get_mem_stats :: "malloc_state \<Rightarrow> MAllocStatsSnap" where
  "get_mem_stats s =
     (let st = ms_stats s
      in \<lparr>snap_alloc_count = alloc_count st, snap_free_count = free_count st, snap_realloc_count = realloc_count st,
          snap_bytes_live = bytes_live st, snap_bytes_peak = bytes_peak st\<rparr>)"

definition set_mem_fault_countdown :: "bool \<Rightarrow> 64 word \<Rightarrow> malloc_state \<Rightarrow> malloc_state" where
  "set_mem_fault_countdown faults countdown s = (if faults then s\<lparr>ms_fault := countdown\<rparr> else s)"

definition clear_mem_fault :: "bool \<Rightarrow> malloc_state \<Rightarrow> malloc_state" where
  "clear_mem_fault faults s = (if faults then s\<lparr>ms_fault := -1\<rparr> else s)"

section \<open>Many threads at the countdown\<close>

text \<open>
  The loop of \<^verbatim>\<open>mem_should_fail\<close> in atomic steps of many threads: a thread loads the shared counter, and then returns or
  tries to store the value less one. A failed attempt loads what is there.
\<close>

datatype fault_pc = Calling | Loaded int

record fault_sys =
  fs_countdown :: int
  fs_pc :: "nat \<Rightarrow> fault_pc"
  fs_granted :: nat
  fs_refused :: nat

inductive fault_step :: "fault_sys \<Rightarrow> fault_sys \<Rightarrow> bool" where
  load: "fs_pc s t = Calling \<Longrightarrow> fault_step s (s\<lparr>fs_pc := (fs_pc s)(t := Loaded (fs_countdown s))\<rparr>)"
| disabled: "fs_pc s t = Loaded c \<Longrightarrow> c < 0 \<Longrightarrow>
    fault_step s (s\<lparr>fs_pc := (fs_pc s)(t := Calling), fs_granted := Suc (fs_granted s)\<rparr>)"
| refuse: "fs_pc s t = Loaded 0 \<Longrightarrow>
    fault_step s (s\<lparr>fs_pc := (fs_pc s)(t := Calling), fs_refused := Suc (fs_refused s)\<rparr>)"
| swap: "fs_pc s t = Loaded c \<Longrightarrow> 0 < c \<Longrightarrow> fs_countdown s = c \<Longrightarrow>
    fault_step s (s\<lparr>fs_countdown := c - 1, fs_pc := (fs_pc s)(t := Calling), fs_granted := Suc (fs_granted s)\<rparr>)"
| retry: "fs_pc s t = Loaded c \<Longrightarrow> 0 < c \<Longrightarrow> fault_step s (s\<lparr>fs_pc := (fs_pc s)(t := Loaded (fs_countdown s))\<rparr>)"

definition fault_start :: "int \<Rightarrow> fault_sys" where
  "fault_start n = \<lparr>fs_countdown = n, fs_pc = (\<lambda>t. Calling), fs_granted = 0, fs_refused = 0\<rparr>"

inductive fault_reachable :: "int \<Rightarrow> fault_sys \<Rightarrow> bool" for n where
  start: "fault_reachable n (fault_start n)"
| step: "fault_reachable n s \<Longrightarrow> fault_step s s' \<Longrightarrow> fault_reachable n s'"

inductive_cases fault_stepE: "fault_step s s'"

text \<open>Every counter a thread holds is at least the shared one, and what was taken off it was granted.\<close>

definition fault_inv :: "int \<Rightarrow> fault_sys \<Rightarrow> bool" where
  "fault_inv n s \<longleftrightarrow>
     0 \<le> fs_countdown s \<and> int (fs_granted s) + fs_countdown s = n \<and>
     (\<forall>t c. fs_pc s t = Loaded c \<longrightarrow> fs_countdown s \<le> c) \<and> (0 < fs_refused s \<longrightarrow> fs_countdown s = 0)"

lemma fault_inv_step: "fault_inv n s \<Longrightarrow> fault_step s s' \<Longrightarrow> fault_inv n s'"
  by (erule fault_stepE) (fastforce simp: fault_inv_def split: if_splits)+

lemma fault_reachable_inv: "fault_reachable n s \<Longrightarrow> 0 \<le> n \<Longrightarrow> fault_inv n s"
proof (induction rule: fault_reachable.induct)
  case start
  then show ?case by (simp add: fault_inv_def fault_start_def)
next
  case (step s s')
  then show ?case using fault_inv_step by blast
qed

text \<open>
  C28. With the countdown set to \<open>n\<close>, however many threads allocate at the same time and however their steps
  interleave, at most \<open>n\<close> allocations are let through, and none is refused before exactly \<open>n\<close> have been let through.
\<close>

theorem fault_countdown_exact:
  assumes "fault_reachable n s" "0 \<le> n"
  shows "int (fs_granted s) \<le> n \<and> (0 < fs_refused s \<longrightarrow> int (fs_granted s) = n)"
  using fault_reachable_inv [OF assms] by (auto simp: fault_inv_def)

theorem fault_countdown_exact_witness:
  "\<exists>s. fault_reachable 1 s \<and> fs_refused s = 1 \<and> int (fs_granted s) = 1"
proof -
  define s1 where "s1 = (fault_start 1)\<lparr>fs_pc := (fs_pc (fault_start 1))(0 := Loaded 1)\<rparr>"
  define s2 where "s2 = s1\<lparr>fs_pc := (fs_pc s1)(7 := Loaded 1)\<rparr>"
  define s3 where "s3 = s2\<lparr>fs_countdown := 0, fs_pc := (fs_pc s2)(7 := Calling), fs_granted := 1\<rparr>"
  define s4 where "s4 = s3\<lparr>fs_pc := (fs_pc s3)(0 := Loaded 0)\<rparr>"
  define s5 where "s5 = s4\<lparr>fs_pc := (fs_pc s4)(0 := Calling), fs_refused := 1\<rparr>"
  have 1: "fault_step (fault_start 1) s1" using fault_step.load [of "fault_start 1" 0] by (simp add: s1_def fault_start_def)
  have 2: "fault_step s1 s2" using fault_step.load [of s1 7] by (simp add: s2_def s1_def fault_start_def)
  have 3: "fault_step s2 s3" using fault_step.swap [of s2 7 1] by (simp add: s3_def s2_def s1_def fault_start_def)
  have 4: "fault_step s3 s4" using fault_step.retry [of s3 0 1] by (simp add: s4_def s3_def s2_def s1_def fault_start_def)
  have 5: "fault_step s4 s5" using fault_step.refuse [of s4 0] by (simp add: s5_def s4_def s3_def s2_def s1_def fault_start_def)
  have r: "fault_reachable 1 s5"
    using fault_reachable.step [OF fault_reachable.step [OF fault_reachable.step [OF fault_reachable.step
      [OF fault_reachable.step [OF fault_reachable.start 1] 2] 3] 4] 5] .
  have f: "fs_refused s5 = 1" by (simp add: s5_def)
  show ?thesis using fault_countdown_exact [OF r] r f by (intro exI [of _ s5]) simp
qed

section \<open>The statistics account for the live blocks\<close>

definition total_over :: "(AllocHdr \<Rightarrow> nat) \<Rightarrow> (ptr \<rightharpoonup> AllocHdr) \<Rightarrow> nat" where
  "total_over f m = (\<Sum>p \<in> dom m. f (the (m p)))"

lemma total_add: "finite (dom m) \<Longrightarrow> m p = None \<Longrightarrow> total_over f (m(p \<mapsto> h)) = f h + total_over f m"
proof -
  assume a: "finite (dom m)" "m p = None"
  then have "p \<notin> dom m" by auto
  moreover have "(\<Sum>q \<in> dom m. f (the ((m(p \<mapsto> h)) q))) = total_over f m"
    using a(2) unfolding total_over_def by (intro sum.cong) auto
  ultimately show ?thesis using a(1) by (simp add: total_over_def)
qed

lemma total_del: "finite (dom m) \<Longrightarrow> m p = Some h \<Longrightarrow> total_over f m = f h + total_over f (m(p := None))"
  using total_add [of "m(p := None)" p f h] by (simp add: fun_upd_idem)

text \<open>\<open>m\<close> the live blocks, \<open>u\<close> the bytes of the address space in use, \<open>l\<close> the recorded live bytes, \<open>n\<close> the recorded number.\<close>

definition ledger :: "(ptr \<rightharpoonup> AllocHdr) \<Rightarrow> nat \<Rightarrow> u64 \<Rightarrow> u64 \<Rightarrow> bool" where
  "ledger m u l n \<longleftrightarrow>
     finite (dom m) \<and> (\<forall>p h. m p = Some h \<longrightarrow> length (hdr_user h) = unat (hdr_size h)) \<and>
     u = total_over (\<lambda>h. 8 + unat (hdr_size h)) m \<and> u < 2 ^ 64 \<and> unat l = total_over (\<lambda>h. unat (hdr_size h)) m \<and>
     n = of_nat (card (dom m))"

lemma ledger_add:
  assumes "ledger m u l n" "m p = None" "length (hdr_user h) = unat (hdr_size h)" "u + (8 + unat (hdr_size h)) < 2 ^ 64"
  shows "ledger (m(p \<mapsto> h)) (u + (8 + unat (hdr_size h))) (l + hdr_size h) (n + 1)"
proof -
  have fin: "finite (dom m)" using assms(1) by (simp add: ledger_def)
  have "total_over (\<lambda>h. unat (hdr_size h)) m \<le> total_over (\<lambda>h. 8 + unat (hdr_size h)) m" unfolding total_over_def by (intro sum_mono) simp
  then have "unat l + unat (hdr_size h) < 2 ^ 64" using assms(1,4) by (simp add: ledger_def)
  then have "unat (l + hdr_size h) = unat l + unat (hdr_size h)" by (simp add: unat_add_u64)
  moreover have "p \<notin> dom m" using assms(2) by auto
  ultimately show ?thesis
    using assms fin by (auto simp: ledger_def total_add split: if_splits)
qed

lemma ledger_del:
  assumes "ledger m u l n" "m p = Some h"
  shows "ledger (m(p := None)) (u - (8 + unat (hdr_size h))) (l - hdr_size h) (n - 1)" "hdr_size h \<le> l"
    "8 + unat (hdr_size h) \<le> u"
proof -
  have fin: "finite (dom m)" using assms(1) by (simp add: ledger_def)
  note d = total_del [OF fin assms(2)]
  have u: "u = 8 + unat (hdr_size h) + total_over (\<lambda>h. 8 + unat (hdr_size h)) (m(p := None))"
    and l: "unat l = unat (hdr_size h) + total_over (\<lambda>h. unat (hdr_size h)) (m(p := None))"
    using assms(1) d by (simp_all add: ledger_def)
  show le: "hdr_size h \<le> l" using l by (simp add: u64_ord)
  show "8 + unat (hdr_size h) \<le> u" using u by simp
  have "unat (l - hdr_size h) = unat l - unat (hdr_size h)" using le by (simp add: unat_sub_if_size u64_ord)
  moreover have "card (dom m) = Suc (card (dom m - {p}))" using fin assms(2) by (metis card.remove domI)
  ultimately show "ledger (m(p := None)) (u - (8 + unat (hdr_size h))) (l - hdr_size h) (n - 1)"
    using assms(1) u l fin by (auto simp: ledger_def)
qed

definition accounted :: "malloc_state \<Rightarrow> bool" where
  "accounted s \<longleftrightarrow>
     ledger (ms_blocks s) (ms_used s) (bytes_live (ms_stats s)) (alloc_count (ms_stats s) - free_count (ms_stats s)) \<and>
     (\<forall>p \<ge> ms_next s. ms_blocks s p = None) \<and> bytes_live (ms_stats s) \<le> bytes_peak (ms_stats s)"

lemma update_mem_peak_loop_eq [simp]: "update_mem_peak_loop k live peak = max peak live"
  by (induction k) (auto simp: max_def)

declare update_mem_peak_loop.simps [simp del]

lemma sub_mem_stats_live_loop_eq [simp]: "sub_mem_stats_live_loop k sz old = (if sz \<le> old then old - sz else 0)"
  by (induction k) simp_all

declare sub_mem_stats_live_loop.simps [simp del]

lemma mem_should_fail_frame:
  "mem_should_fail s = (r, s') \<Longrightarrow> \<exists>c k. s' = s\<lparr>ms_fault := c, ms_calls := k\<rparr>"
  by (auto simp: mem_should_fail_def split: prod.splits)

lemma accounted_frame: "accounted (s\<lparr>ms_fault := c, ms_calls := k\<rparr>) = accounted s"
  by (simp add: accounted_def)

lemma header_total:
  assumes "\<not> (-1) - SIZEOF_AllocHdr < sz"
  shows "unat (SIZEOF_AllocHdr + sz) = 8 + unat sz"
proof -
  have "unat sz \<le> unat ((-1 :: u64) - 8)" using assms by (simp add: SIZEOF_AllocHdr_def u64_ord)
  then have "8 + unat sz < 2 ^ 64" by simp
  then show ?thesis by (simp add: SIZEOF_AllocHdr_def unat_add_u64)
qed

lemma check_fault_accounted:
  assumes "check_fault faults s = (r, s')" "accounted s"
  shows "accounted s' \<and> ms_blocks s' = ms_blocks s"
proof (cases faults)
  case True
  then obtain c k where "s' = s\<lparr>ms_fault := c, ms_calls := k\<rparr>"
    using assms(1) mem_should_fail_frame unfolding check_fault_def by force
  then show ?thesis using assms(2) by (simp add: accounted_frame)
qed (use assms in \<open>simp add: check_fault_def\<close>)

lemma accounted_calls: "accounted (s\<lparr>ms_calls := k\<rparr>) = accounted s"
  by (simp add: accounted_def)

lemma accountedD:
  assumes "accounted s"
  shows "ledger (ms_blocks s) (ms_used s) (bytes_live (ms_stats s)) (alloc_count (ms_stats s) - free_count (ms_stats s))"
    "ms_next s \<le> p \<Longrightarrow> ms_blocks s p = None" "bytes_live (ms_stats s) \<le> bytes_peak (ms_stats s)"
  using assms by (simp_all add: accounted_def)

lemma hdr_malloc_cases:
  assumes "hdr_malloc sz s = (p, s')"
  obtains (null) "p = None" "s' = s \<or> s' = s\<lparr>ms_calls := Suc (ms_calls s)\<rparr>"
  | (ok) d where "\<not> (-1) - SIZEOF_AllocHdr < sz" "c_malloc (ms_env s (ms_calls s)) (SIZEOF_AllocHdr + sz) = Some d"
      "sys_fits (ms_used s) (SIZEOF_AllocHdr + sz)" "p = Some (ms_next s)"
      "s' = s\<lparr>ms_calls := Suc (ms_calls s),
         ms_blocks := (ms_blocks s)(ms_next s \<mapsto> \<lparr>hdr_size = sz, hdr_user = drop (unat SIZEOF_AllocHdr) d\<rparr>),
         ms_next := Suc (ms_next s), ms_used := ms_used s + unat (SIZEOF_AllocHdr + sz),
         ms_stats := alloc_mem_stats (ms_weak s (Suc (ms_calls s))) sz (ms_stats s)\<rparr>"
proof (cases "(-1) - SIZEOF_AllocHdr < sz")
  case True
  then show ?thesis using assms null by (simp add: hdr_malloc_def)
next
  case g: False
  show ?thesis
  proof (cases "c_malloc (ms_env s (ms_calls s)) (SIZEOF_AllocHdr + sz)")
    case None
    then show ?thesis using assms null g by (simp add: hdr_malloc_def Let_def)
  next
    case (Some d)
    show ?thesis
    proof (cases "sys_fits (ms_used s) (SIZEOF_AllocHdr + sz)")
      case True
      then show ?thesis using assms ok [OF g Some] g Some by (simp add: hdr_malloc_def Let_def)
    next
      case False
      then show ?thesis using assms null g Some by (simp add: hdr_malloc_def Let_def)
    qed
  qed
qed

lemma hdr_malloc_accounted:
  assumes "accounted s" "hdr_malloc sz s = (p, s')"
  shows "accounted s'"
  using assms(2)
proof (cases rule: hdr_malloc_cases)
  case null
  then show ?thesis using assms(1) accounted_calls by metis
next
  case (ok d)
  let ?h = "\<lparr>hdr_size = sz, hdr_user = drop (unat SIZEOF_AllocHdr) d\<rparr>"
  have t: "unat (SIZEOF_AllocHdr + sz) = 8 + unat sz" by (rule header_total [OF ok(1)])
  have len: "length (hdr_user ?h) = unat (hdr_size ?h)"
    using length_c_malloc [OF ok(2)] t by (simp add: SIZEOF_AllocHdr_def)
  have fits: "ms_used s + (8 + unat (hdr_size ?h)) < 2 ^ 64" using ok(3) t by (simp add: sys_fits_def)
  have st: "ms_stats s' = (ms_stats s)\<lparr>alloc_count := alloc_count (ms_stats s) + 1,
      bytes_live := bytes_live (ms_stats s) + sz, bytes_peak := max (bytes_peak (ms_stats s)) (bytes_live (ms_stats s) + sz)\<rparr>"
    by (simp add: ok(5) alloc_mem_stats_def update_mem_peak_def Let_def)
  have n: "alloc_count (ms_stats s) - free_count (ms_stats s) + 1 = alloc_count (ms_stats s) + 1 - free_count (ms_stats s)"
    by simp
  have "ledger (ms_blocks s') (ms_used s') (bytes_live (ms_stats s')) (alloc_count (ms_stats s') - free_count (ms_stats s'))"
    using ledger_add [OF accountedD(1,2) [OF assms(1)] len fits, OF order_refl, unfolded n] t unfolding st by (simp add: ok(5))
  moreover have "\<forall>q \<ge> ms_next s'. ms_blocks s' q = None" using accountedD(2) [OF assms(1)] by (simp add: ok(5))
  ultimately show ?thesis using st by (simp add: accounted_def)
qed

lemma mmalloc_accounted:
  assumes "accounted s" "mmalloc faults sz s = (p, s')"
  shows "accounted s'"
proof -
  obtain r s1 where 1: "check_fault faults s = (r, s1)" by fastforce
  then show ?thesis
    using assms(2) check_fault_accounted [OF 1 assms(1)] hdr_malloc_accounted [of s1 sz p s']
    by (cases r) (auto simp: mmalloc_def)
qed

lemma hdr_malloc_user:
  assumes "hdr_malloc sz s = (Some a, s')"
  shows "\<exists>h. ms_blocks s' a = Some h \<and> hdr_size h = sz"
  using assms by (cases rule: hdr_malloc_cases) auto

lemma mmalloc_user:
  assumes "mmalloc faults sz s = (Some a, s')"
  shows "\<exists>h. ms_blocks s' a = Some h \<and> hdr_size h = sz"
  using assms hdr_malloc_user by (auto simp: mmalloc_def split: prod.splits if_splits)

lemma live_after_free:
  assumes "accounted s" "ms_blocks s a = Some h"
  shows "ledger ((ms_blocks s)(a := None)) (ms_used s - unat (SIZEOF_AllocHdr + hdr_size h))
      (bytes_live (ms_stats s) - hdr_size h) (alloc_count (ms_stats s) - free_count (ms_stats s) - 1)"
    "hdr_size h \<le> bytes_live (ms_stats s)" "bytes_live (ms_stats s) - hdr_size h \<le> bytes_peak (ms_stats s)"
proof -
  note led = accountedD(1) [OF assms(1)]
  note d = ledger_del [OF led assms(2)]
  have "8 + unat (hdr_size h) < 2 ^ 64" using d(3) led by (simp add: ledger_def)
  then have t: "unat (SIZEOF_AllocHdr + hdr_size h) = 8 + unat (hdr_size h)" by (simp add: SIZEOF_AllocHdr_def unat_add_u64)
  show "ledger ((ms_blocks s)(a := None)) (ms_used s - unat (SIZEOF_AllocHdr + hdr_size h))
      (bytes_live (ms_stats s) - hdr_size h) (alloc_count (ms_stats s) - free_count (ms_stats s) - 1)"
    unfolding t by (rule d(1))
  show "hdr_size h \<le> bytes_live (ms_stats s)" by (rule d(2))
  show "bytes_live (ms_stats s) - hdr_size h \<le> bytes_peak (ms_stats s)"
    by (rule order_trans [OF word_sub_le [OF d(2)] accountedD(3) [OF assms(1)]])
qed

lemma mfree_accounted:
  assumes "accounted s" "mfree p s = Some s'"
  shows "accounted s'"
proof (cases p)
  case None
  then show ?thesis using assms by (simp add: mfree_def)
next
  case (Some a)
  then obtain h where h: "ms_blocks s a = Some h" using assms(2) by (auto simp: mfree_def bind_eq_Some_conv)
  note l = live_after_free [OF assms(1) h]
  have s': "s' = s\<lparr>ms_stats := (ms_stats s)\<lparr>free_count := free_count (ms_stats s) + 1,
        bytes_live := bytes_live (ms_stats s) - hdr_size h\<rparr>,
      ms_calls := Suc (ms_calls s), ms_blocks := (ms_blocks s)(a := None),
      ms_used := ms_used s - unat (SIZEOF_AllocHdr + hdr_size h)\<rparr>"
    using assms(2) Some h l(2) by (simp add: mfree_def free_mem_stats_def sub_mem_stats_live_def Let_def)
  have n: "alloc_count (ms_stats s) - free_count (ms_stats s) - 1 = alloc_count (ms_stats s) - (free_count (ms_stats s) + 1)"
    by simp
  have "ledger (ms_blocks s') (ms_used s') (bytes_live (ms_stats s')) (alloc_count (ms_stats s') - free_count (ms_stats s'))"
    using l(1) [unfolded n] by (simp add: s')
  moreover have "\<forall>q \<ge> ms_next s'. ms_blocks s' q = None" using accountedD(2) [OF assms(1)] by (simp add: s')
  ultimately show ?thesis using l(3) by (simp add: accounted_def s')
qed

lemma realloc_stats_eq:
  assumes "old \<le> bytes_live st"
  shows "realloc_stats k old sz st = st\<lparr>realloc_count := realloc_count st + 1, bytes_live := bytes_live st - old + sz,
    bytes_peak := (if old \<le> sz then max (bytes_peak st) (bytes_live st - old + sz) else bytes_peak st)\<rparr>"
proof (cases "old \<le> sz")
  case True
  define live where "live = bytes_live st - old + sz"
  have e: "bytes_live st + (sz - old) = live" by (simp add: live_def)
  show ?thesis using True unfolding live_def [symmetric] by (simp add: realloc_stats_def update_mem_peak_def Let_def e)
next
  case False
  then have "old - sz \<le> old" by (intro word_sub_le) simp
  then have "old - sz \<le> bytes_live st" using assms by (rule order_trans)
  moreover have "bytes_live st - (old - sz) = bytes_live st - old + sz" by simp
  ultimately show ?thesis using False by (simp add: realloc_stats_def sub_mem_stats_live_def)
qed

lemma hdr_realloc_cases:
  assumes "hdr_realloc a h sz s = (p, s')"
  obtains (null) "p = None" "s' = s \<or> s' = s\<lparr>ms_calls := Suc (ms_calls s)\<rparr>"
  | (ok) d where "\<not> (-1) - SIZEOF_AllocHdr < sz"
      "c_realloc (ms_env s (ms_calls s)) (Some (word_bytes (hdr_size h) @ hdr_user h)) (SIZEOF_AllocHdr + sz) = Some d"
      "sys_fits (ms_used s - unat (SIZEOF_AllocHdr + hdr_size h)) (SIZEOF_AllocHdr + sz)" "p = Some (ms_next s)"
      "s' = s\<lparr>ms_calls := Suc (ms_calls s),
         ms_blocks := ((ms_blocks s)(a := None))(ms_next s \<mapsto> \<lparr>hdr_size = sz, hdr_user = drop (unat SIZEOF_AllocHdr) d\<rparr>),
         ms_next := Suc (ms_next s), ms_used := ms_used s - unat (SIZEOF_AllocHdr + hdr_size h) + unat (SIZEOF_AllocHdr + sz),
         ms_stats := realloc_stats (ms_weak s (Suc (ms_calls s))) (hdr_size h) sz (ms_stats s)\<rparr>"
proof (cases "(-1) - SIZEOF_AllocHdr < sz")
  case True
  then show ?thesis using assms null by (simp add: hdr_realloc_def)
next
  case g: False
  show ?thesis
  proof (cases "c_realloc (ms_env s (ms_calls s)) (Some (word_bytes (hdr_size h) @ hdr_user h)) (SIZEOF_AllocHdr + sz)")
    case None
    then show ?thesis using assms null g by (simp add: hdr_realloc_def Let_def)
  next
    case (Some d)
    show ?thesis
    proof (cases "sys_fits (ms_used s - unat (SIZEOF_AllocHdr + hdr_size h)) (SIZEOF_AllocHdr + sz)")
      case True
      then show ?thesis using assms ok [OF g Some] g Some by (simp add: hdr_realloc_def Let_def)
    next
      case False
      then show ?thesis using assms null g Some by (simp add: hdr_realloc_def Let_def)
    qed
  qed
qed

lemma hdr_realloc_accounted:
  assumes "accounted s" "ms_blocks s a = Some h" "hdr_realloc a h sz s = (p, s')"
  shows "accounted s'"
  using assms(3)
proof (cases rule: hdr_realloc_cases)
  case null
  then show ?thesis using assms(1) accounted_calls by metis
next
  case (ok d)
  let ?h = "\<lparr>hdr_size = sz, hdr_user = drop (unat SIZEOF_AllocHdr) d\<rparr>" 
  define m where "m = (ms_blocks s)(a := None)"
  let ?used = "ms_used s - unat (SIZEOF_AllocHdr + hdr_size h)"
  note l = live_after_free [OF assms(1,2), folded m_def]
  have t: "unat (SIZEOF_AllocHdr + sz) = 8 + unat sz" by (rule header_total [OF ok(1)])
  have len: "length (hdr_user ?h) = unat (hdr_size ?h)"
    using c_realloc_Some [OF ok(2)] t by (simp add: SIZEOF_AllocHdr_def)
  have fits: "?used + (8 + unat (hdr_size ?h)) < 2 ^ 64" using ok(3) t by (simp add: sys_fits_def)
  have fresh: "m (ms_next s) = None" using accountedD(2) [OF assms(1)] by (simp add: m_def)
  have "ledger (m(ms_next s \<mapsto> ?h)) (?used + (8 + unat sz)) (bytes_live (ms_stats s) - hdr_size h + sz)
      (alloc_count (ms_stats s) - free_count (ms_stats s))"
    using ledger_add [OF l(1) fresh len fits] by simp
  then have "ledger (ms_blocks s') (ms_used s') (bytes_live (ms_stats s')) (alloc_count (ms_stats s') - free_count (ms_stats s'))"
    using t by (simp add: ok(5) m_def [symmetric] realloc_stats_eq [OF l(2)])
  moreover have "\<forall>q \<ge> ms_next s'. ms_blocks s' q = None" using accountedD(2) [OF assms(1)] by (simp add: ok(5))
  moreover have "bytes_live (ms_stats s') \<le> bytes_peak (ms_stats s')"
  proof (cases "hdr_size h \<le> sz")
    case False
    have "bytes_live (ms_stats s) - hdr_size h + sz = bytes_live (ms_stats s) - (hdr_size h - sz)" by simp
    also have "\<dots> \<le> bytes_live (ms_stats s)"
      using False l(2) by (intro word_sub_le order_trans [OF _ l(2)]) simp
    also have "\<dots> \<le> bytes_peak (ms_stats s)" by (rule accountedD(3) [OF assms(1)])
    finally show ?thesis using False by (simp add: ok(5) realloc_stats_eq [OF l(2)])
  qed (simp add: ok(5) realloc_stats_eq [OF l(2)])
  ultimately show ?thesis by (simp add: accounted_def)
qed

lemma mrealloc_accounted:
  assumes "accounted s" "mrealloc faults p sz s = Some (q, s')"
  shows "accounted s'"
proof (cases p)
  case None
  then show ?thesis using assms mmalloc_accounted [of s faults sz q s'] by (simp add: mrealloc_def)
next
  case (Some a)
  show ?thesis
  proof (cases "sz = 0")
    case True
    then show ?thesis using assms Some mfree_accounted [OF assms(1), of p s'] by (auto simp: mrealloc_def)
  next
    case False
    obtain r s1 where 1: "check_fault faults s = (r, s1)" by fastforce
    note c = check_fault_accounted [OF 1 assms(1)]
    show ?thesis
    proof (cases r)
      case True
      then show ?thesis using assms(2) Some False 1 c by (simp add: mrealloc_def)
    next
      case r: False
      then obtain h where "ms_blocks s1 a = Some h" "hdr_realloc a h sz s1 = (q, s')"
        using assms(2) Some False 1 by (auto simp: mrealloc_def)
      then show ?thesis using hdr_realloc_accounted c by blast
    qed
  qed
qed

lemma mcalloc_accounted:
  assumes "accounted s" "mcalloc faults count sz s = (p, s')"
  shows "accounted s'"
proof (cases "count \<noteq> 0 \<and> (-1) div count < sz")
  case True
  then show ?thesis using assms by (simp add: mcalloc_def)
next
  case False
  obtain q s1 where m: "mmalloc faults (count * sz) s = (q, s1)" by fastforce
  note a = mmalloc_accounted [OF assms(1) m]
  show ?thesis
  proof (cases q)
    case None
    then show ?thesis using assms(2) False m a by (simp add: mcalloc_def)
  next
    case (Some b)
    obtain h where h: "ms_blocks s1 b = Some h" "hdr_size h = count * sz" using mmalloc_user [OF m [unfolded Some]] by blast
    let ?h = "h\<lparr>hdr_user := replicate (unat (count * sz)) 0\<rparr>"
    have s': "s' = s1\<lparr>ms_blocks := (ms_blocks s1)(b \<mapsto> ?h)\<rparr>"
      using assms(2) False m Some h by (simp add: mcalloc_def)
    have t: "total_over f ((ms_blocks s1)(b \<mapsto> ?h)) = total_over f (ms_blocks s1)" if "f ?h = f h" for f :: "AllocHdr \<Rightarrow> nat"
      unfolding total_over_def using h(1) that by (intro sum.cong) auto
    have "ledger ((ms_blocks s1)(b \<mapsto> ?h)) (ms_used s1) (bytes_live (ms_stats s1))
        (alloc_count (ms_stats s1) - free_count (ms_stats s1))"
      using accountedD(1) [OF a] h t [of "\<lambda>h. 8 + unat (hdr_size h)"] t [of "\<lambda>h. unat (hdr_size h)"]
      by (auto simp: ledger_def insert_absorb domI)
    moreover have "\<forall>q \<ge> ms_next s1. ((ms_blocks s1)(b \<mapsto> ?h)) q = None" using accountedD(2) [OF a] h(1) by auto
    ultimately show ?thesis using accountedD(3) [OF a] by (simp add: accounted_def s')
  qed
qed

section \<open>Any sequence of calls\<close>

datatype alloc_op = Malloc usize | Calloc usize usize | Realloc "ptr option" usize | Free "ptr option" | Countdown "64 word" | Clear

fun alloc_step :: "bool \<Rightarrow> alloc_op \<Rightarrow> malloc_state \<Rightarrow> malloc_state option" where
  "alloc_step faults (Malloc sz) s = Some (snd (mmalloc faults sz s))"
| "alloc_step faults (Calloc count sz) s = Some (snd (mcalloc faults count sz s))"
| "alloc_step faults (Realloc p sz) s = map_option snd (mrealloc faults p sz s)"
| "alloc_step faults (Free p) s = mfree p s"
| "alloc_step faults (Countdown n) s = Some (set_mem_fault_countdown faults n s)"
| "alloc_step faults Clear s = Some (clear_mem_fault faults s)"

fun alloc_run :: "bool \<Rightarrow> alloc_op list \<Rightarrow> malloc_state \<Rightarrow> malloc_state option" where
  "alloc_run faults [] s = Some s"
| "alloc_run faults (x # xs) s =
     do {
       s1 \<leftarrow> alloc_step faults x s;
       alloc_run faults xs s1
     }"

lemma alloc_step_accounted:
  assumes "accounted s" "alloc_step faults x s = Some s'"
  shows "accounted s'"
proof (cases x)
  case (Malloc sz)
  then show ?thesis using assms mmalloc_accounted [OF assms(1), of faults sz] by (metis alloc_step.simps(1) option.inject prod.collapse)
next
  case (Calloc count sz)
  then show ?thesis using assms mcalloc_accounted [OF assms(1), of faults count sz] by (metis alloc_step.simps(2) option.inject prod.collapse)
next
  case (Realloc p sz)
  then show ?thesis using assms mrealloc_accounted [OF assms(1), of faults p sz] by auto
next
  case (Free p)
  then show ?thesis using assms mfree_accounted by simp
next
  case (Countdown n)
  then show ?thesis using assms by (cases faults) (simp_all add: set_mem_fault_countdown_def accounted_def, auto)
next
  case Clear
  then show ?thesis using assms by (cases faults) (simp_all add: clear_mem_fault_def accounted_def, auto)
qed

lemma alloc_run_accounted: "accounted s \<Longrightarrow> alloc_run faults xs s = Some s' \<Longrightarrow> accounted s'"
  by (induction xs arbitrary: s) (auto simp: bind_eq_Some_conv intro: alloc_step_accounted)

text \<open>Every call leaves the peak at the larger of what it was and the live bytes after the call.\<close>

definition peak_follows :: "malloc_state \<Rightarrow> malloc_state \<Rightarrow> bool" where
  "peak_follows s s' \<longleftrightarrow> bytes_peak (ms_stats s') = max (bytes_peak (ms_stats s)) (bytes_live (ms_stats s'))"

lemma peak_follows_same: "accounted s \<Longrightarrow> ms_stats s' = ms_stats s \<Longrightarrow> peak_follows s s'"
  by (simp add: peak_follows_def accountedD(3) max_absorb1)

lemma check_fault_stats: "check_fault faults s = (r, s1) \<Longrightarrow> ms_stats s1 = ms_stats s"
  by (auto simp: check_fault_def mem_should_fail_def split: if_splits prod.splits)

lemma hdr_malloc_peak:
  assumes "accounted s" "hdr_malloc sz s = (p, s')"
  shows "peak_follows s s'"
  using assms(2)
proof (cases rule: hdr_malloc_cases)
  case null
  then show ?thesis using peak_follows_same [OF assms(1)] by auto
next
  case (ok d)
  then show ?thesis by (simp add: peak_follows_def alloc_mem_stats_def update_mem_peak_def Let_def)
qed

lemma mmalloc_peak:
  assumes "accounted s" "mmalloc faults sz s = (p, s')"
  shows "peak_follows s s'"
proof -
  obtain r s1 where 1: "check_fault faults s = (r, s1)" by fastforce
  note a = check_fault_accounted [OF 1 assms(1)] and e = check_fault_stats [OF 1]
  show ?thesis
  proof (cases r)
    case True
    then show ?thesis using assms(2) 1 peak_follows_same [OF assms(1) e] by (simp add: mmalloc_def)
  next
    case False
    then show ?thesis using assms(2) 1 hdr_malloc_peak [OF conjunct1 [OF a], of sz p s'] e by (simp add: mmalloc_def peak_follows_def)
  qed
qed

lemma mcalloc_peak:
  assumes "accounted s" "mcalloc faults count sz s = (p, s')"
  shows "peak_follows s s'"
proof (cases "count \<noteq> 0 \<and> (-1) div count < sz")
  case True
  then show ?thesis using assms peak_follows_same [OF assms(1)] by (simp add: mcalloc_def)
next
  case False
  obtain q s1 where m: "mmalloc faults (count * sz) s = (q, s1)" by fastforce
  then have "ms_stats s' = ms_stats s1" using assms(2) False by (cases q) (auto simp: mcalloc_def)
  then show ?thesis using mmalloc_peak [OF assms(1) m] by (simp add: peak_follows_def)
qed

lemma mfree_peak:
  assumes "accounted s" "mfree p s = Some s'"
  shows "peak_follows s s'"
proof -
  have "accounted s'" by (rule mfree_accounted [OF assms])
  moreover have "bytes_peak (ms_stats s') = bytes_peak (ms_stats s)"
    using assms(2) by (auto simp: mfree_def free_mem_stats_def sub_mem_stats_live_def bind_eq_Some_conv Let_def split: option.splits)
  ultimately show ?thesis using accountedD(3) [of s'] by (simp add: peak_follows_def max_absorb1)
qed

lemma hdr_realloc_peak:
  assumes "accounted s" "ms_blocks s a = Some h" "hdr_realloc a h sz s = (p, s')"
  shows "peak_follows s s'"
  using assms(3)
proof (cases rule: hdr_realloc_cases)
  case null
  then show ?thesis using peak_follows_same [OF assms(1)] by auto
next
  case (ok d)
  note st = realloc_stats_eq [OF live_after_free(2) [OF assms(1,2)]]
  show ?thesis
  proof (cases "hdr_size h \<le> sz")
    case True
    then show ?thesis by (simp add: peak_follows_def ok(5) st)
  next
    case False
    then have "bytes_peak (ms_stats s') = bytes_peak (ms_stats s)" by (simp add: ok(5) st)
    then show ?thesis
      using accountedD(3) [OF hdr_realloc_accounted [OF assms]] by (simp add: peak_follows_def max_absorb1)
  qed
qed

lemma mrealloc_peak:
  assumes "accounted s" "mrealloc faults p sz s = Some (q, s')"
  shows "peak_follows s s'"
proof (cases p)
  case None
  then show ?thesis using assms mmalloc_peak [of s faults sz q s'] by (simp add: mrealloc_def)
next
  case (Some a)
  show ?thesis
  proof (cases "sz = 0")
    case True
    then show ?thesis using assms Some mfree_peak [OF assms(1), of p s'] by (auto simp: mrealloc_def)
  next
    case False
    obtain r s1 where 1: "check_fault faults s = (r, s1)" by fastforce
    note c = check_fault_accounted [OF 1 assms(1)] and e = check_fault_stats [OF 1]
    show ?thesis
    proof (cases r)
      case True
      then show ?thesis using assms Some False 1 peak_follows_same [OF assms(1) e] by (simp add: mrealloc_def)
    next
      case r: False
      then obtain h where "ms_blocks s1 a = Some h" "hdr_realloc a h sz s1 = (q, s')"
        using assms(2) Some False 1 by (auto simp: mrealloc_def)
      then show ?thesis using hdr_realloc_peak [OF conjunct1 [OF c]] e by (simp add: peak_follows_def)
    qed
  qed
qed

lemma alloc_step_peak:
  assumes "accounted s" "alloc_step faults x s = Some s'"
  shows "peak_follows s s'"
proof (cases x)
  case (Malloc sz)
  then show ?thesis using assms mmalloc_peak [OF assms(1), of faults sz] by (metis alloc_step.simps(1) option.inject prod.collapse)
next
  case (Calloc count sz)
  then show ?thesis using assms mcalloc_peak [OF assms(1), of faults count sz] by (metis alloc_step.simps(2) option.inject prod.collapse)
next
  case (Realloc p sz)
  then show ?thesis using assms mrealloc_peak [OF assms(1), of faults p sz] by auto
next
  case (Free p)
  then show ?thesis using assms mfree_peak by simp
next
  case (Countdown n)
  then have "ms_stats s' = ms_stats s" using assms(2) by (auto simp: set_mem_fault_countdown_def)
  then show ?thesis by (rule peak_follows_same [OF assms(1)])
next
  case Clear
  then have "ms_stats s' = ms_stats s" using assms(2) by (auto simp: clear_mem_fault_def)
  then show ?thesis by (rule peak_follows_same [OF assms(1)])
qed

text \<open>The live bytes before the first call and after each.\<close>

fun live_trace :: "bool \<Rightarrow> alloc_op list \<Rightarrow> malloc_state \<Rightarrow> u64 list" where
  "live_trace faults [] s = [bytes_live (ms_stats s)]"
| "live_trace faults (x # xs) s =
     bytes_live (ms_stats s) # (case alloc_step faults x s of None \<Rightarrow> [] | Some s1 \<Rightarrow> live_trace faults xs s1)"

lemma live_trace_hd: "bytes_live (ms_stats s) \<in> set (live_trace faults xs s)"
  by (cases xs) simp_all

lemma alloc_run_peak:
  "accounted s \<Longrightarrow> alloc_run faults xs s = Some s' \<Longrightarrow>
   bytes_peak (ms_stats s') = max (bytes_peak (ms_stats s)) (Max (set (live_trace faults xs s)))"
proof (induction xs arbitrary: s)
  case Nil
  then show ?case using accountedD(3) [of s] by (simp add: max_absorb1)
next
  case (Cons x xs)
  then obtain s1 where x: "alloc_step faults x s = Some s1" "alloc_run faults xs s1 = Some s'" by (auto simp: bind_eq_Some_conv)
  let ?T = "Max (set (live_trace faults xs s1))"
  have "bytes_live (ms_stats s1) \<le> ?T" using live_trace_hd by simp
  moreover have "bytes_peak (ms_stats s1) = max (bytes_peak (ms_stats s)) (bytes_live (ms_stats s1))"
    using alloc_step_peak [OF Cons.prems(1) x(1)] by (simp add: peak_follows_def)
  moreover have "set (live_trace faults xs s1) \<noteq> {}" using live_trace_hd [of s1 faults xs] by auto
  ultimately show ?case
    using Cons.IH [OF alloc_step_accounted [OF Cons.prems(1) x(1)] x(2)] accountedD(3) [OF Cons.prems(1)] x(1)
    by (simp add: max_def split: if_splits) auto
qed

definition malloc_init :: "(nat \<Rightarrow> allocator) \<Rightarrow> (nat \<Rightarrow> nat) \<Rightarrow> malloc_state" where
  "malloc_init env weak =
     \<lparr>ms_blocks = Map.empty, ms_next = 0, ms_used = 0,
      ms_stats = \<lparr>alloc_count = 0, free_count = 0, realloc_count = 0, bytes_live = 0, bytes_peak = 0\<rparr>,
      ms_fault = -1, ms_env = env, ms_weak = weak, ms_calls = 0\<rparr>"

text \<open>
  C22. After any sequence of allocations, reallocations, releases and injected faults on valid pointers, the snapshot of the
  statistics is exact: the live bytes are the sizes of the live blocks together, the allocations less the releases are the
  number of live blocks, the peak is the largest value the live bytes had before or after any of the calls, and every live
  block has as many bytes as its header says.
\<close>

theorem stats_account_for_live_blocks:
  assumes "alloc_run faults xs (malloc_init env weak) = Some s"
  shows "unat (snap_bytes_live (get_mem_stats s)) = (\<Sum>p \<in> dom (ms_blocks s). unat (hdr_size (the (ms_blocks s p)))) \<and>
    snap_alloc_count (get_mem_stats s) - snap_free_count (get_mem_stats s) = of_nat (card (dom (ms_blocks s))) \<and>
    snap_bytes_peak (get_mem_stats s) = Max (set (live_trace faults xs (malloc_init env weak))) \<and>
    (\<forall>p h. ms_blocks s p = Some h \<longrightarrow> length (hdr_user h) = unat (hdr_size h))"
proof -
  have i: "accounted (malloc_init env weak)" by (simp add: accounted_def malloc_init_def ledger_def total_over_def)
  have p: "bytes_peak (ms_stats (malloc_init env weak)) = 0" by (simp add: malloc_init_def)
  have "accounted s" using i assms by (rule alloc_run_accounted)
  then show ?thesis
    using alloc_run_peak [OF i assms] unfolding p by (simp add: accounted_def ledger_def get_mem_stats_def Let_def total_over_def)
qed

theorem stats_account_for_live_blocks_witness:
  "\<exists>s. alloc_run True [Malloc 10, Calloc 3 2, Countdown 1, Realloc (Some 0) 4, Malloc 100, Clear, Free (Some 1)]
      (malloc_init (\<lambda>n. \<lparr>alloc_ok = True, alloc_junk = (\<lambda>i. 7), alloc_addr = 0\<rparr>) (\<lambda>n. n)) = Some s \<and>
     unat (snap_bytes_live (get_mem_stats s)) = (\<Sum>p \<in> dom (ms_blocks s). unat (hdr_size (the (ms_blocks s p)))) \<and>
     snap_bytes_peak (get_mem_stats s) = Max (set (live_trace True
        [Malloc 10, Calloc 3 2, Countdown 1, Realloc (Some 0) 4, Malloc 100, Clear, Free (Some 1)]
        (malloc_init (\<lambda>n. \<lparr>alloc_ok = True, alloc_junk = (\<lambda>i. 7), alloc_addr = 0\<rparr>) (\<lambda>n. n)))) \<and>
     snap_bytes_live (get_mem_stats s) = 4 \<and> snap_bytes_peak (get_mem_stats s) = 16"
proof -
  let ?xs = "[Malloc 10, Calloc 3 2, Countdown 1, Realloc (Some 0) 4, Malloc 100, Clear, Free (Some 1)]"
  let ?s = "malloc_init (\<lambda>n. \<lparr>alloc_ok = True, alloc_junk = (\<lambda>i. 7), alloc_addr = 0\<rparr>) (\<lambda>n. n)"
  have "\<exists>s. alloc_run True ?xs ?s = Some s \<and> bytes_live (ms_stats s) = 4 \<and> bytes_peak (ms_stats s) = 16"
    by (simp add: malloc_init_def mmalloc_def mcalloc_def mrealloc_def mfree_def check_fault_def mem_should_fail_def
        hdr_malloc_def hdr_realloc_def c_malloc_def c_realloc_def PTRDIFF_LIMIT_def sys_fits_def SIZEOF_AllocHdr_def Let_def
        alloc_mem_stats_def update_mem_peak_def realloc_stats_def sub_mem_stats_live_def free_mem_stats_def
        set_mem_fault_countdown_def clear_mem_fault_def word_sless_alt)
  then obtain s where s: "alloc_run True ?xs ?s = Some s" "bytes_live (ms_stats s) = 4" "bytes_peak (ms_stats s) = 16" by blast
  have "snap_bytes_live (get_mem_stats s) = 4" "snap_bytes_peak (get_mem_stats s) = 16"
    using s(2,3) by (simp_all add: get_mem_stats_def Let_def)
  then show ?thesis using stats_account_for_live_blocks [OF s(1)] s(1) by blast
qed

end
