(* ===== verification/AllocThreads.thy ===== *)
theory AllocThreads
  imports Alloc
begin

text \<open>
  The statistics of the allocator (\<^verbatim>\<open>src/utils/alloc.c\<close>) when many threads allocate and free at the same time: the
  bodies of \<^verbatim>\<open>alloc_mem_stats\<close>, \<^verbatim>\<open>update_mem_peak\<close> and \<^verbatim>\<open>sub_mem_stats_live\<close> in atomic steps. The counters of
  calls are single atomic additions and are left out.
\<close>

section \<open>Threads\<close>

text \<open>
  Where a thread stands: between calls, before the load of the peak with the live value it computed, in the loop of
  \<^verbatim>\<open>update_mem_peak\<close> with the peak it loaded, or in the loop of \<^verbatim>\<open>sub_mem_stats_live\<close> with the size and the value it loaded.
\<close>

datatype stat_pc = Between | Recorded u64 | Peaking u64 u64 | Subtracting u64 u64

text \<open>
  The two shared counters, the threads, the total size of the blocks that have been recorded and that no free has begun
  to take off, and the largest value \<^verbatim>\<open>bytes_live\<close> has had.
\<close>

record stat_sys =
  ss_live :: u64
  ss_peak :: u64
  ss_pcs :: "stat_pc list"
  ss_owned :: nat
  ss_largest :: nat

definition set_pc :: "nat \<Rightarrow> stat_pc \<Rightarrow> stat_sys \<Rightarrow> stat_sys" where
  "set_pc t pc s = s\<lparr>ss_pcs := (ss_pcs s)[t := pc]\<rparr>"

text \<open>
  A recorded block is memory the system has given, so the addition does not wrap; a thread frees what has been
  recorded, since the pointer is returned after that. A weak compare-and-swap may fail at any time.
\<close>

inductive stat_step :: "stat_sys \<Rightarrow> stat_sys \<Rightarrow> bool" where
  record_block: "t < length (ss_pcs s) \<Longrightarrow> ss_pcs s ! t = Between \<Longrightarrow> unat (ss_live s) + unat sz < 2 ^ 64 \<Longrightarrow>
    live = ss_live s + sz \<Longrightarrow>
    stat_step s ((set_pc t (Recorded live) s)\<lparr>ss_live := live, ss_owned := ss_owned s + unat sz,
                                              ss_largest := max (ss_largest s) (unat live)\<rparr>)"
| load_peak: "t < length (ss_pcs s) \<Longrightarrow> ss_pcs s ! t = Recorded live \<Longrightarrow>
    stat_step s (set_pc t (Peaking live (ss_peak s)) s)"
| peak_is_high: "t < length (ss_pcs s) \<Longrightarrow> ss_pcs s ! t = Peaking live peak \<Longrightarrow> \<not> peak < live \<Longrightarrow>
    stat_step s (set_pc t Between s)"
| raise_peak: "t < length (ss_pcs s) \<Longrightarrow> ss_pcs s ! t = Peaking live peak \<Longrightarrow> peak < live \<Longrightarrow> ss_peak s = peak \<Longrightarrow>
    stat_step s ((set_pc t Between s)\<lparr>ss_peak := live\<rparr>)"
| retry_peak: "t < length (ss_pcs s) \<Longrightarrow> ss_pcs s ! t = Peaking live peak \<Longrightarrow> peak < live \<Longrightarrow>
    stat_step s (set_pc t (Peaking live (ss_peak s)) s)"
| begin_sub: "t < length (ss_pcs s) \<Longrightarrow> ss_pcs s ! t = Between \<Longrightarrow> unat sz \<le> ss_owned s \<Longrightarrow>
    stat_step s ((set_pc t (Subtracting sz (ss_live s)) s)\<lparr>ss_owned := ss_owned s - unat sz\<rparr>)"
| finish_sub: "t < length (ss_pcs s) \<Longrightarrow> ss_pcs s ! t = Subtracting sz old_live \<Longrightarrow> ss_live s = old_live \<Longrightarrow>
    stat_step s ((set_pc t Between s)\<lparr>ss_live := (if sz \<le> old_live then old_live - sz else 0)\<rparr>)"
| retry_sub: "t < length (ss_pcs s) \<Longrightarrow> ss_pcs s ! t = Subtracting sz old_live \<Longrightarrow>
    stat_step s (set_pc t (Subtracting sz (ss_live s)) s)"

definition stat_start :: "nat \<Rightarrow> stat_sys" where
  "stat_start n = \<lparr>ss_live = 0, ss_peak = 0, ss_pcs = replicate n Between, ss_owned = 0, ss_largest = 0\<rparr>"

inductive stat_reachable :: "nat \<Rightarrow> stat_sys \<Rightarrow> bool" for n where
  stat_starts: "stat_reachable n (stat_start n)"
| stat_steps: "stat_reachable n s \<Longrightarrow> stat_step s s' \<Longrightarrow> stat_reachable n s'"

section \<open>What the counters mean\<close>

fun pending_sub :: "stat_pc \<Rightarrow> nat" where
  "pending_sub (Subtracting sz old_live) = unat sz"
| "pending_sub _ = 0"

fun pending_peak :: "stat_pc \<Rightarrow> nat option" where
  "pending_peak (Recorded live) = Some (unat live)"
| "pending_peak (Peaking live peak) = Some (unat live)"
| "pending_peak _ = None"

text \<open>The balance of \<^verbatim>\<open>bytes_live\<close>, and where the largest value it has had is to be found.\<close>

definition balanced :: "stat_sys \<Rightarrow> bool" where
  "balanced s \<longleftrightarrow> unat (ss_live s) = ss_owned s + sum_list (map pending_sub (ss_pcs s))"

definition peak_inv :: "stat_sys \<Rightarrow> bool" where
  "peak_inv s \<longleftrightarrow>
     unat (ss_peak s) \<le> ss_largest s \<and>
     (\<forall>pc \<in> set (ss_pcs s). \<forall>v. pending_peak pc = Some v \<longrightarrow> v \<le> ss_largest s) \<and>
     (\<forall>live peak. Peaking live peak \<in> set (ss_pcs s) \<longrightarrow> peak \<le> ss_peak s) \<and>
     (ss_largest s = unat (ss_peak s) \<or> Some (ss_largest s) \<in> pending_peak ` set (ss_pcs s))"

lemma set_pc_simps [simp]:
  "ss_live (set_pc t pc s) = ss_live s" "ss_peak (set_pc t pc s) = ss_peak s" "ss_owned (set_pc t pc s) = ss_owned s"
  "ss_largest (set_pc t pc s) = ss_largest s" "ss_pcs (set_pc t pc s) = (ss_pcs s)[t := pc]"
  by (simp_all add: set_pc_def)

lemma sum_pending_update:
  assumes "t < length pcs"
  shows "sum_list (map pending_sub (pcs[t := pc])) + pending_sub (pcs ! t) = sum_list (map pending_sub pcs) + pending_sub pc"
proof -
  have "pending_sub (pcs ! t) \<in> set (map pending_sub pcs)" using assms by simp
  then have "pending_sub (pcs ! t) \<le> sum_list (map pending_sub pcs)" by (rule member_le_sum_list) simp
  then show ?thesis using assms by (simp add: map_update sum_list_update)
qed

lemma balanced_step: "stat_step s s' \<Longrightarrow> balanced s \<Longrightarrow> balanced s'"
proof (induction rule: stat_step.induct)
  case (record_block t s sz live)
  then show ?case using sum_pending_update [of t "ss_pcs s" "Recorded live"] by (simp add: balanced_def unat_add_u64)
next
  case (load_peak t s live)
  then show ?case using sum_pending_update [of t "ss_pcs s" "Peaking live (ss_peak s)"] by (simp add: balanced_def)
next
  case (peak_is_high t s live peak)
  then show ?case using sum_pending_update [of t "ss_pcs s" Between] by (simp add: balanced_def)
next
  case (raise_peak t s live peak)
  then show ?case using sum_pending_update [of t "ss_pcs s" Between] by (simp add: balanced_def)
next
  case (retry_peak t s live peak)
  then show ?case using sum_pending_update [of t "ss_pcs s" "Peaking live (ss_peak s)"] by (simp add: balanced_def)
next
  case (begin_sub t s sz)
  then show ?case using sum_pending_update [of t "ss_pcs s" "Subtracting sz (ss_live s)"] by (simp add: balanced_def)
next
  case (finish_sub t s sz old_live)
  note sum = sum_pending_update [OF finish_sub(1), of Between]
  have "sz \<le> old_live" using finish_sub sum by (simp add: balanced_def u64_ord)
  then show ?case using finish_sub sum by (simp add: balanced_def unat_sub_u64)
next
  case (retry_sub t s sz old_live)
  then show ?case using sum_pending_update [of t "ss_pcs s" "Subtracting sz (ss_live s)"] by (simp add: balanced_def)
qed

lemma in_set_update: "x \<in> set (xs[t := y]) \<Longrightarrow> x = y \<or> x \<in> set xs"
  using set_update_subset_insert [of xs t y] by blast

lemma witness_stays:
  assumes "Some n \<in> pending_peak ` set pcs" "t < length pcs" "pending_peak (pcs ! t) \<noteq> Some n"
  shows "Some n \<in> pending_peak ` set (pcs[t := pc])"
proof -
  obtain u where u: "u < length pcs" "pending_peak (pcs ! u) = Some n" using assms(1) by (metis imageE in_set_conv_nth)
  then have "u \<noteq> t" using assms(3) by auto
  then have "pcs[t := pc] ! u = pcs ! u" "u < length (pcs[t := pc])" using u(1) by simp_all
  then show ?thesis using u(2) by (metis image_eqI nth_mem)
qed

lemma witness_kept:
  assumes "Some n \<in> pending_peak ` set pcs" "t < length pcs" "pending_peak pc = pending_peak (pcs ! t)"
  shows "Some n \<in> pending_peak ` set (pcs[t := pc])"
proof (cases "pending_peak (pcs ! t) = Some n")
  case True
  then show ?thesis using assms(2,3) set_update_memI [OF assms(2), of pc] by (metis image_eqI)
qed (rule witness_stays [OF assms(1,2)])

lemma peak_inv_update:
  assumes "peak_inv s" "ss_pcs s' = (ss_pcs s)[t := pc]" "ss_peak s \<le> ss_peak s'" "ss_largest s \<le> ss_largest s'"
    "unat (ss_peak s') \<le> ss_largest s'" "\<And>v. pending_peak pc = Some v \<Longrightarrow> v \<le> ss_largest s'"
    "\<And>live peak. pc = Peaking live peak \<Longrightarrow> peak \<le> ss_peak s'"
    "ss_largest s' = unat (ss_peak s') \<or> Some (ss_largest s') \<in> pending_peak ` set ((ss_pcs s)[t := pc])"
  shows "peak_inv s'"
  unfolding peak_inv_def
proof (intro conjI ballI allI impI)
  show "v \<le> ss_largest s'" if "pc' \<in> set (ss_pcs s')" "pending_peak pc' = Some v" for pc' v
  proof (cases "pc' = pc")
    case False
    then have "pc' \<in> set (ss_pcs s)" using that(1) in_set_update [of pc'] unfolding assms(2) by blast
    then have "v \<le> ss_largest s" using assms(1) that(2) by (auto simp: peak_inv_def)
    then show ?thesis using assms(4) by simp
  qed (use assms(6) that(2) in simp)
  show "p \<le> ss_peak s'" if "Peaking l p \<in> set (ss_pcs s')" for l p
  proof (cases "Peaking l p = pc")
    case False
    then have "Peaking l p \<in> set (ss_pcs s)" using that in_set_update [of "Peaking l p"] unfolding assms(2) by blast
    then have "p \<le> ss_peak s" using assms(1) by (auto simp: peak_inv_def)
    then show ?thesis using assms(3) by simp
  qed (use assms(7) [of l p] in simp)
  show "unat (ss_peak s') \<le> ss_largest s'" by (rule assms(5))
  show "ss_largest s' = unat (ss_peak s') \<or> Some (ss_largest s') \<in> pending_peak ` set (ss_pcs s')"
    unfolding assms(2) by (rule assms(8))
qed

lemma peak_invD:
  assumes "peak_inv s" "t < length (ss_pcs s)"
  shows "unat (ss_peak s) \<le> ss_largest s" "ss_pcs s ! t = Peaking live peak \<Longrightarrow> peak \<le> ss_peak s"
    "pending_peak (ss_pcs s ! t) = Some v \<Longrightarrow> v \<le> ss_largest s"
    "ss_largest s = unat (ss_peak s) \<or> Some (ss_largest s) \<in> pending_peak ` set (ss_pcs s)"
  using assms(1) nth_mem [OF assms(2)] unfolding peak_inv_def by (blast | metis)+

lemma peak_step: "stat_step s s' \<Longrightarrow> peak_inv s \<Longrightarrow> peak_inv s'"
proof (induction rule: stat_step.induct)
  case (record_block t s sz live)
  note d = peak_invD [OF record_block(5,1)]
  let ?pcs = "(ss_pcs s)[t := Recorded live]"
  have new: "Some (unat live) \<in> pending_peak ` set ?pcs"
    using set_update_memI [OF record_block(1), of "Recorded live"] by (metis image_eqI pending_peak.simps(1))
  have "max (ss_largest s) (unat live) = unat (ss_peak s) \<or> Some (max (ss_largest s) (unat live)) \<in> pending_peak ` set ?pcs"
    using d(4) new witness_stays [of "ss_largest s" "ss_pcs s" t "Recorded live"] record_block(1,2) by (auto simp: max_def)
  then show ?case using d(1) by (intro peak_inv_update [OF record_block(5), of _ t "Recorded live"]) auto
next
  case (load_peak t s live)
  note d = peak_invD [OF load_peak(3,1)]
  show ?case
    using d(1,3,4) load_peak(1,2) witness_kept [of "ss_largest s" "ss_pcs s" t "Peaking live (ss_peak s)"]
    by (intro peak_inv_update [OF load_peak(3), of _ t "Peaking live (ss_peak s)"]) auto
next
  case (peak_is_high t s live peak)
  note d = peak_invD [OF peak_is_high(4,1)]
  have "unat live \<le> unat (ss_peak s)" using d(2) [OF peak_is_high(2)] peak_is_high(3) by (simp add: u64_ord)
  then have "unat live = ss_largest s \<Longrightarrow> ss_largest s = unat (ss_peak s)" using d(1) by simp
  then have "ss_largest s = unat (ss_peak s) \<or> Some (ss_largest s) \<in> pending_peak ` set ((ss_pcs s)[t := Between])"
  proof (cases "unat live = ss_largest s")
    case False
    then have "pending_peak (ss_pcs s ! t) \<noteq> Some (ss_largest s)" using peak_is_high(2) by simp
    then show ?thesis using d(4) witness_stays [OF _ peak_is_high(1)] by blast
  qed simp
  then show ?case using d(1) by (intro peak_inv_update [OF peak_is_high(4), of _ t Between]) auto
next
  case (raise_peak t s live peak)
  note d = peak_invD [OF raise_peak(5,1)]
  have l: "unat live \<le> ss_largest s" "ss_peak s \<le> live" "unat (ss_peak s) < unat live"
    using d(3) [of "unat live"] raise_peak(2-4) by (simp_all add: u64_ord)
  then have "ss_largest s = unat live \<or> Some (ss_largest s) \<in> pending_peak ` set ((ss_pcs s)[t := Between])"
  proof (cases "unat live = ss_largest s")
    case False
    then have "pending_peak (ss_pcs s ! t) \<noteq> Some (ss_largest s)" using raise_peak(2) by simp
    moreover have "ss_largest s \<noteq> unat (ss_peak s)" using l by simp
    ultimately show ?thesis using d(4) witness_stays [OF _ raise_peak(1)] by blast
  qed simp
  then show ?case using l(1,2) by (intro peak_inv_update [OF raise_peak(5), of _ t Between]) auto
next
  case (retry_peak t s live peak)
  note d = peak_invD [OF retry_peak(4,1)]
  show ?case
    using d(1,3,4) retry_peak(1,2) witness_kept [of "ss_largest s" "ss_pcs s" t "Peaking live (ss_peak s)"]
    by (intro peak_inv_update [OF retry_peak(4), of _ t "Peaking live (ss_peak s)"]) auto
next
  case (begin_sub t s sz)
  note d = peak_invD [OF begin_sub(4,1)]
  show ?case
    using d(1,4) begin_sub(1,2) witness_kept [of "ss_largest s" "ss_pcs s" t "Subtracting sz (ss_live s)"]
    by (intro peak_inv_update [OF begin_sub(4), of _ t "Subtracting sz (ss_live s)"]) auto
next
  case (finish_sub t s sz old_live)
  note d = peak_invD [OF finish_sub(4,1)]
  show ?case
    using d(1,4) finish_sub(1,2) witness_kept [of "ss_largest s" "ss_pcs s" t Between]
    by (intro peak_inv_update [OF finish_sub(4), of _ t Between]) auto
next
  case (retry_sub t s sz old_live)
  note d = peak_invD [OF retry_sub(3,1)]
  show ?case
    using d(1,4) retry_sub(1,2) witness_kept [of "ss_largest s" "ss_pcs s" t "Subtracting sz (ss_live s)"]
    by (intro peak_inv_update [OF retry_sub(3), of _ t "Subtracting sz (ss_live s)"]) auto
qed

lemma stat_reachable_inv: "stat_reachable n s \<Longrightarrow> balanced s \<and> peak_inv s"
proof (induction rule: stat_reachable.induct)
  case stat_starts
  then show ?case by (auto simp: balanced_def peak_inv_def stat_start_def sum_list_replicate)
qed (use balanced_step peak_step in blast)

section \<open>Properties\<close>

text \<open>
  C27. However many threads allocate and free at once and however their steps interleave, the statistics are exact:
  \<^verbatim>\<open>bytes_live\<close> is the size of the recorded blocks plus what the frees under way have still to take off; the saturation in
  \<^verbatim>\<open>sub_mem_stats_live\<close> never happens; the peak never exceeds the largest value \<^verbatim>\<open>bytes_live\<close> has had, and is that value
  whenever no thread is between an addition and the end of \<^verbatim>\<open>update_mem_peak\<close>.
\<close>

theorem concurrent_stats_exact:
  assumes "stat_reachable n s"
  shows "unat (ss_live s) = ss_owned s + sum_list (map pending_sub (ss_pcs s)) \<and>
    (\<forall>sz. Subtracting sz (ss_live s) \<in> set (ss_pcs s) \<longrightarrow> sz \<le> ss_live s) \<and>
    unat (ss_peak s) \<le> ss_largest s \<and>
    ((\<forall>pc \<in> set (ss_pcs s). pending_peak pc = None) \<longrightarrow> unat (ss_peak s) = ss_largest s)"
proof -
  have b: "unat (ss_live s) = ss_owned s + sum_list (map pending_sub (ss_pcs s))" and p: "peak_inv s"
    using stat_reachable_inv [OF assms] by (simp_all add: balanced_def)
  have "sz \<le> ss_live s" if "Subtracting sz (ss_live s) \<in> set (ss_pcs s)" for sz
  proof -
    have "unat sz \<in> set (map pending_sub (ss_pcs s))" using that by (metis image_eqI pending_sub.simps(1) set_map)
    then have "unat sz \<le> sum_list (map pending_sub (ss_pcs s))" by (rule member_le_sum_list) simp
    then show ?thesis using b by (simp add: u64_ord)
  qed
  then show ?thesis using b p by (auto simp: peak_inv_def)
qed

text \<open>Two threads, the second of which overtakes the first.\<close>

theorem concurrent_stats_exact_witness:
  "\<exists>s. stat_reachable 2 s \<and> ss_live s = 12 \<and> unat (ss_peak s) = ss_largest s \<and> ss_peak s = 12"
proof -
  let ?s1 = "\<lparr>ss_live = 5, ss_peak = 0, ss_pcs = [Recorded 5, Between], ss_owned = 5, ss_largest = 5\<rparr>"
  let ?s2 = "\<lparr>ss_live = 12, ss_peak = 0, ss_pcs = [Recorded 5, Recorded 12], ss_owned = 12, ss_largest = 12\<rparr>"
  let ?s3 = "?s2\<lparr>ss_pcs := [Recorded 5, Peaking 12 0]\<rparr>"
  let ?s4 = "?s2\<lparr>ss_pcs := [Recorded 5, Between], ss_peak := 12\<rparr>"
  let ?s5 = "?s4\<lparr>ss_pcs := [Peaking 5 12, Between]\<rparr>"
  let ?s6 = "?s4\<lparr>ss_pcs := [Between, Between]\<rparr>"
  have start: "stat_start 2 = \<lparr>ss_live = 0, ss_peak = 0, ss_pcs = [Between, Between], ss_owned = 0, ss_largest = 0\<rparr>"
    by (simp add: stat_start_def eval_nat_numeral)
  have 1: "stat_step (stat_start 2) ?s1" using record_block [of 0 "stat_start 2" 5 5] by (simp add: start set_pc_def)
  have 2: "stat_step ?s1 ?s2" using record_block [of 1 ?s1 7 12] by (simp add: set_pc_def)
  have 3: "stat_step ?s2 ?s3" using load_peak [of 1 ?s2 12] by (simp add: set_pc_def)
  have 4: "stat_step ?s3 ?s4" using raise_peak [of 1 ?s3 12 0] by (simp add: set_pc_def)
  have 5: "stat_step ?s4 ?s5" using load_peak [of 0 ?s4 5] by (simp add: set_pc_def)
  have 6: "stat_step ?s5 ?s6" using peak_is_high [of 0 ?s5 5 12] by (simp add: set_pc_def)
  have r: "stat_reachable 2 ?s6"
    by (rule stat_steps [OF stat_steps [OF stat_steps [OF stat_steps [OF stat_steps [OF stat_steps [OF stat_starts 1] 2] 3] 4] 5] 6])
  have "unat (ss_peak ?s6) = ss_largest ?s6" using concurrent_stats_exact [OF r] by simp
  then show ?thesis using r by (intro exI [of _ ?s6]) simp
qed

end
