(* ===== verification/Pool.thy ===== *)
theory Pool
  imports Prelude "HOL-Library.Monad_Syntax"
begin

text \<open>
  The buffer pool as far as it is written (\<^verbatim>\<open>src/storage/buffer/pool.c\<close>, \<^verbatim>\<open>src/include/pool.h\<close>): its frames and lists, the size
  of its hash table, the bucket of a block, and the test for eviction. A pointer to a frame is its index in
  \<^verbatim>\<open>pages\<close>; a failed \<^verbatim>\<open>assert\<close> is \<^term>\<open>None\<close>, and so is a loop that does not end.
\<close>

section \<open>Frames and pool\<close>

datatype BufferPoolPolicy = BUFFER_POOL_POLICY_CLOCK_SWEEP | BUFFER_POOL_POLICY_OLD_YOUNG

record Page =
  pg_block :: "block_id_t option"
  pin_count :: u32
  pg_dirty :: bool
  pg_valid :: bool
  hash_next :: "nat option"
  lru_prev :: "nat option"
  lru_next :: "nat option"
  dirty_prev :: "nat option"
  dirty_next :: "nat option"
  free_next :: "nat option"
  in_lru :: bool
  in_dirty :: bool
  io_in_progress :: bool

record BufferPool =
  pool_pages :: "Page list"
  num_pages :: usize
  hash_table :: "nat option list"
  hash_size :: usize
  lru_head :: "nat option"
  lru_tail :: "nat option"
  dirty_head :: "nat option"
  dirty_tail :: "nat option"
  free_head :: "nat option"
  dirty_count :: usize

definition BUFFER_POOL_DEFAULT_PAGES :: usize where
  "BUFFER_POOL_DEFAULT_PAGES = 64"

definition BUFFER_POOL_HASH_MIN :: usize where
  "BUFFER_POOL_HASH_MIN = 16"

section \<open>Operations\<close>

partial_function (option) hash_size_loop :: "usize \<Rightarrow> usize \<Rightarrow> usize option" where
  "hash_size_loop pages n = (if n < pages * 2 then hash_size_loop pages (push_bit 1 n) else Some n)"

definition buffer_pool_hash_size :: "usize \<Rightarrow> usize option" where
  "buffer_pool_hash_size pages = hash_size_loop pages BUFFER_POOL_HASH_MIN"

definition buffer_pool_hash :: "BufferPool \<Rightarrow> block_id_t \<Rightarrow> usize" where
  "buffer_pool_hash pool block_id = and block_id (hash_size pool - 1)"

definition buffer_pool_buf_id :: "BufferPool \<Rightarrow> nat option \<Rightarrow> usize option" where
  "buffer_pool_buf_id pool pg =
     (case pg of None \<Rightarrow> None | Some i \<Rightarrow> if i < unat (num_pages pool) then Some (of_nat i) else None)"

definition get_buffer_page :: "BufferPool \<Rightarrow> usize \<Rightarrow> Page option" where
  "get_buffer_page pool buf_id = (if buf_id < num_pages pool then Some (pool_pages pool ! unat buf_id) else None)"

definition buffer_page_evictable :: "BufferPool \<Rightarrow> usize \<Rightarrow> bool option" where
  "buffer_page_evictable pool buf_id =
     do {
       pg \<leftarrow> get_buffer_page pool buf_id;
       Some (pg_valid pg \<and> pin_count pg = 0 \<and> \<not> io_in_progress pg)
     }"

section \<open>The hash table has a power of two of buckets\<close>

lemma push_bit_power:
  assumes "k < 63"
  shows "push_bit 1 (2 ^ k :: usize) = 2 ^ Suc k"
  by (simp add: push_bit_eq_mult)

lemma unat_power:
  assumes "k < 64"
  shows "unat (2 ^ k :: usize) = 2 ^ k"
proof -
  have "(2 :: nat) ^ k < 2 ^ 64" using assms by (intro power_strict_increasing) simp_all
  then have "unat (of_nat (2 ^ k) :: usize) = 2 ^ k"
    by (simp only: unsigned_of_nat) (simp add: take_bit_nat_eq_self assms)
  then show ?thesis by simp
qed

lemma hash_size_loop_ok:
  assumes "unat pages \<le> 2 ^ 62" "k \<le> 63"
  shows "\<exists>j \<ge> k. j \<le> 63 \<and> hash_size_loop pages (2 ^ k) = Some (2 ^ j) \<and> 2 * unat pages \<le> 2 ^ j"
  using assms(2)
proof (induction "63 - k" arbitrary: k)
  case 0
  then have k: "k = 63" by simp
  have "unat (pages * 2) = 2 * unat pages" using assms(1) by (simp add: unat_mult_u64)
  then have "\<not> (2 ^ 63 :: usize) < pages * 2" using assms(1) by (simp add: u64_ord)
  then show ?case using k assms(1) by (intro exI [of _ 63]) (subst hash_size_loop.simps, simp)
next
  case (Suc d)
  then have k: "k < 63" by simp
  have n: "unat (pages * 2) = 2 * unat pages" using assms(1) by (simp add: unat_mult_u64)
  have p: "unat (2 ^ k :: usize) = 2 ^ k" by (rule unat_power) (use k in simp)
  show ?case
  proof (cases "(2 ^ k :: usize) < pages * 2")
    case True
    then have "hash_size_loop pages (2 ^ k) = hash_size_loop pages (2 ^ Suc k)"
      by (subst hash_size_loop.simps) (simp only: if_True push_bit_power [OF k])
    moreover have "d = 63 - Suc k" "Suc k \<le> 63" using Suc.hyps(2) k by simp_all
    then obtain j where "Suc k \<le> j" "j \<le> 63" "hash_size_loop pages (2 ^ Suc k) = Some (2 ^ j)" "2 * unat pages \<le> 2 ^ j"
      using Suc.hyps(1) by blast
    ultimately show ?thesis by (intro exI [of _ j]) simp
  next
    case False
    then have "2 * unat pages \<le> 2 ^ k" using n p by (simp add: u64_ord)
    moreover have "hash_size_loop pages (2 ^ k) = Some (2 ^ k)" using False by (subst hash_size_loop.simps) simp
    ultimately show ?thesis using k by (intro exI [of _ k]) simp
  qed
qed

text \<open>
  For every number of frames up to \<open>2 ^ 62\<close> the computation of the table size returns a power of two of at least 16
  and at least twice the number of frames; with that size the bucket of a block, computed by a
  bitwise and, is the block number modulo the table size, and so lies inside the table.
\<close>

theorem buffer_pool_hash_is_mod:
  assumes "unat pages \<le> 2 ^ 62" "buffer_pool_hash_size pages = Some (hash_size pool)"
  shows "(\<exists>k. hash_size pool = 2 ^ k) \<and> 16 \<le> hash_size pool \<and> 2 * unat pages \<le> unat (hash_size pool) \<and>
    buffer_pool_hash pool block_id = block_id mod hash_size pool \<and> buffer_pool_hash pool block_id < hash_size pool"
proof -
  obtain j where j: "4 \<le> j" "j \<le> 63" "hash_size pool = 2 ^ j" "2 * unat pages \<le> 2 ^ j"
    using hash_size_loop_ok [OF assms(1), of 4] assms(2)
    by (auto simp: buffer_pool_hash_size_def BUFFER_POOL_HASH_MIN_def)
  have u: "unat (hash_size pool) = 2 ^ j" using unat_power [of j] j(2,3) by simp
  have "(2 :: nat) ^ 4 \<le> 2 ^ j" using j(1) by (intro power_increasing) simp_all
  then have "16 \<le> hash_size pool" using u by (simp add: u64_ord)
  moreover have "hash_size pool - 1 = mask j" using j(3) by (simp add: mask_eq_decr_exp)
  then have m: "buffer_pool_hash pool block_id = block_id mod hash_size pool"
    by (simp add: buffer_pool_hash_def j(3) take_bit_eq_mod flip: take_bit_eq_mask)
  moreover have "block_id mod hash_size pool < hash_size pool"
    using u by (simp add: u64_ord unat_mod_distrib)
  ultimately show ?thesis using j u by auto
qed

theorem buffer_pool_hash_is_mod_witness:
  "buffer_pool_hash_size 100 = Some 256 \<and>
   buffer_pool_hash \<lparr>pool_pages = [], num_pages = 100, hash_table = [], hash_size = 256, lru_head = None, lru_tail = None,
     dirty_head = None, dirty_tail = None, free_head = None, dirty_count = 0\<rparr> 1000 = 232"
proof -
  have s: "buffer_pool_hash_size 100 = Some 256"
    by (simp add: buffer_pool_hash_size_def BUFFER_POOL_HASH_MIN_def hash_size_loop.simps)
  then show ?thesis
    using buffer_pool_hash_is_mod [of 100 "\<lparr>pool_pages = [], num_pages = 100, hash_table = [], hash_size = 256, lru_head = None,
      lru_tail = None, dirty_head = None, dirty_tail = None, free_head = None, dirty_count = 0\<rparr>" 1000]
    by simp
qed

end
