(* ===== verification/Datum.thy ===== *)
theory Datum
  imports Prelude
begin

text \<open>
  The uniform value representation of the heap store (\<^verbatim>\<open>src/include/store.h\<close>, \<^verbatim>\<open>src/include/heap.h\<close>) and the
  heap operations, which are placeholders so far (\<^verbatim>\<open>src/storage/table/heap.c\<close>). A floating-point number is its
  bit pattern, a pointer its address.
\<close>

section \<open>Data\<close>

datatype TupleColType =
  TUPLE_COL_NULL | TUPLE_COL_BOOL | TUPLE_COL_I32 | TUPLE_COL_I64 | TUPLE_COL_F32 | TUPLE_COL_F64 | TUPLE_COL_TEXT
| TUPLE_COL_JSONB | TUPLE_COL_VECTOR

record TupleColDef =
  col_def_name :: "bytes option"
  col_def_type :: TupleColType

record HeapSchema =
  hs_cols :: "TupleColDef list"
  hs_ncols :: u16

record ItemPtr =
  ip_blkid_hi :: u16
  ip_blkid_lo :: u16
  ip_posid :: u16

type_synonym Datum = u64

record TupleHdr =
  t_xmin :: u64
  t_xmax :: u64
  t_emb_ctid :: ItemPtr
  t_ctid :: ItemPtr
  null_bits :: u64

record TupleSlotId =
  lp_off :: u16
  lp_len :: u16

record HeapTuple =
  ht_hdr :: TupleHdr
  ht_cols :: "Datum list"
  ht_ncols :: u16

record HeapStore =
  heap_schema :: "HeapSchema option"

record HeapStoreContext =
  ctx_schema :: "HeapSchema option"
  heap_fork_id :: u64

definition INVALID_ITEM_PTR :: ItemPtr where
  "INVALID_ITEM_PTR = \<lparr>ip_blkid_hi = -1, ip_blkid_lo = -1, ip_posid = -1\<rparr>"

definition INVALID_TXN_ID :: u64 where
  "INVALID_TXN_ID = 0"

section \<open>Conversions\<close>

definition BoolGetDatum :: "u64 \<Rightarrow> Datum" where
  "BoolGetDatum v = (if v \<noteq> 0 then 1 else 0)"

definition Int32GetDatum :: "u32 \<Rightarrow> Datum" where
  "Int32GetDatum v = scast v"

definition Int64GetDatum :: "u64 \<Rightarrow> Datum" where
  "Int64GetDatum v = v"

definition Float32GetDatum :: "u32 \<Rightarrow> Datum" where
  "Float32GetDatum v = ucast (bytes_word (word_bytes v) :: u32)"

definition Float64GetDatum :: "u64 \<Rightarrow> Datum" where
  "Float64GetDatum v = bytes_word (word_bytes v)"

definition DatumGetBool :: "Datum \<Rightarrow> bool" where
  "DatumGetBool d \<longleftrightarrow> (ucast d :: u8) \<noteq> 0"

definition DatumGetInt32 :: "Datum \<Rightarrow> u32" where
  "DatumGetInt32 d = ucast d"

definition DatumGetInt64 :: "Datum \<Rightarrow> u64" where
  "DatumGetInt64 d = d"

definition DatumGetFloat32 :: "Datum \<Rightarrow> u32" where
  "DatumGetFloat32 d = bytes_word (word_bytes (ucast d :: u32))"

definition DatumGetFloat64 :: "Datum \<Rightarrow> u64" where
  "DatumGetFloat64 d = bytes_word (word_bytes d)"

definition PointerGetDatum :: "u64 \<Rightarrow> Datum" where
  "PointerGetDatum p = p"

definition DatumGetPointer :: "Datum \<Rightarrow> u64" where
  "DatumGetPointer d = d"

section \<open>Placeholders of the heap\<close>

definition heap_insert :: "HeapStore \<Rightarrow> u64 \<Rightarrow> u32 \<Rightarrow> ItemPtr \<Rightarrow> Datum list \<Rightarrow> u64 \<Rightarrow> ItemPtr" where
  "heap_insert heap xid cid emb_ctid vals nulls = \<lparr>ip_blkid_hi = 0, ip_blkid_lo = 0, ip_posid = 0\<rparr>"

definition heap_create :: "HeapStore \<Rightarrow> HeapStoreContext \<Rightarrow> int" where
  "heap_create store ctx = 0"

definition heap_open :: "HeapStore \<Rightarrow> HeapStoreContext \<Rightarrow> int" where
  "heap_open store ctx = 0"

section \<open>Round trips\<close>

lemma int32_roundtrip [simp]: "DatumGetInt32 (Int32GetDatum v) = v"
  by (rule bit_word_eqI) (simp add: DatumGetInt32_def Int32GetDatum_def bit_simps)

lemma int32_order: "sint (Int32GetDatum v) = sint v"
  using sint_greater_eq [of v] sint_less [of v]
  by (simp add: Int32GetDatum_def signed_scast_eq signed_take_bit_int_eq_self_iff)

lemma float32_roundtrip [simp]: "DatumGetFloat32 (Float32GetDatum v) = v"
  by (rule bit_word_eqI) (simp add: DatumGetFloat32_def Float32GetDatum_def bit_simps)

lemma float64_roundtrip [simp]: "DatumGetFloat64 (Float64GetDatum v) = v"
  by (simp add: DatumGetFloat64_def Float64GetDatum_def)

lemma bool_roundtrip [simp]: "DatumGetBool (BoolGetDatum v) \<longleftrightarrow> v \<noteq> 0"
  by (simp add: DatumGetBool_def BoolGetDatum_def)

lemmas datum_roundtrips = int32_roundtrip float32_roundtrip float64_roundtrip bool_roundtrip

end
