(* ===== verification/Lock.thy ===== *)
theory Lock
  imports Prelude "HOL-Library.Multiset"
begin

text \<open>
  The locks of \<^verbatim>\<open>src/include/lock.h\<close>: \<^verbatim>\<open>LWLock\<close> over \<^verbatim>\<open>pthread_rwlock_t\<close> and the spin lock over
  \<^verbatim>\<open>pthread_mutex_t\<close>. A thread is a number; a lock is who holds it. A call that blocks gives
  \<^term>\<open>None\<close>, and so does the release of a lock that the thread does not hold, which is undefined. What the
  calls of the system do is as POSIX has it; what is shown is what the wrapper makes of it. A system of threads that share a
  lock and a variable is a step relation: a call that is one call of the system is one step, and
  \<^verbatim>\<open>LWLockReleaseClearVar\<close>, which is two statements, is two, between which the others may run.
\<close>

section \<open>The locks of the system\<close>

text \<open>
  A thread that asks for a lock it holds for writing gets \<^verbatim>\<open>EDEADLK\<close>; one that asks for writing what
  it holds for reading waits for itself. The number of read locks is limited: \<open>full\<close> says that the system
  refuses one more with \<^verbatim>\<open>EAGAIN\<close>, without blocking.
\<close>

record LWLock =
  lw_writer :: "nat option"
  lw_readers :: "nat multiset"

definition EDEADLK :: int where "EDEADLK = 35"
definition EBUSY :: int where "EBUSY = 16"
definition EAGAIN :: int where "EAGAIN = 11"

definition rwlock_rdlock :: "bool \<Rightarrow> nat \<Rightarrow> LWLock \<Rightarrow> (int \<times> LWLock) option" where
  "rwlock_rdlock full t l =
     (if full then Some (EAGAIN, l)
      else if lw_writer l = Some t then Some (EDEADLK, l)
      else if lw_writer l \<noteq> None then None
      else Some (0, l\<lparr>lw_readers := add_mset t (lw_readers l)\<rparr>))"

definition rwlock_wrlock :: "nat \<Rightarrow> LWLock \<Rightarrow> (int \<times> LWLock) option" where
  "rwlock_wrlock t l =
     (if lw_writer l = Some t then Some (EDEADLK, l)
      else if lw_writer l \<noteq> None \<or> lw_readers l \<noteq> {#} then None
      else Some (0, l\<lparr>lw_writer := Some t\<rparr>))"

definition rwlock_tryrdlock :: "bool \<Rightarrow> nat \<Rightarrow> LWLock \<Rightarrow> int \<times> LWLock" where
  "rwlock_tryrdlock full t l =
     (if full then (EAGAIN, l)
      else if lw_writer l \<noteq> None then (EBUSY, l) else (0, l\<lparr>lw_readers := add_mset t (lw_readers l)\<rparr>))"

definition rwlock_trywrlock :: "nat \<Rightarrow> LWLock \<Rightarrow> int \<times> LWLock" where
  "rwlock_trywrlock t l =
     (if lw_writer l \<noteq> None \<or> lw_readers l \<noteq> {#} then (EBUSY, l) else (0, l\<lparr>lw_writer := Some t\<rparr>))"

definition rwlock_unlock :: "nat \<Rightarrow> LWLock \<Rightarrow> LWLock option" where
  "rwlock_unlock t l =
     (if lw_writer l = Some t then Some (l\<lparr>lw_writer := None\<rparr>)
      else if t \<in># lw_readers l then Some (l\<lparr>lw_readers := lw_readers l - {#t#}\<rparr>)
      else None)"

section \<open>Reader-writer locks\<close>

datatype LWLockMode = LW_EXCLUSIVE | LW_SHARED | LW_WAIT_UNTIL_FREE

definition LWLockInit :: "LWLock \<Rightarrow> bytes \<Rightarrow> LWLock" where
  "LWLockInit lock name = \<lparr>lw_writer = None, lw_readers = {#}\<rparr>"

text \<open>The result of the call is not looked at.\<close>

definition LWLockAcquire :: "bool \<Rightarrow> nat \<Rightarrow> LWLock \<Rightarrow> LWLockMode \<Rightarrow> LWLock option" where
  "LWLockAcquire full t lock mode =
     map_option snd (if mode = LW_SHARED then rwlock_rdlock full t lock else rwlock_wrlock t lock)"

definition LWLockConditionalAcquire :: "bool \<Rightarrow> nat \<Rightarrow> LWLock \<Rightarrow> LWLockMode \<Rightarrow> bool \<times> LWLock" where
  "LWLockConditionalAcquire full t lock mode =
     (case (if mode = LW_SHARED then rwlock_tryrdlock full t lock else rwlock_trywrlock t lock) of
        (rc, lock1) \<Rightarrow> (rc = 0, lock1))"

definition LWLockAcquireOrWait :: "bool \<Rightarrow> nat \<Rightarrow> LWLock \<Rightarrow> LWLockMode \<Rightarrow> (bool \<times> LWLock) option" where
  "LWLockAcquireOrWait full t lock mode = map_option (Pair True) (LWLockAcquire full t lock mode)"

definition LWLockRelease :: "nat \<Rightarrow> LWLock \<Rightarrow> LWLock option" where
  "LWLockRelease t lock = rwlock_unlock t lock"

text \<open>The statements of \<^verbatim>\<open>LWLockReleaseClearVar\<close>, and what one of them does to the lock and to the variable.\<close>

datatype lock_stmt = Assign u64 | Unlock

definition LWLockReleaseClearVar :: "u64 \<Rightarrow> lock_stmt list" where
  "LWLockReleaseClearVar val = [Assign val, Unlock]"

fun exec_stmt :: "nat \<Rightarrow> lock_stmt \<Rightarrow> LWLock \<Rightarrow> u64 \<Rightarrow> (LWLock \<times> u64) option" where
  "exec_stmt t (Assign val) lock var = Some (lock, val)"
| "exec_stmt t Unlock lock var = map_option (\<lambda>l. (l, var)) (rwlock_unlock t lock)"

definition LWLockDestroy :: "LWLock \<Rightarrow> LWLock option" where
  "LWLockDestroy lock = None"

definition LWLockHeldByMe :: "LWLock \<Rightarrow> bool" where
  "LWLockHeldByMe lock = False"

definition LWLockReleaseAll :: "LWLock \<Rightarrow> LWLock" where
  "LWLockReleaseAll lock = lock"

section \<open>Spin locks\<close>

type_synonym slock_t = "nat option"

definition SpinLockInit :: "slock_t \<Rightarrow> slock_t" where
  "SpinLockInit lock = None"

definition SpinLockAcquire :: "nat \<Rightarrow> slock_t \<Rightarrow> slock_t option" where
  "SpinLockAcquire t lock = (if lock = None then Some (Some t) else None)"

definition SpinLockRelease :: "nat \<Rightarrow> slock_t \<Rightarrow> slock_t option" where
  "SpinLockRelease t lock = (if lock = Some t then Some None else None)"

definition SpinLockFree :: "slock_t \<Rightarrow> slock_t option" where
  "SpinLockFree lock = None"

lemma spin_lock_alone:
  "SpinLockAcquire t lock = Some lock1 \<Longrightarrow> SpinLockAcquire u lock1 = None \<and>
    (SpinLockRelease u lock1 = (if u = t then Some None else None))"
  by (auto simp: SpinLockAcquire_def SpinLockRelease_def split: if_splits)

section \<open>Threads that share a lock\<close>

text \<open>
  What the threads believe to hold is theirs, not the lock's, and they believe to hold it until the releasing call has
  returned. \<open>ls_call\<close> is the value and the statements left of the \<^verbatim>\<open>LWLockReleaseClearVar\<close> a thread is in. A thread
  asks for the lock only when it does not hold it, and \<^verbatim>\<open>LWLockReleaseClearVar\<close> is for a thread that holds it exclusively.
  \<open>lim\<close> says whether the system may run out of read locks.
\<close>

record lock_sys =
  ls_lock :: LWLock
  ls_held :: "nat \<Rightarrow> LWLockMode option"
  ls_call :: "nat \<Rightarrow> (u64 \<times> lock_stmt list) option"
  ls_var :: u64

inductive lock_step :: "bool \<Rightarrow> nat \<Rightarrow> lock_sys \<Rightarrow> lock_sys \<Rightarrow> bool" for lim t where
  acquire: "ls_held s t = None \<Longrightarrow> full \<longrightarrow> lim \<Longrightarrow> LWLockAcquire full t (ls_lock s) mode = Some l \<Longrightarrow>
    lock_step lim t s (s\<lparr>ls_lock := l, ls_held := (ls_held s)(t \<mapsto> mode)\<rparr>)"
| conditional: "ls_held s t = None \<Longrightarrow> full \<longrightarrow> lim \<Longrightarrow> LWLockConditionalAcquire full t (ls_lock s) mode = (r, l) \<Longrightarrow>
    lock_step lim t s (s\<lparr>ls_lock := l, ls_held := (ls_held s)(t := if r then Some mode else None)\<rparr>)"
| acquire_or_wait: "ls_held s t = None \<Longrightarrow> full \<longrightarrow> lim \<Longrightarrow> LWLockAcquireOrWait full t (ls_lock s) mode = Some (r, l) \<Longrightarrow>
    lock_step lim t s (s\<lparr>ls_lock := l, ls_held := (ls_held s)(t := if r then Some mode else None)\<rparr>)"
| release: "ls_held s t = Some mode \<Longrightarrow> ls_call s t = None \<Longrightarrow> LWLockRelease t (ls_lock s) = Some l \<Longrightarrow>
    lock_step lim t s (s\<lparr>ls_lock := l, ls_held := (ls_held s)(t := None)\<rparr>)"
| release_clear_var: "ls_held s t = Some mode \<Longrightarrow> mode \<noteq> LW_SHARED \<Longrightarrow> ls_call s t = None \<Longrightarrow>
    lock_step lim t s (s\<lparr>ls_call := (ls_call s)(t \<mapsto> (val, LWLockReleaseClearVar val))\<rparr>)"
| statement: "ls_call s t = Some (val, st # rest) \<Longrightarrow> exec_stmt t st (ls_lock s) (ls_var s) = Some (l, v) \<Longrightarrow> rest \<noteq> [] \<Longrightarrow>
    lock_step lim t s (s\<lparr>ls_lock := l, ls_call := (ls_call s)(t \<mapsto> (val, rest)), ls_var := v\<rparr>)"
| returns: "ls_call s t = Some (val, [st]) \<Longrightarrow> exec_stmt t st (ls_lock s) (ls_var s) = Some (l, v) \<Longrightarrow>
    lock_step lim t s (s\<lparr>ls_lock := l, ls_held := (ls_held s)(t := None), ls_call := (ls_call s)(t := None), ls_var := v\<rparr>)"

inductive_cases lock_stepE: "lock_step lim t s s'"

definition lock_start :: "bytes \<Rightarrow> LWLock \<Rightarrow> u64 \<Rightarrow> lock_sys" where
  "lock_start name l v = \<lparr>ls_lock = LWLockInit l name, ls_held = (\<lambda>t. None), ls_call = (\<lambda>t. None), ls_var = v\<rparr>"

text \<open>A run, with the threads that made its steps.\<close>

inductive lock_run :: "bool \<Rightarrow> nat list \<Rightarrow> lock_sys \<Rightarrow> lock_sys \<Rightarrow> bool" for lim where
  no_step: "lock_run lim [] s s"
| one_more: "lock_run lim ts s s' \<Longrightarrow> lock_step lim t s' s'' \<Longrightarrow> lock_run lim (ts @ [t]) s s''"

section \<open>The lock tells who holds it\<close>

fun exclusively :: "LWLockMode option \<Rightarrow> bool" where
  "exclusively None = False"
| "exclusively (Some mode) = (mode \<noteq> LW_SHARED)"

definition holders_ok :: "LWLock \<Rightarrow> (nat \<Rightarrow> LWLockMode option) \<Rightarrow> bool" where
  "holders_ok l held \<longleftrightarrow>
     (\<forall>t. (lw_writer l = Some t) = exclusively (held t)) \<and>
     (\<forall>t. count (lw_readers l) t = of_bool (held t = Some LW_SHARED)) \<and>
     (lw_writer l \<noteq> None \<longrightarrow> lw_readers l = {#})"

text \<open>A thread in \<^verbatim>\<open>LWLockReleaseClearVar\<close> still holds the lock, and when only the unlocking is left the variable is set.\<close>

definition call_ok :: "u64 \<Rightarrow> LWLockMode option \<Rightarrow> u64 \<times> lock_stmt list \<Rightarrow> bool" where
  "call_ok v held c \<longleftrightarrow> exclusively held \<and> (snd c = [Assign (fst c), Unlock] \<or> snd c = [Unlock] \<and> v = fst c)"

definition lock_inv :: "lock_sys \<Rightarrow> bool" where
  "lock_inv s \<longleftrightarrow> holders_ok (ls_lock s) (ls_held s) \<and> (\<forall>t c. ls_call s t = Some c \<longrightarrow> call_ok (ls_var s) (ls_held s t) c)"

lemma holders_writer: "holders_ok l held \<Longrightarrow> lw_writer l = Some t \<longleftrightarrow> exclusively (held t)"
  by (simp add: holders_ok_def)

lemma holders_reader: "holders_ok l held \<Longrightarrow> t \<in># lw_readers l \<longleftrightarrow> held t = Some LW_SHARED"
  by (simp add: holders_ok_def flip: count_greater_zero_iff)

lemma exclusively_iff: "exclusively x \<longleftrightarrow> x \<noteq> None \<and> x \<noteq> Some LW_SHARED"
  by (cases x) auto

lemmas lock_defs = LWLockAcquire_def LWLockConditionalAcquire_def LWLockAcquireOrWait_def LWLockRelease_def
  rwlock_rdlock_def rwlock_wrlock_def rwlock_tryrdlock_def rwlock_trywrlock_def
  rwlock_unlock_def EDEADLK_def EBUSY_def EAGAIN_def

text \<open>The two ways the lock changes hands.\<close>

definition granted :: "nat \<Rightarrow> LWLockMode \<Rightarrow> LWLock \<Rightarrow> LWLock" where
  "granted t mode l =
     (if mode = LW_SHARED then l\<lparr>lw_readers := add_mset t (lw_readers l)\<rparr> else l\<lparr>lw_writer := Some t\<rparr>)"

definition grantable :: "LWLockMode \<Rightarrow> LWLock \<Rightarrow> bool" where
  "grantable mode l \<longleftrightarrow> lw_writer l = None \<and> (mode \<noteq> LW_SHARED \<longrightarrow> lw_readers l = {#})"

lemma granted_holders:
  assumes "holders_ok l held" "held t = None" "grantable mode l"
  shows "holders_ok (granted t mode l) (held(t \<mapsto> mode))"
proof -
  have "\<not> exclusively (held u)" for u
    using holders_writer [OF assms(1), of u] assms(3) by (simp add: grantable_def)
  then show ?thesis using assms by (auto simp: holders_ok_def granted_def grantable_def)
qed

lemma holder_alone:
  assumes "holders_ok l held" "exclusively (held t)" "held u \<noteq> None"
  shows "u = t"
proof -
  have w: "lw_writer l = Some t" using holders_writer [OF assms(1)] assms(2) by simp
  then have "held u \<noteq> Some LW_SHARED" using holders_reader [OF assms(1), of u] assms(1) by (simp add: holders_ok_def)
  then have "lw_writer l = Some u" using holders_writer [OF assms(1)] assms(3) by (simp add: exclusively_iff)
  then show ?thesis using w by simp
qed

lemma unlock_holders:
  assumes "holders_ok l0 held" "held t \<noteq> None" "rwlock_unlock t l0 = Some l"
  shows "holders_ok l (held(t := None))"
proof (cases "held t = Some LW_SHARED")
  case True
  then have "lw_writer l0 \<noteq> Some t" "t \<in># lw_readers l0"
    using holders_writer [OF assms(1), of t] holders_reader [OF assms(1), of t] by simp_all
  then have "l = l0\<lparr>lw_readers := lw_readers l0 - {#t#}\<rparr>" using assms(3) by (simp add: rwlock_unlock_def)
  then show ?thesis using assms(1,2) True by (simp add: holders_ok_def)
next
  case False
  then have ex: "exclusively (held t)" using assms(2) by (simp add: exclusively_iff)
  then have w: "lw_writer l0 = Some t" using holders_writer [OF assms(1), of t] by simp
  then have l: "l = l0\<lparr>lw_writer := None\<rparr>" using assms(3) by (simp add: rwlock_unlock_def)
  have "held u = None" if "u \<noteq> t" for u
    using holder_alone [OF assms(1) ex, of u] that by blast
  then show ?thesis using assms(1) w l by (simp add: holders_ok_def)
qed

lemma holder_unlocks:
  assumes "holders_ok l held" "held t \<noteq> None"
  shows "rwlock_unlock t l \<noteq> None"
  using holders_writer [OF assms(1), of t] holders_reader [OF assms(1), of t] assms(2)
  by (auto simp: rwlock_unlock_def exclusively_iff)

lemma acquire_granted:
  assumes "holders_ok l0 held" "held t = None" "LWLockAcquire False t l0 mode = Some l"
  shows "grantable mode l0 \<and> l = granted t mode l0"
  using assms(3) holders_writer [OF assms(1), of t] assms(2) by (auto simp: lock_defs grantable_def granted_def split: if_splits)

lemma conditional_granted:
  assumes "LWLockConditionalAcquire full t l0 mode = (r, l)"
  shows "if r then grantable mode l0 \<and> l = granted t mode l0 else l = l0"
  using assms by (auto simp: lock_defs grantable_def granted_def split: if_splits)

lemma lock_invD:
  assumes "lock_inv s"
  shows "holders_ok (ls_lock s) (ls_held s)" "ls_call s t = Some c \<Longrightarrow> call_ok (ls_var s) (ls_held s t) c"
  using assms unfolding lock_inv_def by blast+

text \<open>A thread that takes or gives back the lock is in no call; the calls of the others stay good.\<close>

lemma lock_inv_change:
  assumes "lock_inv s" "holders_ok l ((ls_held s)(t := m))" "ls_call s t = None"
  shows "lock_inv (s\<lparr>ls_lock := l, ls_held := (ls_held s)(t := m)\<rparr>)"
  using assms by (auto simp: lock_inv_def)

lemma not_held_no_call: "lock_inv s \<Longrightarrow> ls_held s t = None \<Longrightarrow> ls_call s t = None"
  using lock_invD(2) [of s t] by (cases "ls_call s t") (auto simp: call_ok_def)

lemma calls_alone:
  assumes "lock_inv s" "ls_call s t = Some c" "ls_held s u \<noteq> None"
  shows "u = t"
  using holder_alone [OF lock_invD(1) [OF assms(1)], of t u] lock_invD(2) [OF assms(1,2)] assms(3) by (simp add: call_ok_def)

lemma lock_step_inv:
  assumes "lock_step False t s s'" "lock_inv s"
  shows "lock_inv s'"
  using assms
proof (induction rule: lock_step.induct)
  case (acquire s full mode l)
  then have "LWLockAcquire False t (ls_lock s) mode = Some l" by simp
  note g = acquire_granted [OF lock_invD(1) [OF acquire(4)] acquire(1) this]
  with granted_holders [OF lock_invD(1) [OF acquire(4)] acquire(1)] show ?case
    using lock_inv_change [OF acquire(4)] not_held_no_call [OF acquire(4,1)] by blast
next
  case (conditional s full mode r l)
  note g = conditional_granted [OF conditional(3)]
  have "holders_ok l ((ls_held s)(t := if r then Some mode else None))"
    using g granted_holders [OF lock_invD(1) [OF conditional(4)] conditional(1)] lock_invD(1) [OF conditional(4)] conditional(1)
    by (cases r) (auto simp: fun_upd_idem)
  then show ?case using lock_inv_change [OF conditional(4)] not_held_no_call [OF conditional(4,1)] by blast
next
  case (acquire_or_wait s full mode r l)
  then have r: "r" and a: "LWLockAcquire False t (ls_lock s) mode = Some l" by (auto simp: LWLockAcquireOrWait_def)
  note g = acquire_granted [OF lock_invD(1) [OF acquire_or_wait(4)] acquire_or_wait(1) a]
  with granted_holders [OF lock_invD(1) [OF acquire_or_wait(4)] acquire_or_wait(1)] show ?case
    using lock_inv_change [OF acquire_or_wait(4)] not_held_no_call [OF acquire_or_wait(4,1)] r by simp
next
  case (release s mode l)
  then have "holders_ok l ((ls_held s)(t := None))"
    using unlock_holders [OF lock_invD(1) [OF release(4)]] by (simp add: LWLockRelease_def)
  then show ?case using lock_inv_change [OF release(4)] release(2) by blast
next
  case (release_clear_var s mode val)
  then show ?case by (simp add: lock_inv_def call_ok_def LWLockReleaseClearVar_def)
next
  case (statement s val st rest l v)
  note c = lock_invD(2) [OF statement(4,1)]
  then have st: "st = Assign val" "rest = [Unlock]" using statement(3) by (auto simp: call_ok_def)
  have "u = t" if "ls_call s u = Some c'" for u c'
    using calls_alone [OF statement(4) that, of t] c by (simp add: call_ok_def exclusively_iff)
  then show ?case using statement(2,4) c st by (auto simp: lock_inv_def call_ok_def)
next
  case (returns s val st l v)
  note c = lock_invD(2) [OF returns(3,1)]
  then have st: "st = Unlock" "v = ls_var s" "rwlock_unlock t (ls_lock s) = Some l" "ls_held s t \<noteq> None"
    using returns(2) by (auto simp: call_ok_def exclusively_iff)
  have "ls_call s u = None" if "u \<noteq> t" for u
    using calls_alone [OF returns(3), of u _ t] st(4) that by (cases "ls_call s u") auto
  then show ?case using unlock_holders [OF lock_invD(1) [OF returns(3)] st(4,3)] by (auto simp: lock_inv_def)
qed

lemma lock_run_inv: "lock_run False ts s s' \<Longrightarrow> lock_inv s \<Longrightarrow> lock_inv s'"
  by (induction rule: lock_run.induct) (auto intro: lock_step_inv)

lemma lock_start_inv: "lock_inv (lock_start name l v)"
  by (simp add: lock_inv_def holders_ok_def lock_start_def LWLockInit_def)

text \<open>The steps of the others leave what a thread holds, and the variable as long as it holds the lock.\<close>

lemma lock_step_other:
  assumes "lock_step False u s s'" "lock_inv s" "u \<noteq> t" "ls_held s t \<noteq> None"
  shows "ls_held s' t = ls_held s t \<and> ls_var s' = ls_var s"
  using assms
proof (induction rule: lock_step.induct)
  case (statement s val st rest l v)
  then show ?case using calls_alone by blast
next
  case (returns s val st l v)
  then show ?case using calls_alone by blast
qed simp_all

lemma lock_run_other:
  assumes "lock_run False us s s'" "lock_inv s" "t \<notin> set us" "ls_held s t \<noteq> None"
  shows "ls_held s' t = ls_held s t \<and> ls_var s' = ls_var s"
  using assms
proof (induction rule: lock_run.induct)
  case (one_more ts s s' u s'')
  then show ?case using lock_step_other [OF one_more(2) lock_run_inv [OF one_more(1)], of t] by auto
qed simp

lemma nobody_holds:
  assumes "holders_ok l held" "\<forall>t. held t = None"
  shows "lw_writer l = None" "lw_readers l = {#}"
proof -
  show "lw_writer l = None" using holders_writer [OF assms(1)] assms(2) by (cases "lw_writer l") auto
  show "lw_readers l = {#}" using assms by (intro multiset_eqI) (simp add: holders_ok_def)
qed

text \<open>A thread that comes to the end of \<^verbatim>\<open>LWLockReleaseClearVar\<close> leaves its value, and the lock to nobody.\<close>

lemma clear_var_returns:
  assumes "lock_inv s" "ls_call s t = Some (val, c)" "lock_step False t s s'" "ls_held s' t = None"
  shows "ls_var s' = val \<and> (\<forall>u. ls_held s' u = None)"
proof -
  note c = lock_invD(2) [OF assms(1,2)]
  have "ls_held s u = None" if "u \<noteq> t" for u
    using calls_alone [OF assms(1,2), of u] that by blast
  with assms(3) show ?thesis
    using assms(2,4) c by (cases rule: lock_stepE) (auto simp: call_ok_def exclusively_iff split: if_splits)
qed

lemma clear_var_goes_on:
  assumes "lock_inv s" "ls_call s t = Some c"
  shows "\<exists>s'. lock_step False t s s'"
proof -
  obtain val where c: "c = (val, [Assign val, Unlock]) \<or> c = (val, [Unlock])"
    using lock_invD(2) [OF assms] by (cases c) (auto simp: call_ok_def)
  have "ls_held s t \<noteq> None" using lock_invD(2) [OF assms] by (simp add: call_ok_def exclusively_iff)
  then obtain l where "rwlock_unlock t (ls_lock s) = Some l" using holder_unlocks [OF lock_invD(1) [OF assms(1)]] by blast
  then show ?thesis using c assms(2) statement [of s t val "Assign val" "[Unlock]"] returns [of s t val Unlock] by fastforce
qed

section \<open>Properties\<close>

text \<open>
  C29. However the threads that share a lock interleave, also between the two statements of \<^verbatim>\<open>LWLockReleaseClearVar\<close>, and
  as long as the system does not run out of read locks: a thread that holds the lock exclusively holds it alone; while a
  thread holds it in any mode, the others do not change the variable; when \<^verbatim>\<open>LWLockReleaseClearVar\<close> returns, the
  variable has the value it was called with and nobody holds the lock, and it never blocks on the way; a holder's release is always
  defined; and a lock that no thread holds is given to whoever asks for it.
\<close>

theorem lock_excludes:
  assumes "lock_run False ts (lock_start name l0 v) s"
  shows "(\<forall>t u m. ls_held s t = Some m \<and> m \<noteq> LW_SHARED \<and> ls_held s u \<noteq> None \<longrightarrow> u = t) \<and>
    (\<forall>t us s'. ls_held s t \<noteq> None \<and> lock_run False us s s' \<and> t \<notin> set us \<longrightarrow> ls_var s' = ls_var s \<and> ls_held s' t = ls_held s t) \<and>
    (\<forall>t val c. ls_call s t = Some (val, c) \<longrightarrow> (\<exists>s'. lock_step False t s s') \<and>
       (\<forall>s'. lock_step False t s s' \<and> ls_held s' t = None \<longrightarrow> ls_var s' = val \<and> (\<forall>u. ls_held s' u = None))) \<and>
    (\<forall>t. ls_held s t \<noteq> None \<longrightarrow> LWLockRelease t (ls_lock s) \<noteq> None) \<and>
    ((\<forall>t. ls_held s t = None) \<longrightarrow>
       (\<forall>t m. LWLockAcquire False t (ls_lock s) m \<noteq> None \<and> fst (LWLockConditionalAcquire False t (ls_lock s) m)))"
proof (intro conjI allI impI)
  have inv: "lock_inv s" by (rule lock_run_inv [OF assms lock_start_inv])
  note h = lock_invD(1) [OF inv]
  show "u = t" if "ls_held s t = Some m \<and> m \<noteq> LW_SHARED \<and> ls_held s u \<noteq> None" for t u m
    using holder_alone [OF h, of t u] that by simp
  show "ls_var s' = ls_var s" "ls_held s' t = ls_held s t"
    if "ls_held s t \<noteq> None \<and> lock_run False us s s' \<and> t \<notin> set us" for t us s'
    using lock_run_other [OF _ inv, of us s' t] that by simp_all
  show "\<exists>s'. lock_step False t s s'" if "ls_call s t = Some (val, c)" for t val c
    by (rule clear_var_goes_on [OF inv that])
  show "ls_var s' = val" "ls_held s' u = None"
    if "ls_call s t = Some (val, c)" "lock_step False t s s' \<and> ls_held s' t = None" for t val c s' u
    using clear_var_returns [OF inv that(1), of s'] that(2) by simp_all
  show "LWLockRelease t (ls_lock s) \<noteq> None" if "ls_held s t \<noteq> None" for t
    using holder_unlocks [OF h that] by (simp add: LWLockRelease_def)
  show "LWLockAcquire False t (ls_lock s) m \<noteq> None" "fst (LWLockConditionalAcquire False t (ls_lock s) m)"
    if "\<forall>t. ls_held s t = None" for t m
    using nobody_holds [OF h that] by (simp_all add: lock_defs)
qed

text \<open>A writer in the middle of \<^verbatim>\<open>LWLockReleaseClearVar\<close>: the variable is set and the lock is still held.\<close>

definition one_writer :: lock_sys where
  "one_writer = \<lparr>ls_lock = \<lparr>lw_writer = Some 1, lw_readers = {#}\<rparr>, ls_held = [1 \<mapsto> LW_EXCLUSIVE], ls_call = Map.empty, ls_var = 5\<rparr>"

lemma one_writer_run: "lock_run lim [1] (lock_start [] \<lparr>lw_writer = None, lw_readers = {#}\<rparr> 5) one_writer"
proof -
  have "lock_step lim 1 (lock_start [] \<lparr>lw_writer = None, lw_readers = {#}\<rparr> 5) one_writer"
    using acquire [of "lock_start [] \<lparr>lw_writer = None, lw_readers = {#}\<rparr> 5" 1 False lim LW_EXCLUSIVE]
    by (simp add: lock_start_def LWLockInit_def lock_defs one_writer_def)
  then show ?thesis using one_more [OF no_step] by fastforce
qed

definition clearing :: lock_sys where
  "clearing = one_writer\<lparr>ls_call := [1 \<mapsto> (9, [Unlock])], ls_var := 9\<rparr>"

lemma clearing_run: "lock_run lim [1, 1, 1] (lock_start [] \<lparr>lw_writer = None, lw_readers = {#}\<rparr> 5) clearing"
proof -
  let ?s1 = "one_writer\<lparr>ls_call := [1 \<mapsto> (9, LWLockReleaseClearVar 9)]\<rparr>"
  have 1: "lock_step lim 1 one_writer ?s1" using release_clear_var [of one_writer 1 LW_EXCLUSIVE lim 9] by (simp add: one_writer_def)
  have 2: "lock_step lim 1 ?s1 clearing"
    using statement [of ?s1 1 9 "Assign 9" "[Unlock]"] by (simp add: LWLockReleaseClearVar_def clearing_def one_writer_def)
  from one_more [OF one_more [OF one_writer_run 1] 2] show ?thesis by simp
qed

theorem lock_excludes_witness:
  "\<exists>s'. lock_run False [1, 1, 1] (lock_start [] \<lparr>lw_writer = None, lw_readers = {#}\<rparr> 5) clearing \<and>
     ls_held clearing 1 = Some LW_EXCLUSIVE \<and> ls_held clearing 2 = None \<and> lock_step False 1 clearing s' \<and>
     ls_var s' = 9 \<and> ls_held s' 1 = None \<and> ls_held s' 2 = None"
proof -
  have c: "ls_call clearing 1 = Some (9, [Unlock])" "ls_held clearing 1 = Some LW_EXCLUSIVE" "ls_held clearing 2 = None"
    by (simp_all add: clearing_def one_writer_def)
  note ex = lock_excludes [OF clearing_run]
  from ex c(1) obtain s' where s: "lock_step False 1 clearing s'" by blast
  from s have n: "ls_held s' 1 = None"
    by (rule lock_stepE) (simp_all add: clearing_def one_writer_def)
  then have "ls_var s' = 9" "ls_held s' 2 = None" using ex c(1) s by blast+
  then show ?thesis using clearing_run c s n by blast
qed

text \<open>
  When the system does run out of read locks, \<^verbatim>\<open>LWLockAcquire\<close> does not look at its answer: a reader believes to hold
  the lock that a writer holds, and the variable changes under it.
\<close>

theorem refused_read_lock_is_ignored:
  "\<exists>s s'. lock_run True [1, 2] (lock_start [] \<lparr>lw_writer = None, lw_readers = {#}\<rparr> 5) s \<and>
     ls_held s 1 = Some LW_EXCLUSIVE \<and> ls_held s 2 = Some LW_SHARED \<and> LWLockRelease 2 (ls_lock s) = None \<and>
     lock_run True [1, 1] s s' \<and> ls_held s' 2 = Some LW_SHARED \<and> ls_var s = 5 \<and> ls_var s' = 9"
proof -
  let ?s = "one_writer\<lparr>ls_held := [1 \<mapsto> LW_EXCLUSIVE, 2 \<mapsto> LW_SHARED]\<rparr>"
  let ?s1 = "?s\<lparr>ls_call := [1 \<mapsto> (9, LWLockReleaseClearVar 9)]\<rparr>"
  let ?s2 = "?s1\<lparr>ls_call := [1 \<mapsto> (9, [Unlock])], ls_var := 9\<rparr>"
  have 1: "lock_step True 2 one_writer ?s"
    using acquire [of one_writer 2 True True LW_SHARED] by (simp add: one_writer_def lock_defs)
  have 2: "lock_step True 1 ?s ?s1" using release_clear_var [of ?s 1 LW_EXCLUSIVE True 9] by (simp add: one_writer_def)
  have 3: "lock_step True 1 ?s1 ?s2"
    using statement [of ?s1 1 9 "Assign 9" "[Unlock]"] by (simp add: LWLockReleaseClearVar_def one_writer_def)
  have "lock_run True [1, 2] (lock_start [] \<lparr>lw_writer = None, lw_readers = {#}\<rparr> 5) ?s"
    using one_more [OF one_writer_run 1] by simp
  moreover have "lock_run True [1, 1] ?s ?s2" using one_more [OF one_more [OF no_step 2] 3] by simp
  ultimately show ?thesis
    by (intro exI [of _ ?s] exI [of _ ?s2]) (simp add: one_writer_def lock_defs)
qed

end
