(* ===== verification/Spec2Isabelle.thy ===== *)
theory Spec2Isabelle
  imports SliceRefine CatalogRelease Persist TableData Operator EchoServer Shutdown AllocThreads Pool Datum Lock
begin

text \<open>
  \<^bold>\<open>The program.\<close> mustdb is an embedded vector database in C. Its support library \<^verbatim>\<open>libv\<close> has a growable
  array (\<^verbatim>\<open>libv/src/slice.c\<close>), hash functions and a chained hash map (\<^verbatim>\<open>libv/src/hash.c\<close>) and an \<^verbatim>\<open>epoll\<close> server
  (\<^verbatim>\<open>libv/src/net\<close>). The database proper stores everything in one file of checksummed blocks
  (\<^verbatim>\<open>src/storage/table/storage.c\<close>): a master header, two database headers that are written in turn, and blocks
  of 8 KB handed out by an extent manager; byte streams over chains of blocks carry the metadata. The
  catalog (\<^verbatim>\<open>src/catalog/catalog.c\<close>) keeps schemas and tables as version chains in hash maps; a
  checkpoint writes their description to a metadata stream, and the readers of \<^verbatim>\<open>src/parse/parser.c\<close>
  turn it into creation requests again. Column vectors and distances are in \<^verbatim>\<open>src/utils\<close>.

  \<^bold>\<open>The theories.\<close> Each opens with what it models; definitions bear the names of the source.

  \<^item> Prelude: the C integer types, memory blocks as byte lists, little-endian words, the answers of an allocator.
  \<^item> Interfaces: the locales \<open>dyn_array\<close>, \<open>bounded_array\<close> and \<open>map_store\<close>.
  \<^item> Slice, SliceRefine (\<^verbatim>\<open>slice.c\<close>, \<^verbatim>\<open>slice.h\<close>): the array at the level of its byte buffer, every allocation may
    fail. Shown: any sequence of calls acts as the functions on a list, error codes included; pushing and popping is a
    stack; its iteration visits every element.
  \<^item> Hash and Hmap (\<^verbatim>\<open>hash.c\<close>, \<^verbatim>\<open>hash.h\<close>): the checksum, and the map with its bucket lists. Shown: it
    refines a finite map under any sequence of operations, growth included.
  \<^item> FileBuffer, MetaBlock, SingleFile, Database (\<^verbatim>\<open>storage.c\<close>, \<^verbatim>\<open>storage.h\<close>): streams of the C library, aligned
    buffers with a checksum; readers and writers over chains of blocks; the extent manager of a file;
    headers, checkpoint, creation and opening. Shown: round trips from the buffer up to a checkpoint followed by opening,
    isolation of blocks, freshness of allocation, and where the code fails to do so.
  \<^item> Crash (\<^verbatim>\<open>storage.c\<close>): the calls between two checkpoints as a step relation with the blocks handed out and
    the blocks written, which may be any blocks, and the files a crash may leave. Shown: as long as the block of the active free
    list is not overwritten, opening any of them gives the last checkpoint; and when no block was read twice or without
    being in use (\<open>sound_use\<close>), the manager does not hand that block out.
  \<^item> Lifetime: creation, checkpoints, crashes and openings in any number and order, including those in which the code hands
    out a block twice. Shown: every state they lead to can be recovered. A \<open>careful\<close> history leaves out double reads and the
    opening of a file whose free list lies beyond its block count; in one, the books of the manager are right all along. An example
    shows what goes wrong otherwise.
  \<^item> TableData: runs of the table data writer anywhere in a session. Shown: rows stay contiguous, no block is used twice, and what was
    flushed before a checkpoint survives any crash after it, unless the client overwrites it.
  \<^item> Persist: the way of table descriptions from the catalog through a metadata stream and a checkpoint to the medium, and
    back after a crash; it composes Catalog, Checkpoint, Crash and Parser.
  \<^item> Parser (\<^verbatim>\<open>parser.c\<close>), Catalog, CatalogRefine, CatalogRelease (\<^verbatim>\<open>catalog.c\<close>, \<^verbatim>\<open>catalog.h\<close>):
    entries are cells of an explicit heap, linked by addresses. Shown: the catalog
    refines a map from names to maps from names, its lookups are of the type the code casts to, creation is atomic, release frees every entry once.
  \<^item> Checkpoint (\<^verbatim>\<open>storage.c\<close> from line 672): table descriptions, data pointers of columns. Here catalog, streams
    and file meet: what a checkpoint writes of a table is what the reader of descriptions returns.
  \<^item> Operator (\<^verbatim>\<open>vector_types.c\<close>, \<^verbatim>\<open>operator.c\<close>): copying with selection and null mask against a
    reference gather; the distances over an abstract floating-point unit.
  \<^item> Net, NetRound, NetServer (\<^verbatim>\<open>net.c\<close>, \<^verbatim>\<open>conn.c\<close>): one worker and its rounds, with the contract
    \<open>net_handlers\<close> of the callbacks; start, stop and release of the server. Shown: a worker never goes wrong whatever the
    kernel answers, output leaves in order, release frees every block once.
  \<^item> NetOutput: the contract \<open>net_replies\<close> (what a callback answers to a packet) and, for every server that keeps it,
    that each connection gets exactly the answers to its packets in order, over any number of rounds. It is interpreted on
    the callbacks of \<^verbatim>\<open>conn.c\<close> and on those of the echo server.
  \<^item> Shutdown: the loops of the workers and the calls of \<^verbatim>\<open>net_server_stop\<close> in interleaved atomic steps. Shown: no wake-up is lost
    and every worker returns.
  \<^item> EchoServer (\<^verbatim>\<open>libv/example/server/server.c\<close>, \<^verbatim>\<open>libv/example/client/client.c\<close>): the example programs. Shown: the
    server echoes, its \<^verbatim>\<open>main\<close> frees what it takes, the client sends what is typed, has its socket while it is in its loop
    and none when it has returned, and returns only for a reason.
  \<^item> Alloc and AllocThreads (\<^verbatim>\<open>alloc.c\<close>): the counting allocator; its statistics, the peak among them, and its fault
    countdown are exact, also when the atomic steps of many threads interleave.
  \<^item> Lock (\<^verbatim>\<open>lock.h\<close>), Pool (\<^verbatim>\<open>pool.c\<close>), Datum (\<^verbatim>\<open>store.h\<close>, \<^verbatim>\<open>heap.h\<close>, \<^verbatim>\<open>heap.c\<close>): locks, the two statements of
    \<^verbatim>\<open>LWLockReleaseClearVar\<close> as two steps, and mutual exclusion; a read lock refused with \<^verbatim>\<open>EAGAIN\<close>, which the wrapper
    ignores; the buffer pool as far as it is written; value conversions.

  \<^bold>\<open>Conventions.\<close> Machine integers are words of their width. A result \<^term>\<open>None\<close> of an operation is a run that
  does not return or is undefined: an endless loop, a failed assertion, a null or dangling pointer that is followed.
  Return codes are values. A struct is a record; a pointer that is shared is an address in an explicit
  heap, one that is not is the value it leads to. Allocator, kernel, standard I/O and floating-point unit are answers
  of the environment, given as functions or lists, so every theorem holds for all of their behaviours that its
  hypotheses admit.

  \<^bold>\<open>Loops and fuel.\<close> Loops that need not end (the metadata streams, \<^verbatim>\<open>flush_conn\<close>, the size of the pool's hash table)
  are \<^theory_text>\<open>partial_function (option)\<close>, and that they return is proved where it holds. The
  release of a catalog takes a bound on its calls and loop rounds; the theorem on it gives a bound from which on the
  result is the same. The worker's loop is run over the list of what it meets.

  \<^bold>\<open>Where the model is coarser than the code.\<close> \<open>create_new_database\<close> takes one answer of the allocator for all its
    allocations, so that they succeed or fail together. The slices of a \<open>TableDataWriter\<close> are lists: a push that
    fails for want of memory, whose result the code does not look at, is not represented. A node of the hash map holds the value of its
    key, not a copy of the bytes at an address of its own. The blocks of a database are at most those that fit the disk,
    and the theorems on checkpoints ask for room for one more.

  \<^bold>\<open>Not modelled.\<close> The commented-out remainder of \<^verbatim>\<open>storage.c\<close> (table data, loading); the frame operations
  of the buffer pool, the clock policy, indexes, the log and transactions, which are declared or
  empty; the PostgreSQL extension, the tests, and the example of the table
  interface, which is written against a header that is not there; the macros of \<^verbatim>\<open>interface.h\<close>, which declare tables
  of functions that appear here as records; \<^verbatim>\<open>create_collection\<close>, which fills a structure with
  null pointers; messages printed to the console; the locks inside a frame and a pool, which no written function takes.
\<close>

end
